(* ===== verification/Prelude.thy ===== *)
theory Prelude
  imports Complex_Main
begin

text \<open>
  Shared vocabulary of the development.  It holds the result type every fallible
  operation returns, the Python values a decoded JSON document is made of, the string
  operations of the standard library the sources call (\<open>str.split\<close>, \<open>str.strip\<close>,
  \<open>int(str)\<close>, zero-padded formatting), and the generic list lemmas on which the
  component proofs rest.

  A string is a list of code points below 256 (\<open>char\<close>); the sources only compare,
  split and format ASCII text, so nothing above that range is looked at.
\<close>

named_theorems res_simps \<open>rewriting of results\<close>

section \<open>Results\<close>

text \<open>
  An exception is a value.  \<open>ValueError field what\<close> carries the field path the message
  starts with and a short form of the complaint.
\<close>

datatype py_error =
    ValueError string string
  | ZoneInfoNotFoundError string
  | DescriptorError string
  | RuntimeError string
  | AssertionError
  | PermissionError string
  | HTTPException int
  | OSError string
  | FileExistsError string
  | StoragePathError string
  | PathContainmentError int
  | FrameNotFoundError int
  | ConfirmationRequiredError
  | InvalidImageError string
  | ImportBatchTooLargeError nat
  | IntegrityError
  | OverflowError
  | TypeError
  | MultipartError string
  | BodyTooLargeError
  | TooManyFilesError
  | InsufficientSpoolSpaceError
  | SpoolReleasedError
  | SsrfError string
  | GaiError

type_synonym 'a res = "py_error + 'a"

definition rbind :: "'a res \<Rightarrow> ('a \<Rightarrow> 'b res) \<Rightarrow> 'b res" where
  "rbind m f = (case m of Inl e \<Rightarrow> Inl e | Inr x \<Rightarrow> f x)"

lemma rbind_Inr [simp, res_simps]: "rbind (Inr x) f = f x"
  by (simp add: rbind_def)

lemma rbind_Inl [simp, res_simps]: "rbind (Inl e) f = Inl e"
  by (simp add: rbind_def)

lemma rbind_eq_Inr: "rbind m f = Inr y \<longleftrightarrow> (\<exists>x. m = Inr x \<and> f x = Inr y)"
  by (cases m) auto

lemma rbind_eq_InrE [elim!]:
  assumes "rbind m f = Inr y"
  obtains x where "m = Inr x" "f x = Inr y"
  using assms by (auto simp: rbind_eq_Inr)

text \<open>A loop that builds a list and stops at the first exception.\<close>

fun rmap :: "('a \<Rightarrow> 'b res) \<Rightarrow> 'a list \<Rightarrow> 'b list res" where
  "rmap f [] = Inr []"
| "rmap f (x # xs) = rbind (f x) (\<lambda>y. rbind (rmap f xs) (\<lambda>ys. Inr (y # ys)))"

lemma rmap_Inr: "(\<And>x. x \<in> set xs \<Longrightarrow> f x = Inr (g x)) \<Longrightarrow> rmap f xs = Inr (map g xs)"
  by (induction xs) auto

lemma rmap_InrD: "rmap f xs = Inr ys \<Longrightarrow> list_all2 (\<lambda>x y. f x = Inr y) xs ys"
  by (induction xs arbitrary: ys) auto

text \<open>\<open>any(f(x) for x in xs)\<close>: left to right, stopping at the first true value.\<close>

fun rany :: "('a \<Rightarrow> bool res) \<Rightarrow> 'a list \<Rightarrow> bool res" where
  "rany f [] = Inr False"
| "rany f (x # xs) = rbind (f x) (\<lambda>b. if b then Inr True else rany f xs)"

lemma rany_Inr: "(\<And>x. x \<in> set xs \<Longrightarrow> f x = Inr (g x)) \<Longrightarrow> rany f xs = Inr (\<exists>x\<in>set xs. g x)"
  by (induction xs) auto

section \<open>Python values\<close>

text \<open>
  Instants and wall-clock times are integers, in microseconds (the resolution of
  \<open>datetime\<close>).  An aware datetime is its UTC instant; a naive one is its wall reading.
\<close>

datatype pydt = Naive int | Aware int

datatype pyval =
    VNone
  | VBool bool
  | VInt int
  | VFloat rat
  | VStr string
  | VDatetime pydt
  | VList "pyval list"
  | VDict "(string \<times> pyval) list"

fun py_truth :: "pyval \<Rightarrow> bool" where
  "py_truth VNone = False"
| "py_truth (VBool b) = b"
| "py_truth (VInt i) = (i \<noteq> 0)"
| "py_truth (VFloat q) = (q \<noteq> 0)"
| "py_truth (VStr s) = (s \<noteq> [])"
| "py_truth (VDatetime d) = True"
| "py_truth (VList xs) = (xs \<noteq> [])"
| "py_truth (VDict d) = (d \<noteq> [])"

definition dict_get :: "(string \<times> pyval) list \<Rightarrow> string \<Rightarrow> pyval \<Rightarrow> pyval" where
  "dict_get d k dflt = (case map_of d k of None \<Rightarrow> dflt | Some v \<Rightarrow> v)"

abbreviation py_utc :: "pydt \<Rightarrow> int" where
  "py_utc d \<equiv> (case d of Naive t \<Rightarrow> t | Aware t \<Rightarrow> t)"

text \<open>\<open>d[k] = v\<close>: an existing key keeps its place.\<close>

fun dict_set :: "('k \<times> 'v) list \<Rightarrow> 'k \<Rightarrow> 'v \<Rightarrow> ('k \<times> 'v) list" where
  "dict_set [] k v = [(k, v)]"
| "dict_set ((k', v') # d) k v = (if k' = k then (k, v) # d else (k', v') # dict_set d k v)"

lemma map_of_dict_set [simp]: "map_of (dict_set d k v) = (map_of d)(k \<mapsto> v)"
  by (induction d k v rule: dict_set.induct) auto

text \<open>\<open>del d[k]\<close> of a key that is there, \<open>d.pop(k, None)\<close> of any.\<close>

definition dict_del :: "('k \<times> 'v) list \<Rightarrow> 'k \<Rightarrow> ('k \<times> 'v) list" where
  "dict_del d k = filter (\<lambda>e. fst e \<noteq> k) d"

lemma map_of_dict_del [simp]: "map_of (dict_del d k) = (map_of d)(k := None)"
  by (induction d) (auto simp: dict_del_def)

lemma dict_set_keys: "fst ` set (dict_set d k v) = insert k (fst ` set d)"
  by (induction d k v rule: dict_set.induct) auto

lemma distinct_dict_set [simp]: "distinct (map fst d) \<Longrightarrow> distinct (map fst (dict_set d k v))"
proof (induction d k v rule: dict_set.induct)
  case (2 k' v' d k v)
  then show ?case using dict_set_keys [of d k v] by (auto simp: image_iff)
qed simp

lemma distinct_dict_del [simp]: "distinct (map fst d) \<Longrightarrow> distinct (map fst (dict_del d k))"
  by (simp add: dict_del_def distinct_map_filter)

text \<open>\<open>tuple(dict.fromkeys(xs))\<close>: the first of equal values stays.\<close>

definition unique_first :: "'a list \<Rightarrow> 'a list" where
  "unique_first xs = rev (remdups (rev xs))"

lemma unique_first_props [simp]: "set (unique_first xs) = set xs" "distinct (unique_first xs)"
  by (simp_all add: unique_first_def)

section \<open>Strings\<close>

fun split_on :: "char \<Rightarrow> string \<Rightarrow> string list" where
  "split_on c [] = [[]]"
| "split_on c (x # xs) =
     (if x = c then [] # split_on c xs
      else (case split_on c xs of [] \<Rightarrow> [[x]] | p # ps \<Rightarrow> (x # p) # ps))"

lemma split_on_nonempty [simp]: "split_on c xs \<noteq> []"
  by (induction xs) (auto split: list.splits)

lemma split_on_notin: "c \<notin> set xs \<Longrightarrow> split_on c xs = [xs]"
  by (induction xs) auto

lemma split_on_append: "c \<notin> set xs \<Longrightarrow> split_on c (xs @ c # ys) = xs # split_on c ys"
  by (induction xs) auto

definition is_space :: "char \<Rightarrow> bool" where
  "is_space c = (let n = (of_char c :: nat) in
     (9 \<le> n \<and> n \<le> 13) \<or> (28 \<le> n \<and> n \<le> 32) \<or> n = 133 \<or> n = 160)"

definition py_strip :: "string \<Rightarrow> string" where
  "py_strip s = rev (dropWhile is_space (rev (dropWhile is_space s)))"

definition ascii_lower :: "char \<Rightarrow> char" where
  "ascii_lower c = (let n = (of_char c :: nat) in if 65 \<le> n \<and> n \<le> 90 then char_of (n + 32) else c)"

definition is_digit :: "char \<Rightarrow> bool" where
  "is_digit c = (let n = (of_char c :: nat) in 48 \<le> n \<and> n \<le> 57)"

definition digit_val :: "char \<Rightarrow> int" where
  "digit_val c = int ((of_char c :: nat) - 48)"

text \<open>
  \<open>int(s)\<close>: surrounding white space, a sign, and digits that single underscores may
  separate.
\<close>

fun digits_val :: "bool \<Rightarrow> int \<Rightarrow> string \<Rightarrow> int option" where
  "digits_val prev acc [] = (if prev then Some acc else None)"
| "digits_val prev acc (c # cs) =
     (if is_digit c then digits_val True (10 * acc + digit_val c) cs
      else if c = CHR ''_'' \<and> prev then digits_val False acc cs
      else None)"

definition py_int :: "string \<Rightarrow> int option" where
  "py_int s = (case py_strip s of
       [] \<Rightarrow> None
     | c # cs \<Rightarrow> (if c = CHR ''+'' then digits_val False 0 cs
                 else if c = CHR ''-'' then map_option uminus (digits_val False 0 cs)
                 else digits_val False 0 (c # cs)))"

definition digit_char :: "nat \<Rightarrow> char" where
  "digit_char n = char_of (48 + n)"

fun show_nat :: "nat \<Rightarrow> string" where
  "show_nat n = (if n < 10 then [digit_char n] else show_nat (n div 10) @ [digit_char (n mod 10)])"

declare show_nat.simps [simp del]

definition show_int :: "int \<Rightarrow> string" where
  "show_int i = (if i < 0 then CHR ''-'' # show_nat (nat (- i)) else show_nat (nat i))"

text \<open>
  \<open>str(v)\<close>.  The text of a float, a datetime or a container is left to the argument \<open>repr\<close>:
  the sources only apply \<open>str\<close> to values that are strings when they come from the program.
\<close>

definition py_str :: "(pyval \<Rightarrow> string) \<Rightarrow> pyval \<Rightarrow> string" where
  "py_str repr v =
     (case v of
        VStr s \<Rightarrow> s
      | VNone \<Rightarrow> ''None''
      | VBool b \<Rightarrow> (if b then ''True'' else ''False'')
      | VInt i \<Rightarrow> show_int i
      | _ \<Rightarrow> repr v)"

text \<open>\<open>f"{n:0kd}"\<close> for a non-negative \<open>n\<close>.\<close>

definition pad_nat :: "nat \<Rightarrow> nat \<Rightarrow> string" where
  "pad_nat k n = (let s = show_nat n in replicate (k - length s) (CHR ''0'') @ s)"

lemma digit_char_facts:
  assumes "n < 10"
  shows "is_digit (digit_char n)" and "digit_val (digit_char n) = int n"
    and "\<not> is_space (digit_char n)"
    and "digit_char n \<noteq> CHR '':''" and "digit_char n \<noteq> CHR ''+''"
    and "digit_char n \<noteq> CHR ''-''" and "digit_char n \<noteq> CHR ''_''"
proof -
  have "\<forall>n \<in> set [0..<10]. is_digit (digit_char n) \<and> digit_val (digit_char n) = int n \<and>
      \<not> is_space (digit_char n) \<and> digit_char n \<noteq> CHR '':'' \<and> digit_char n \<noteq> CHR ''+'' \<and>
      digit_char n \<noteq> CHR ''-'' \<and> digit_char n \<noteq> CHR ''_''"
    by code_simp
  with assms show "is_digit (digit_char n)" "digit_val (digit_char n) = int n"
    "\<not> is_space (digit_char n)" "digit_char n \<noteq> CHR '':''" "digit_char n \<noteq> CHR ''+''"
    "digit_char n \<noteq> CHR ''-''" "digit_char n \<noteq> CHR ''_''"
    by auto
qed

lemma pad2_chars:
  assumes "n < 100"
  shows "pad_nat 2 n = [digit_char (n div 10), digit_char (n mod 10)]"
proof (cases "n < 10")
  case True
  moreover have "CHR ''0'' = digit_char 0" by code_simp
  ultimately show ?thesis by (simp add: pad_nat_def show_nat.simps [of n])
next
  case False
  moreover have "n div 10 < 10" using assms by simp
  ultimately show ?thesis
    by (simp add: pad_nat_def show_nat.simps [of n] show_nat.simps [of "n div 10"])
qed

lemma py_int_pad2: "n < 100 \<Longrightarrow> py_int (pad_nat 2 n) = Some (int n)"
proof -
  assume n: "n < 100"
  then have d: "n div 10 < 10" "n mod 10 < 10" by auto
  have "py_int (pad_nat 2 n) = Some (10 * int (n div 10) + int (n mod 10))"
    using d by (simp add: n pad2_chars py_int_def py_strip_def digit_char_facts)
  also have "10 * int (n div 10) + int (n mod 10) = int n" by presburger
  finally show ?thesis .
qed

lemma pad2_no_colon: "n < 100 \<Longrightarrow> CHR '':'' \<notin> set (pad_nat 2 n)"
  using digit_char_facts(4) [of "n div 10"] digit_char_facts(4) [of "n mod 10"]
  by (simp add: pad2_chars eq_commute less_mult_imp_div_less)

section \<open>Lists\<close>

text \<open>The first element of a list that satisfies a predicate.\<close>

lemma find_first_split:
  assumes "List.find P xs = Some x"
  obtains ys zs where "xs = ys @ x # zs" "P x" "\<forall>y\<in>set ys. \<not> P y"
  using assms
proof (induction xs arbitrary: thesis)
  case Nil
  then show ?case by simp
next
  case (Cons a xs)
  show ?case
  proof (cases "P a")
    case True
    with Cons.prems show ?thesis by (auto intro: Cons.prems(1) [of "[]" xs])
  next
    case False
    with Cons.prems(2) have "List.find P xs = Some x" by simp
    then obtain ys zs where "xs = ys @ x # zs" "P x" "\<forall>y\<in>set ys. \<not> P y"
      using Cons.IH by blast
    with False show ?thesis by (intro Cons.prems(1) [of "a # ys" zs]) auto
  qed
qed

text \<open>Sorted and duplicate-free: what \<open>sorted(set(xs))\<close> returns.\<close>

definition sorted_set :: "'a::linorder list \<Rightarrow> 'a list" where
  "sorted_set xs = sort (remdups xs)"

lemma set_sorted_set [simp]: "set (sorted_set xs) = set xs"
  by (simp add: sorted_set_def)

lemma sorted_sorted_set [simp]: "sorted (sorted_set xs)"
  by (simp add: sorted_set_def)

lemma distinct_sorted_set [simp]: "distinct (sorted_set xs)"
  by (simp add: sorted_set_def)

end
