(* ===== verification/Zone_Time.thy ===== *)
theory Zone_Time
  imports Prelude
begin

text \<open>
  The part of \<open>datetime\<close> and \<open>zoneinfo\<close> the capture code uses.  A zone is its offset
  before the first transition and the list of its transitions, each the UTC instant and
  the offset from then on.  The conversions are those of PEP 495: a wall reading with
  \<open>fold = 0\<close> is placed by the later of the two wall readings of a transition, one with
  \<open>fold = 1\<close> by the earlier, and a conversion from UTC sets \<open>fold\<close> on the second pass
  through a repeated hour.  Dates are day numbers (day 0 is 1970-01-01, a Thursday).
\<close>

abbreviation second_us :: int where "second_us \<equiv> 1000000"
abbreviation minute_us :: int where "minute_us \<equiv> 60000000"
abbreviation hour_us :: int where "hour_us \<equiv> 3600000000"
abbreviation day_us :: int where "day_us \<equiv> 86400000000"

record zone =
  tz_initial :: int
  tz_transitions :: "(int \<times> int) list"

fun off_scan :: "int \<Rightarrow> (int \<times> int) list \<Rightarrow> int \<Rightarrow> int" where
  "off_scan p [] u = p"
| "off_scan p ((t, q) # ts) u = (if u < t then p else off_scan q ts u)"

fun wall_scan :: "bool \<Rightarrow> int \<Rightarrow> (int \<times> int) list \<Rightarrow> int \<Rightarrow> int" where
  "wall_scan fld p [] w = p"
| "wall_scan fld p ((t, q) # ts) w =
     (if w < t + (if fld then min p q else max p q) then p else wall_scan fld q ts w)"

fun fold_scan :: "bool \<Rightarrow> int \<Rightarrow> (int \<times> int) list \<Rightarrow> int \<Rightarrow> bool" where
  "fold_scan f p [] u = f"
| "fold_scan f p ((t, q) # ts) u =
     (if u < t then f else fold_scan (u - t < p - q) q ts u)"

text \<open>\<open>utc.astimezone(tz).utcoffset()\<close>, and the offset of a wall reading.\<close>

definition utcoffset_at :: "zone \<Rightarrow> int \<Rightarrow> int" where
  "utcoffset_at z u = off_scan (tz_initial z) (tz_transitions z) u"

definition wall_offset :: "zone \<Rightarrow> bool \<Rightarrow> int \<Rightarrow> int" where
  "wall_offset z fld w = wall_scan fld (tz_initial z) (tz_transitions z) w"

text \<open>\<open>utc.astimezone(tz)\<close>: the wall reading and its fold.\<close>

definition local_of :: "zone \<Rightarrow> int \<Rightarrow> int" where
  "local_of z u = u + utcoffset_at z u"

definition fold_of :: "zone \<Rightarrow> int \<Rightarrow> bool" where
  "fold_of z u = fold_scan False (tz_initial z) (tz_transitions z) u"

text \<open>\<open>local.astimezone(UTC)\<close>.\<close>

definition utc_of :: "zone \<Rightarrow> bool \<Rightarrow> int \<Rightarrow> int" where
  "utc_of z fld w = w - wall_offset z fld w"

definition day_of :: "int \<Rightarrow> int" where
  "day_of w = w div day_us"

definition tod_of :: "int \<Rightarrow> int" where
  "tod_of w = w mod day_us"

definition weekday_of :: "int \<Rightarrow> int" where
  "weekday_of w = (day_of w + 3) mod 7"

definition mk_time :: "int \<Rightarrow> int \<Rightarrow> int" where
  "mk_time h m = (h * 60 + m) * minute_us"

text \<open>
  The calendar date of a day number, as \<open>date.fromordinal\<close> computes it (ordinal 1 is
  0001-01-01; day 0 of the model is ordinal 719163), and \<open>date.isoformat\<close>.
\<close>

definition days_before_month :: "int \<Rightarrow> int" where
  "days_before_month m = [0, 0, 31, 59, 90, 120, 151, 181, 212, 243, 273, 304, 334] ! nat m"

definition days_in_month :: "int \<Rightarrow> int" where
  "days_in_month m = [0, 31, 28, 31, 30, 31, 30, 31, 31, 30, 31, 30, 31] ! nat m"

definition civil_of :: "int \<Rightarrow> int \<times> int \<times> int" where
  "civil_of day =
     (let n = day + 719162; n400 = n div 146097; n = n mod 146097;
          n100 = n div 36524; n = n mod 36524;
          n4 = n div 1461; n = n mod 1461;
          n1 = n div 365; n = n mod 365;
          year = n400 * 400 + 1 + n100 * 100 + n4 * 4 + n1
      in if n1 = 4 \<or> n100 = 4 then (year - 1, 12, 31)
         else
          (let leap = (n1 = 3 \<and> (n4 \<noteq> 24 \<or> n100 = 3));
               m = (n + 50) div 32;
               preceding = days_before_month m + (if m > 2 \<and> leap then 1 else 0)
           in if preceding > n
              then (year, m - 1,
                    n - (preceding - (days_in_month (m - 1) + (if m - 1 = 2 \<and> leap then 1 else 0))) + 1)
              else (year, m, n - preceding + 1)))"

definition date_isoformat :: "int \<Rightarrow> string" where
  "date_isoformat day =
     (case civil_of day of (y, m, d) \<Rightarrow>
        pad_nat 4 (nat y) @ ''-'' @ pad_nat 2 (nat m) @ ''-'' @ pad_nat 2 (nat d))"

definition fixed_zone :: "int \<Rightarrow> zone" where
  "fixed_zone off = \<lparr>tz_initial = off, tz_transitions = []\<rparr>"

lemma fixed_zone_simps [simp]:
  "utcoffset_at (fixed_zone off) u = off" "wall_offset (fixed_zone off) f w = off"
  "local_of (fixed_zone off) u = u + off" "utc_of (fixed_zone off) f w = w - off"
  "fold_of (fixed_zone off) u = False"
  by (simp_all add: fixed_zone_def utcoffset_at_def wall_offset_def local_of_def utc_of_def fold_of_def)

section \<open>Round trip through a zone\<close>

text \<open>
  Transitions lie far enough apart that every wall reading of one has passed before the
  next one begins.
\<close>

fun zone_spaced :: "int \<Rightarrow> (int \<times> int) list \<Rightarrow> bool" where
  "zone_spaced p [] = True"
| "zone_spaced p [(t, q)] = True"
| "zone_spaced p ((t, q) # (t', q') # ts) =
     (t < t' \<and> t + max p q \<le> t' + min q q' \<and> zone_spaced q ((t', q') # ts))"

definition wf_zone :: "zone \<Rightarrow> bool" where
  "wf_zone z = zone_spaced (tz_initial z) (tz_transitions z)"

lemma wf_fixed_zone [simp]: "wf_zone (fixed_zone off)"
  by (simp add: wf_zone_def fixed_zone_def)

lemma off_scan_wall_ge:
  "zone_spaced p ((t, q) # ts) \<Longrightarrow> t \<le> u \<Longrightarrow> t + min p q \<le> u + off_scan q ts u"
proof (induction ts arbitrary: p t q)
  case Nil
  then show ?case by auto
next
  case (Cons a ts)
  obtain t' q' where a: "a = (t', q')" by (cases a)
  show ?case
  proof (cases "u < t'")
    case True
    with Cons.prems show ?thesis by (auto simp: a)
  next
    case False
    with Cons.prems have "t' + min q q' \<le> u + off_scan q' ts u"
      by (intro Cons.IH) (auto simp: a)
    with Cons.prems False show ?thesis by (auto simp: a)
  qed
qed

lemma wall_scan_roundtrip:
  assumes "zone_spaced p ts"
    and "f \<Longrightarrow> (case ts of [] \<Rightarrow> True | (t, q) # _ \<Rightarrow> u < t \<longrightarrow> u + p < t + min p q)"
  shows "wall_scan (fold_scan f p ts u) p ts (u + off_scan p ts u) = off_scan p ts u"
  using assms
proof (induction p ts arbitrary: f rule: zone_spaced.induct)
  case (1 p)
  then show ?case by simp
next
  case (2 p t q)
  then show ?case by (cases f) auto
next
  case (3 p t q t' q' ts)
  show ?case
  proof (cases "u < t")
    case True
    with 3 show ?thesis by (cases f) auto
  next
    case False
    let ?f = "u - t < p - q" and ?ts = "(t', q') # ts"
    have spaced: "zone_spaced q ?ts" "t + max p q \<le> t' + min q q'"
      using 3 by auto
    have IH: "wall_scan (fold_scan ?f q ?ts u) q ?ts (u + off_scan q ?ts u) = off_scan q ?ts u"
      by (rule "3.IH") (use spaced in auto)
    have "\<not> u + off_scan q ?ts u < t + (if fold_scan ?f q ?ts u then min p q else max p q)"
    proof (cases "u < t'")
      case True
      with False show ?thesis by auto
    next
      case False
      then have "t' + min q q' \<le> u + off_scan q ?ts u"
        using off_scan_wall_ge [OF spaced(1)] by simp
      with spaced(2) show ?thesis by auto
    qed
    with False IH show ?thesis by simp
  qed
qed

lemma utc_local_roundtrip:
  "wf_zone z \<Longrightarrow> utc_of z (fold_of z u) (local_of z u) = u"
  using wall_scan_roundtrip [of "tz_initial z" "tz_transitions z" False u]
  by (simp add: wf_zone_def utc_of_def fold_of_def local_of_def wall_offset_def utcoffset_at_def)

section \<open>A stretch without a transition\<close>

text \<open>
  \<open>steady z off lo hi\<close>: from \<open>lo\<close> to \<open>hi\<close> the zone keeps the offset \<open>off\<close>, read from
  either side.
\<close>

definition steady :: "zone \<Rightarrow> int \<Rightarrow> int \<Rightarrow> int \<Rightarrow> bool" where
  "steady z off lo hi \<longleftrightarrow>
     (\<forall>u. lo \<le> u \<longrightarrow> u \<le> hi \<longrightarrow> utcoffset_at z u = off \<and> \<not> fold_of z u) \<and>
     (\<forall>w. lo + off \<le> w \<longrightarrow> w \<le> hi + off \<longrightarrow> wall_offset z False w = off)"

lemma steady_fixed [simp]: "steady (fixed_zone off) off lo hi"
  by (simp add: steady_def)

lemma steadyD:
  assumes "steady z off lo hi"
  shows "lo \<le> u \<Longrightarrow> u \<le> hi \<Longrightarrow> local_of z u = u + off"
    and "lo \<le> u \<Longrightarrow> u \<le> hi \<Longrightarrow> utc_of z (fold_of z u) (local_of z u) = u"
    and "lo + off \<le> w \<Longrightarrow> w \<le> hi + off \<Longrightarrow> utc_of z False w = w - off"
  using assms by (auto simp: steady_def local_of_def utc_of_def)

lemma steady_mono: "steady z off lo hi \<Longrightarrow> lo \<le> lo' \<Longrightarrow> hi' \<le> hi \<Longrightarrow> steady z off lo' hi'"
  by (auto simp: steady_def)

lemma day_tod: "w = day_of w * day_us + tod_of w"
  by (simp add: day_of_def tod_of_def)

lemma tod_bounds [simp]: "0 \<le> tod_of w" "tod_of w < day_us"
  by (simp_all add: tod_of_def)

lemma day_of_mono: "a \<le> b \<Longrightarrow> day_of a \<le> day_of b"
  by (simp add: day_of_def zdiv_mono1)

lemma day_of_add_days: "day_of (w + k * day_us) = day_of w + k"
  by (simp add: day_of_def)

end
