(* ===== verification/Schedule_Gate.thy ===== *)
theory Schedule_Gate
  imports Zone_Time
begin

text \<open>
  The capture gate (\<open>capture/schedule.py\<close>): parsing a stored schedule document, deciding
  whether the gate is open at an instant, finding the instant it next flips and listing
  the open stretches of a range.  The zone database (\<open>ZoneInfo(name)\<close>), ISO-8601 parsing
  (\<open>datetime.fromisoformat\<close>) and the sun calculations of the \<open>astral\<close> package are
  parameters, bundled in the record \<open>world\<close>.
\<close>

section \<open>Data\<close>

text \<open>
  \<open>astral_sun\<close> is \<open>astral.sun.sun\<close>: \<open>None\<close> when it raises \<open>ValueError\<close> (no sunrise or
  sunset on that date), otherwise the \<open>sunrise\<close> and \<open>sunset\<close> entries of its result.
\<close>

record world =
  zone_info :: "string \<Rightarrow> zone option"
  iso_datetime :: "string \<Rightarrow> pydt option"
  astral_sun :: "rat \<Rightarrow> rat \<Rightarrow> int \<Rightarrow> zone \<Rightarrow> (int option \<times> int option) option"
  astral_noon :: "rat \<Rightarrow> rat \<Rightarrow> int \<Rightarrow> zone \<Rightarrow> int option"
  astral_elevation :: "rat \<Rightarrow> rat \<Rightarrow> int \<Rightarrow> rat"
  tzfpy_get_tz :: "rat \<Rightarrow> rat \<Rightarrow> string"

type_synonym coords = "rat option \<times> rat option"

record window =
  start_time :: string
  end_time :: string

datatype sun_event = Sunrise | Sunset

record sun_anchor =
  sun_event :: sun_event
  sun_offset_minutes :: int

record schedule =
  sch_enabled :: bool
  sch_timezone :: string
  sch_windows :: "window list"
  sch_sun_window :: "(sun_anchor \<times> sun_anchor) option"
  sch_day_of_week_mask :: int
  sch_start_date :: "int option"
  sch_end_date :: "int option"

definition max_scan_days :: nat where
  "max_scan_days = 400"

definition full_week_mask :: int where
  "full_week_mask = 127"

section \<open>Parsing\<close>

definition parse_hhmm :: "pyval \<Rightarrow> string \<Rightarrow> int res" where
  "parse_hhmm value path =
     (case value of
        VStr s \<Rightarrow>
          (case split_on (CHR '':'') s of
             [a, b] \<Rightarrow>
               (case (py_int a, py_int b) of
                  (Some hour, Some minute) \<Rightarrow>
                    (if 0 \<le> hour \<and> hour \<le> 23 \<and> 0 \<le> minute \<and> minute \<le> 59
                     then Inr (mk_time hour minute)
                     else Inl (ValueError path ''time out of range''))
                | _ \<Rightarrow> Inl (ValueError path ''non-numeric time''))
           | _ \<Rightarrow> Inl (ValueError path ''expected HH:MM''))
      | _ \<Rightarrow> Inl (ValueError path ''expected a HH:MM string''))"

definition parse_aware_datetime :: "world \<Rightarrow> pyval \<Rightarrow> string \<Rightarrow> int res" where
  "parse_aware_datetime wd value path =
     (case value of
        VDatetime d \<Rightarrow> Inr (py_utc d)
      | VStr s \<Rightarrow>
          (case iso_datetime wd s of
             None \<Rightarrow> Inl (ValueError path ''invalid ISO-8601 datetime'')
           | Some d \<Rightarrow> Inr (py_utc d))
      | _ \<Rightarrow> Inl (ValueError path ''expected an ISO-8601 datetime''))"

text \<open>\<open>time.strftime("%H:%M")\<close>.\<close>

definition hhmm_of :: "int \<Rightarrow> string" where
  "hhmm_of t = (let m = nat (t div minute_us) in pad_nat 2 (m div 60) @ '':'' @ pad_nat 2 (m mod 60))"

definition default_schedule :: schedule where
  "default_schedule =
     \<lparr>sch_enabled = True, sch_timezone = ''UTC'', sch_windows = [], sch_sun_window = None,
      sch_day_of_week_mask = full_week_mask, sch_start_date = None, sch_end_date = None\<rparr>"

definition parse_sun_anchor :: "pyval \<Rightarrow> string \<Rightarrow> sun_anchor res" where
  "parse_sun_anchor raw path =
     (case raw of
        VDict d \<Rightarrow>
          (case (if dict_get d ''anchor'' VNone = VStr ''sunrise'' then Some Sunrise
                 else if dict_get d ''anchor'' VNone = VStr ''sunset'' then Some Sunset
                 else None) of
             None \<Rightarrow> Inl (ValueError (path @ ''.anchor'') ''expected sunrise or sunset'')
           | Some ev \<Rightarrow>
               (case dict_get d ''offset_minutes'' (VInt 0) of
                  VInt off \<Rightarrow> Inr \<lparr>sun_event = ev, sun_offset_minutes = off\<rparr>
                | _ \<Rightarrow> Inl (ValueError (path @ ''.offset_minutes'') ''expected an integer'')))
      | _ \<Rightarrow> Inl (ValueError path ''expected an object''))"

definition parse_sun_window :: "pyval \<Rightarrow> (sun_anchor \<times> sun_anchor) option res" where
  "parse_sun_window raw =
     (case raw of
        VNone \<Rightarrow> Inr None
      | VList [a, b] \<Rightarrow>
          rbind (parse_sun_anchor a ''sun_window[0]'') (\<lambda>op.
          rbind (parse_sun_anchor b ''sun_window[1]'') (\<lambda>cl. Inr (Some (op, cl))))
      | _ \<Rightarrow> Inl (ValueError ''sun_window'' ''expected a pair''))"

definition parse_window :: "nat \<times> pyval \<Rightarrow> window res" where
  "parse_window ix_item =
     (case ix_item of (index, item) \<Rightarrow>
        let path = ''windows['' @ show_nat index @ '']'' in
        (case item of
           VDict d \<Rightarrow>
             rbind (parse_hhmm (dict_get d ''start_time'' VNone) (path @ ''.start_time'')) (\<lambda>start.
             rbind (parse_hhmm (dict_get d ''end_time'' VNone) (path @ ''.end_time'')) (\<lambda>stop.
             Inr \<lparr>start_time = hhmm_of start, end_time = hhmm_of stop\<rparr>))
         | _ \<Rightarrow> Inl (ValueError path ''expected an object'')))"

definition parse_windows :: "pyval \<Rightarrow> window list res" where
  "parse_windows raw =
     (case (if py_truth raw then raw else VList []) of
        VList items \<Rightarrow> rmap parse_window (List.enumerate 0 items)
      | _ \<Rightarrow> Inl (ValueError ''windows'' ''expected a list''))"

definition parse_mask :: "pyval \<Rightarrow> int res" where
  "parse_mask raw =
     (case raw of
        VInt m \<Rightarrow>
          (if 0 \<le> m \<and> m \<le> full_week_mask then Inr m
           else Inl (ValueError ''day_of_week_mask'' ''out of range 0..127''))
      | _ \<Rightarrow> Inl (ValueError ''day_of_week_mask'' ''expected an integer''))"

definition parse_bound :: "world \<Rightarrow> (string \<times> pyval) list \<Rightarrow> string \<Rightarrow> int option res" where
  "parse_bound wd raw key =
     (if dict_get raw key VNone = VNone then Inr None
      else rbind (parse_aware_datetime wd (dict_get raw key VNone) key) (\<lambda>t. Inr (Some t)))"

definition parse_timezone :: "world \<Rightarrow> pyval \<Rightarrow> string res" where
  "parse_timezone wd raw =
     (case raw of
        VStr name \<Rightarrow>
          (if zone_info wd name = None then Inl (ValueError ''timezone'' ''unknown timezone'')
           else Inr name)
      | _ \<Rightarrow> Inl (ValueError ''timezone'' ''expected a string''))"

definition parse_schedule :: "world \<Rightarrow> (string \<times> pyval) list option \<Rightarrow> schedule res" where
  "parse_schedule wd raw_opt =
     (case raw_opt of
        None \<Rightarrow> Inr default_schedule
      | Some raw \<Rightarrow>
         if raw = [] then Inr default_schedule
         else
          (let enabled = py_truth (dict_get raw ''enabled'' (VBool True)) in
           rbind (parse_timezone wd (dict_get raw ''timezone'' (VStr ''UTC''))) (\<lambda>tz_name.
           rbind (parse_windows (dict_get raw ''windows'' (VList []))) (\<lambda>windows.
           rbind (parse_sun_window (dict_get raw ''sun_window'' VNone)) (\<lambda>sun_window.
           rbind (parse_mask (dict_get raw ''day_of_week_mask'' (VInt full_week_mask))) (\<lambda>week_mask.
           rbind (parse_bound wd raw ''start_date'') (\<lambda>start_date.
           rbind (parse_bound wd raw ''end_date'') (\<lambda>end_date.
           Inr \<lparr>sch_enabled = enabled, sch_timezone = tz_name, sch_windows = windows,
                sch_sun_window = sun_window, sch_day_of_week_mask = week_mask,
                sch_start_date = start_date, sch_end_date = end_date\<rparr>))))))))"

section \<open>The gate at an instant\<close>

definition schedule_tzinfo :: "world \<Rightarrow> schedule \<Rightarrow> zone res" where
  "schedule_tzinfo wd s =
     (case zone_info wd (sch_timezone s) of
        None \<Rightarrow> Inl (ZoneInfoNotFoundError (sch_timezone s))
      | Some z \<Rightarrow> Inr z)"

definition is_always_open :: "schedule \<Rightarrow> bool" where
  "is_always_open s \<longleftrightarrow>
     \<not> sch_enabled s \<or>
     (sch_windows s = [] \<and> sch_sun_window s = None \<and> sch_day_of_week_mask s = full_week_mask \<and>
      sch_start_date s = None \<and> sch_end_date s = None)"

definition window_contains :: "window \<Rightarrow> int \<Rightarrow> bool res" where
  "window_contains w local_now =
     rbind (parse_hhmm (VStr (start_time w)) ''window.start_time'') (\<lambda>start.
     rbind (parse_hhmm (VStr (end_time w)) ''window.end_time'') (\<lambda>stop.
     let current = tod_of local_now in
     Inr (if start = stop then True
          else if start < stop then start \<le> current \<and> current < stop
          else current \<ge> start \<or> current < stop)))"

definition compute_sun_times :: "world \<Rightarrow> rat \<Rightarrow> rat \<Rightarrow> int \<Rightarrow> zone \<Rightarrow> int option \<times> int option" where
  "compute_sun_times wd lat lon on_date z =
     (case astral_sun wd lat lon on_date z of
        None \<Rightarrow> (None, None)
      | Some (sunrise, sunset) \<Rightarrow> (sunrise, sunset))"

definition compute_solar_noon :: "world \<Rightarrow> rat \<Rightarrow> rat \<Rightarrow> int \<Rightarrow> zone \<Rightarrow> int option" where
  "compute_solar_noon wd lat lon on_date z = astral_noon wd lat lon on_date z"

definition sun_is_up_at_noon :: "world \<Rightarrow> rat \<Rightarrow> rat \<Rightarrow> int \<Rightarrow> zone \<Rightarrow> bool" where
  "sun_is_up_at_noon wd lat lon on_date z =
     (astral_elevation wd lat lon (utc_of z False (on_date * day_us + mk_time 12 0)) > 0)"

definition anchor_instant :: "sun_anchor \<Rightarrow> int \<Rightarrow> int \<Rightarrow> int" where
  "anchor_instant a sunrise_utc sunset_utc =
     (if sun_event a = Sunrise then sunrise_utc else sunset_utc) + sun_offset_minutes a * minute_us"

definition in_sun_window :: "world \<Rightarrow> schedule \<Rightarrow> int \<times> bool \<Rightarrow> coords \<Rightarrow> bool res" where
  "in_sun_window wd s local_now c =
     (case sch_sun_window s of
        None \<Rightarrow> Inr False
      | Some (open_anchor, close_anchor) \<Rightarrow>
         (case c of
            (Some lat, Some lon) \<Rightarrow>
              rbind (schedule_tzinfo wd s) (\<lambda>z.
              let on_date = day_of (fst local_now) in
              (case compute_sun_times wd lat lon on_date z of
                 (Some sunrise, Some sunset) \<Rightarrow>
                   (let open_at = anchor_instant open_anchor sunrise sunset;
                        close_at = anchor_instant close_anchor sunrise sunset;
                        now_utc = utc_of z (snd local_now) (fst local_now)
                    in Inr (if open_at \<le> close_at then open_at \<le> now_utc \<and> now_utc < close_at
                            else now_utc \<ge> open_at \<or> now_utc < close_at))
               | _ \<Rightarrow> Inr (sun_is_up_at_noon wd lat lon on_date z)))
          | _ \<Rightarrow> Inr False))"

text \<open>\<open>(mask >> weekday) & 1\<close> on a non-negative mask.\<close>

definition mask_allows :: "int \<Rightarrow> int \<Rightarrow> bool" where
  "mask_allows m wday = odd (m div 2 ^ nat wday)"

definition is_within_window :: "world \<Rightarrow> schedule \<Rightarrow> coords \<Rightarrow> int \<Rightarrow> bool res" where
  "is_within_window wd s c now =
     (if \<not> sch_enabled s then Inr True
      else if (case sch_start_date s of None \<Rightarrow> False | Some d \<Rightarrow> now < d) then Inr False
      else if (case sch_end_date s of None \<Rightarrow> False | Some d \<Rightarrow> now \<ge> d) then Inr False
      else
       rbind (schedule_tzinfo wd s) (\<lambda>z.
       let local_now = (local_of z now, fold_of z now) in
       if \<not> mask_allows (sch_day_of_week_mask s) (weekday_of (fst local_now)) then Inr False
       else
        (let has_clock = sch_windows s \<noteq> []; has_sun = sch_sun_window s \<noteq> None in
         if \<not> has_clock \<and> \<not> has_sun then Inr True
         else
          rbind (if has_clock then rany (\<lambda>w. window_contains w (fst local_now)) (sch_windows s)
                 else Inr False) (\<lambda>in_clock.
          rbind (if has_sun then in_sun_window wd s local_now c else Inr False) (\<lambda>in_sun.
          Inr (in_clock \<or> in_sun))))))"

section \<open>Scanning for changes\<close>

definition local_wall_to_utc :: "int \<Rightarrow> int \<Rightarrow> zone \<Rightarrow> int" where
  "local_wall_to_utc local_day wall z = utc_of z False (local_day * day_us + wall)"

definition window_candidates :: "int \<Rightarrow> zone \<Rightarrow> window \<Rightarrow> int list res" where
  "window_candidates local_day z w =
     rbind (parse_hhmm (VStr (start_time w)) ''window.start_time'') (\<lambda>start.
     rbind (parse_hhmm (VStr (end_time w)) ''window.end_time'') (\<lambda>stop.
     Inr [local_wall_to_utc local_day start z, local_wall_to_utc local_day stop z]))"

definition sun_candidates :: "world \<Rightarrow> schedule \<Rightarrow> zone \<Rightarrow> coords \<Rightarrow> int \<Rightarrow> int list" where
  "sun_candidates wd s z c local_day =
     (case (sch_sun_window s, c) of
        (Some (a, b), Some lat, Some lon) \<Rightarrow>
          (case compute_sun_times wd lat lon local_day z of
             (Some sunrise, Some sunset) \<Rightarrow>
               [anchor_instant a sunrise sunset, anchor_instant b sunrise sunset]
           | _ \<Rightarrow> [])
      | _ \<Rightarrow> [])"

definition day_candidates :: "world \<Rightarrow> schedule \<Rightarrow> zone \<Rightarrow> coords \<Rightarrow> int \<Rightarrow> int list res" where
  "day_candidates wd s z c local_day =
     rbind (rmap (window_candidates local_day z) (sch_windows s)) (\<lambda>ws.
     Inr (local_wall_to_utc local_day 0 z # concat ws @ sun_candidates wd s z c local_day))"

definition iter_candidates ::
  "world \<Rightarrow> schedule \<Rightarrow> int \<Rightarrow> zone \<Rightarrow> coords \<Rightarrow> nat \<Rightarrow> int list res" where
  "iter_candidates wd s now_utc z c horizon_days =
     (let bounds = (case sch_start_date s of None \<Rightarrow> [] | Some d \<Rightarrow> [d]) @
                   (case sch_end_date s of None \<Rightarrow> [] | Some d \<Rightarrow> [d]);
          local_start_day = day_of (local_of z now_utc);
          horizon = now_utc + int horizon_days * day_us
      in rbind (rmap (\<lambda>k. day_candidates wd s z c (local_start_day + int k)) [0..<horizon_days + 1])
           (\<lambda>days. Inr (sorted_set (filter (\<lambda>t. now_utc < t \<and> t \<le> horizon) (bounds @ concat days)))))"

text \<open>The loop of \<open>next_transition\<close> over its candidates.\<close>

fun scan_flip :: "(int \<Rightarrow> bool res) \<Rightarrow> int \<Rightarrow> bool \<Rightarrow> int list \<Rightarrow> int option res" where
  "scan_flip f now_utc open_now [] = Inr None"
| "scan_flip f now_utc open_now (t # ts) =
     (if t \<le> now_utc then scan_flip f now_utc open_now ts
      else rbind (f t) (\<lambda>state. if state \<noteq> open_now then Inr (Some t)
                                else scan_flip f now_utc open_now ts))"

definition next_transition ::
  "world \<Rightarrow> schedule \<Rightarrow> coords \<Rightarrow> int \<Rightarrow> (bool \<times> int option) res" where
  "next_transition wd s c now =
     rbind (is_within_window wd s c now) (\<lambda>open_now.
     if is_always_open s then Inr (open_now, None)
     else
      rbind (schedule_tzinfo wd s) (\<lambda>z.
      if (case sch_end_date s of None \<Rightarrow> False | Some d \<Rightarrow> now \<ge> d) then Inr (open_now, None)
      else
       rbind (iter_candidates wd s now z c max_scan_days) (\<lambda>cands.
       rbind (scan_flip (is_within_window wd s c) now open_now cands) (\<lambda>nxt.
       Inr (open_now, nxt)))))"

text \<open>The loop of \<open>open_stretches\<close>: the stretches closed so far and the pending start.\<close>

fun stretch_loop ::
  "(int \<Rightarrow> bool res) \<Rightarrow> int list \<Rightarrow> int option \<Rightarrow> (int \<times> int) list \<Rightarrow> ((int \<times> int) list \<times> int option) res" where
  "stretch_loop f [] opened acc = Inr (acc, opened)"
| "stretch_loop f (t # ts) opened acc =
     rbind (f t) (\<lambda>state.
       (case opened of
          None \<Rightarrow> (if state then stretch_loop f ts (Some t) acc else stretch_loop f ts None acc)
        | Some o' \<Rightarrow> (if \<not> state then stretch_loop f ts None (acc @ [(o', t)])
                     else stretch_loop f ts (Some o') acc)))"

definition open_stretches ::
  "world \<Rightarrow> schedule \<Rightarrow> coords \<Rightarrow> int \<Rightarrow> int \<Rightarrow> (int \<times> int) list res" where
  "open_stretches wd s c start_utc end_utc =
     (if end_utc \<le> start_utc then Inr []
      else if is_always_open s then Inr [(start_utc, end_utc)]
      else
       (let span_days = nat ((end_utc - start_utc) div day_us + 1) in
        rbind (schedule_tzinfo wd s) (\<lambda>z.
        rbind (iter_candidates wd s start_utc z c span_days) (\<lambda>cands.
        let edges = filter (\<lambda>t. t < end_utc) cands in
        rbind (stretch_loop (is_within_window wd s c) (start_utc # edges) None []) (\<lambda>r.
        Inr (case r of (stretches, opened) \<Rightarrow>
               (case opened of None \<Rightarrow> stretches | Some o' \<Rightarrow> stretches @ [(o', end_utc)])))))))"


section \<open>Well-formed schedules\<close>

text \<open>The parsed value of a clock string; the field path only matters for the message.\<close>

definition clock_of :: "string \<Rightarrow> int option" where
  "clock_of str = (case parse_hhmm (VStr str) [] of Inr t \<Rightarrow> Some t | Inl _ \<Rightarrow> None)"

definition wf_window :: "window \<Rightarrow> bool" where
  "wf_window w \<longleftrightarrow> clock_of (start_time w) \<noteq> None \<and> clock_of (end_time w) \<noteq> None"

definition wf_schedule :: "world \<Rightarrow> schedule \<Rightarrow> bool" where
  "wf_schedule wd s \<longleftrightarrow>
     zone_info wd (sch_timezone s) \<noteq> None \<and> (\<forall>w\<in>set (sch_windows s). wf_window w) \<and>
     0 \<le> sch_day_of_week_mask s \<and> sch_day_of_week_mask s \<le> full_week_mask"

lemma parse_hhmm_path: "parse_hhmm v p = Inr t \<Longrightarrow> parse_hhmm v q = Inr t"
  by (auto simp: parse_hhmm_def split: pyval.splits list.splits option.splits if_splits)

lemma parse_hhmm_range:
  assumes "parse_hhmm v p = Inr t"
  obtains h m where "0 \<le> h" "h \<le> 23" "0 \<le> m" "m \<le> 59" "t = mk_time h m"
  using assms by (auto simp: parse_hhmm_def split: pyval.splits list.splits option.splits if_splits)

lemma clock_of_parse: "clock_of str = Some t \<Longrightarrow> parse_hhmm (VStr str) p = Inr t"
  by (auto simp: clock_of_def split: sum.splits intro: parse_hhmm_path)

lemma clock_of_range: "clock_of str = Some t \<Longrightarrow> 0 \<le> t \<and> t < day_us"
  by (auto simp: mk_time_def dest!: clock_of_parse [where p = "[]"] elim!: parse_hhmm_range)

lemma clock_of_hhmm_of:
  assumes "0 \<le> h" "h \<le> 23" "0 \<le> m" "m \<le> 59"
  shows "clock_of (hhmm_of (mk_time h m)) = Some (mk_time h m)"
proof -
  have "mk_time h m div minute_us = h * 60 + m" by (simp add: mk_time_def)
  moreover have "nat (h * 60 + m) div 60 = nat h" "nat (h * 60 + m) mod 60 = nat m"
    using assms by (simp_all add: nat_add_distrib nat_mult_distrib)
  ultimately have "hhmm_of (mk_time h m) = pad_nat 2 (nat h) @ CHR '':'' # pad_nat 2 (nat m)"
    by (simp add: hhmm_of_def Let_def)
  moreover have "nat h < 100" "nat m < 100" using assms by auto
  ultimately show ?thesis using assms
    by (simp add: clock_of_def parse_hhmm_def split_on_append split_on_notin pad2_no_colon py_int_pad2)
qed

lemma parse_window_wf: "parse_window ix = Inr w \<Longrightarrow> wf_window w"
  by (auto simp: parse_window_def Let_def wf_window_def clock_of_hhmm_of
      split: prod.splits pyval.splits elim!: parse_hhmm_range)

lemma parse_windows_wf: "parse_windows raw = Inr ws \<Longrightarrow> w \<in> set ws \<Longrightarrow> wf_window w"
  by (auto simp: parse_windows_def in_set_conv_nth split: pyval.splits
      dest!: rmap_InrD intro!: parse_window_wf dest: list_all2_nthD2)

lemma parse_schedule_wf_lemma:
  assumes "parse_schedule wd raw = Inr s" and "zone_info wd ''UTC'' \<noteq> None"
  shows "wf_schedule wd s"
  using assms
  by (auto simp: parse_schedule_def wf_schedule_def default_schedule_def full_week_mask_def
      parse_mask_def parse_timezone_def Let_def intro: parse_windows_wf
      split: option.splits if_splits pyval.splits)

section \<open>The gate as documented\<close>

text \<open>
  The four conditions of the module's \<open>Gate semantics\<close>, written as one formula.
\<close>

definition clock_open :: "window \<Rightarrow> int \<Rightarrow> bool" where
  "clock_open w tod =
     (case (clock_of (start_time w), clock_of (end_time w)) of
        (Some start, Some stop) \<Rightarrow>
          start = stop \<or> start < stop \<and> start \<le> tod \<and> tod < stop \<or>
          stop < start \<and> (start \<le> tod \<or> tod < stop)
      | _ \<Rightarrow> False)"

definition sun_open :: "world \<Rightarrow> zone \<Rightarrow> schedule \<Rightarrow> coords \<Rightarrow> int \<Rightarrow> int \<Rightarrow> bool" where
  "sun_open wd z s c day u =
     (case (sch_sun_window s, c) of
        (Some (a, b), Some lat, Some lon) \<Rightarrow>
          (case compute_sun_times wd lat lon day z of
             (Some sunrise, Some sunset) \<Rightarrow>
               (let op = anchor_instant a sunrise sunset; cl = anchor_instant b sunrise sunset
                in if op \<le> cl then op \<le> u \<and> u < cl else op \<le> u \<or> u < cl)
           | _ \<Rightarrow> sun_is_up_at_noon wd lat lon day z)
      | _ \<Rightarrow> False)"

definition gate_spec :: "world \<Rightarrow> zone \<Rightarrow> schedule \<Rightarrow> coords \<Rightarrow> int \<Rightarrow> bool" where
  "gate_spec wd z s c u \<longleftrightarrow>
     sch_enabled s \<longrightarrow>
       (case sch_start_date s of None \<Rightarrow> True | Some d \<Rightarrow> d \<le> u) \<and>
       (case sch_end_date s of None \<Rightarrow> True | Some d \<Rightarrow> u < d) \<and>
       mask_allows (sch_day_of_week_mask s) (weekday_of (local_of z u)) \<and>
       (sch_windows s = [] \<and> sch_sun_window s = None \<or>
        (\<exists>w\<in>set (sch_windows s). clock_open w (tod_of (local_of z u))) \<or>
        sun_open wd z s c (day_of (local_of z u)) u)"

lemma window_contains_wf:
  "wf_window w \<Longrightarrow> window_contains w lw = Inr (clock_open w (tod_of lw))"
  by (auto simp: wf_window_def window_contains_def clock_open_def Let_def clock_of_parse)

lemma in_sun_window_wf:
  assumes "zone_info wd (sch_timezone s) = Some z"
    and "utc_of z (fold_of z u) (local_of z u) = u"
  shows "in_sun_window wd s (local_of z u, fold_of z u) c =
    Inr (sun_open wd z s c (day_of (local_of z u)) u)"
  using assms
  by (auto simp: in_sun_window_def sun_open_def schedule_tzinfo_def Let_def split: option.splits prod.splits)

lemma is_within_window_gate:
  assumes "wf_schedule wd s" and "zone_info wd (sch_timezone s) = Some z"
    and rt: "utc_of z (fold_of z u) (local_of z u) = u"
  shows "is_within_window wd s c u = Inr (gate_spec wd z s c u)"
proof -
  have clock: "rany (\<lambda>w. window_contains w (local_of z u)) (sch_windows s) =
      Inr (\<exists>w\<in>set (sch_windows s). clock_open w (tod_of (local_of z u)))"
    using assms(1) by (intro rany_Inr window_contains_wf) (auto simp: wf_schedule_def)
  have nosun: "sch_sun_window s = None \<Longrightarrow> \<not> sun_open wd z s c d u" for d
    by (simp add: sun_open_def)
  show ?thesis
    using assms(2) nosun
    by (cases "sch_sun_window s")
      (simp_all add: is_within_window_def gate_spec_def schedule_tzinfo_def Let_def clock
        in_sun_window_wf [OF assms(2) rt] split: option.split)
qed


section \<open>Candidates of a well-formed schedule\<close>

definition window_edges :: "int \<Rightarrow> zone \<Rightarrow> window \<Rightarrow> int list" where
  "window_edges d z w =
     map (\<lambda>t. local_wall_to_utc d t z)
       (case (clock_of (start_time w), clock_of (end_time w)) of
          (Some start, Some stop) \<Rightarrow> [start, stop] | _ \<Rightarrow> [])"

definition day_edges :: "world \<Rightarrow> schedule \<Rightarrow> zone \<Rightarrow> coords \<Rightarrow> int \<Rightarrow> int list" where
  "day_edges wd s z c d =
     local_wall_to_utc d 0 z # concat (map (window_edges d z) (sch_windows s)) @ sun_candidates wd s z c d"

definition bound_edges :: "schedule \<Rightarrow> int list" where
  "bound_edges s =
     (case sch_start_date s of None \<Rightarrow> [] | Some d \<Rightarrow> [d]) @
     (case sch_end_date s of None \<Rightarrow> [] | Some d \<Rightarrow> [d])"

definition gate_edges :: "world \<Rightarrow> schedule \<Rightarrow> zone \<Rightarrow> coords \<Rightarrow> int \<Rightarrow> nat \<Rightarrow> int list" where
  "gate_edges wd s z c now h =
     sorted_set (filter (\<lambda>t. now < t \<and> t \<le> now + int h * day_us)
       (bound_edges s @
        concat (map (\<lambda>k. day_edges wd s z c (day_of (local_of z now) + int k)) [0..<h + 1])))"

lemma iter_candidates_edges:
  assumes "wf_schedule wd s"
  shows "iter_candidates wd s now z c h = Inr (gate_edges wd s z c now h)"
proof -
  have w: "window_candidates d z w = Inr (window_edges d z w)" if "wf_window w" for d w
    using that by (auto simp: window_candidates_def window_edges_def wf_window_def clock_of_parse)
  have "day_candidates wd s z c d = Inr (day_edges wd s z c d)" for d
    using assms by (simp add: day_candidates_def day_edges_def wf_schedule_def w
        rmap_Inr [where g = "window_edges d z"])
  then show ?thesis
    by (simp add: iter_candidates_def Let_def gate_edges_def bound_edges_def
        rmap_Inr [where g = "\<lambda>k. day_edges wd s z c (day_of (local_of z now) + int k)"]
        del: upt_Suc)
qed

text \<open>
  Within one local day, two instants that every edge of that day and every campaign bound
  orders alike see the same gate.
\<close>

lemma clock_open_cong:
  assumes w: "w \<in> set (sch_windows s)"
    and edge: "\<And>t. t \<in> set (day_edges wd s z c d) \<Longrightarrow> (t \<le> a) = (t \<le> b)"
    and a: "d * day_us + ta = a + off" and b: "d * day_us + tb = b + off"
    and utc: "\<And>t. 0 \<le> t \<Longrightarrow> t < day_us \<Longrightarrow> local_wall_to_utc d t z = d * day_us + t - off"
  shows "clock_open w ta = clock_open w tb"
proof (cases "clock_of (start_time w)")
  case None
  then show ?thesis by (simp add: clock_open_def)
next
  case (Some start)
  show ?thesis
  proof (cases "clock_of (end_time w)")
    case None
    then show ?thesis by (simp add: clock_open_def split: option.split)
  next
    case (Some stop)
    note clocks = \<open>clock_of (start_time w) = Some start\<close> Some
    have mem: "local_wall_to_utc d t z \<in> set (day_edges wd s z c d)" if "t \<in> {start, stop}" for t
      using that w clocks by (force simp: day_edges_def window_edges_def)
    have "(t \<le> ta) = (t \<le> tb)" if "t \<in> {start, stop}" for t
    proof -
      have "0 \<le> t" "t < day_us" using that clocks by (auto dest: clock_of_range)
      with mem [OF that] edge utc [of t] have "(d * day_us + t - off \<le> a) = (d * day_us + t - off \<le> b)"
        by auto
      with a b show ?thesis by linarith
    qed
    then have "(start \<le> ta) = (start \<le> tb)" "(stop \<le> ta) = (stop \<le> tb)" by auto
    then show ?thesis by (auto simp: clock_open_def clocks)
  qed
qed

lemma sun_open_cong:
  assumes "\<And>t. t \<in> set (day_edges wd s z c d) \<Longrightarrow> (t \<le> a) = (t \<le> b)"
  shows "sun_open wd z s c d a = sun_open wd z s c d b"
proof -
  have "t \<in> set (sun_candidates wd s z c d) \<Longrightarrow> (t \<le> a) = (t \<le> b)" for t
    using assms by (simp add: day_edges_def)
  then show ?thesis
    by (cases "compute_sun_times wd (the (fst c)) (the (snd c)) d z")
      (fastforce simp: sun_open_def sun_candidates_def Let_def not_le [symmetric]
        split: option.splits prod.splits if_splits)
qed

lemma gate_spec_cong:
  assumes bounds: "\<And>t. t \<in> set (bound_edges s) \<Longrightarrow> (t \<le> a) = (t \<le> b)"
    and edge: "\<And>t. t \<in> set (day_edges wd s z c d) \<Longrightarrow> (t \<le> a) = (t \<le> b)"
    and day: "day_of (a + off) = d" "day_of (b + off) = d"
    and loc: "local_of z a = a + off" "local_of z b = b + off"
    and utc: "\<And>t. 0 \<le> t \<Longrightarrow> t < day_us \<Longrightarrow> local_wall_to_utc d t z = d * day_us + t - off"
  shows "gate_spec wd z s c a = gate_spec wd z s c b"
proof -
  have "clock_open w (tod_of (a + off)) = clock_open w (tod_of (b + off))"
    if "w \<in> set (sch_windows s)" for w
    using that edge day_tod [of "a + off"] day_tod [of "b + off"] utc
    by (intro clock_open_cong [where wd = wd and s = s and z = z and c = c and d = d and off = off])
      (auto simp: day)
  moreover have "sun_open wd z s c d a = sun_open wd z s c d b"
    using edge by (rule sun_open_cong)
  moreover have "(x \<le> a) = (x \<le> b)" if "sch_start_date s = Some x \<or> sch_end_date s = Some x" for x
    using bounds that by (auto simp: bound_edges_def)
  ultimately show ?thesis
    by (auto simp: gate_spec_def loc weekday_of_def day not_le [symmetric] split: option.splits)
qed


lemma gate_edges_sorted: "sorted (gate_edges wd s z c now h)"
  by (simp add: gate_edges_def)

lemma gate_edges_distinct: "distinct (gate_edges wd s z c now h)"
  by (simp add: gate_edges_def)

lemma gate_edges_range:
  "t \<in> set (gate_edges wd s z c now h) \<Longrightarrow> now < t \<and> t \<le> now + int h * day_us"
  by (auto simp: gate_edges_def simp del: upt_Suc)

text \<open>
  Between two consecutive edges the gate is constant, as long as the zone keeps one
  offset over the scanned days.
\<close>

lemma gate_no_edge_no_flip:
  assumes st: "steady z off (now - day_us) (now + (int h + 1) * day_us)"
    and le: "now \<le> a" "a \<le> b" "b \<le> now + int h * day_us"
    and none: "\<forall>t\<in>set (gate_edges wd s z c now h). \<not> (a < t \<and> t \<le> b)"
  shows "gate_spec wd z s c a = gate_spec wd z s c b"
proof -
  define d0 where "d0 = day_of (now + off)"
  have loc: "local_of z u = u + off" if "now - day_us \<le> u" "u \<le> now + (int h + 1) * day_us" for u
    using steadyD(1) [OF st] that by blast
  have same: "(t \<le> a) = (t \<le> b)"
    if "t \<in> set (bound_edges s) \<union> set (day_edges wd s z c (d0 + int k))" "k \<le> h" for t k
  proof -
    have "local_of z now = now + off" by (rule loc) auto
    with that have "now < t \<Longrightarrow> t \<le> now + int h * day_us \<Longrightarrow> t \<in> set (gate_edges wd s z c now h)"
      by (auto simp: gate_edges_def d0_def simp del: upt_Suc)
    with none le show ?thesis by force
  qed
  have inside: "\<exists>k\<le>h. day_of (u + off) = d0 + int k" if "now \<le> u" "u \<le> now + int h * day_us" for u
  proof (rule exI [of _ "nat (day_of (u + off) - d0)"])
    have "d0 \<le> day_of (u + off)" "day_of (u + off) \<le> day_of (now + off + int h * day_us)"
      using that by (auto simp: d0_def intro!: day_of_mono)
    then show "nat (day_of (u + off) - d0) \<le> h \<and> day_of (u + off) = d0 + int (nat (day_of (u + off) - d0))"
      by (simp add: day_of_add_days d0_def)
  qed
  have utc: "local_wall_to_utc (d0 + int k) t z = (d0 + int k) * day_us + t - off"
    if "k \<le> h" "0 \<le> t" "t < day_us" for k t
  proof -
    let ?w = "(d0 + int k) * day_us + t"
    have "now + off = d0 * day_us + tod_of (now + off)" using day_tod [of "now + off"] by (simp add: d0_def)
    then have "now + off - day_us < d0 * day_us" "d0 * day_us \<le> now + off"
      using tod_bounds [of "now + off"] by linarith+
    moreover have "int k * day_us \<le> int h * day_us" using that by simp
    ultimately have "now - day_us + off \<le> ?w" "?w \<le> now + (int h + 1) * day_us + off"
      using that by (auto simp: algebra_simps)
    then show ?thesis using steadyD(3) [OF st] by (simp add: local_wall_to_utc_def)
  qed
  obtain k where k: "k \<le> h" "day_of (b + off) = d0 + int k" using inside [of b] le by auto
  have "day_of (a + off) = d0 + int k"
  proof (rule ccontr)
    assume "day_of (a + off) \<noteq> d0 + int k"
    with k day_of_mono [of "a + off" "b + off"] le have "day_of (a + off) < d0 + int k" by simp
    then have "a + off < (d0 + int k) * day_us"
      using day_tod [of "a + off"] tod_bounds [of "a + off"] by (simp add: day_of_def)
    moreover have "(d0 + int k) * day_us \<le> b + off"
      using k day_tod [of "b + off"] tod_bounds [of "b + off"] by (simp add: day_of_def)
    moreover have "(d0 + int k) * day_us - off \<in> set (day_edges wd s z c (d0 + int k))"
      using utc [of k 0] k by (simp add: day_edges_def)
    ultimately show False using same [of _ k] k by force
  qed
  with k same utc loc le show ?thesis
    by (intro gate_spec_cong [where d = "d0 + int k" and off = off]) auto
qed

end
