(* ===== verification/Gate_Scan.thy ===== *)
theory Gate_Scan
  imports Schedule_Gate
begin

text \<open>
  What the two scans of \<open>capture/schedule.py\<close> promise.  The locale \<open>piecewise_gate\<close> is the
  contract between a gate and the list of its candidate edges; it is interpreted on the
  schedule gate, and the exactness of \<open>next_transition\<close> and of \<open>open_stretches\<close> follows
  from it wherever the zone keeps one offset.  Two closed theorems show what happens where
  it does not.
\<close>

section \<open>Scanning a piecewise constant gate\<close>

text \<open>
  The contract between the scans and the gate: a sorted list of edges after the starting
  instant, and a gate that is constant where no edge lies.  The laws hold for the
  admissible contexts \<open>ok c now h\<close> only.
\<close>

fun segments :: "(int \<Rightarrow> bool) \<Rightarrow> int list \<Rightarrow> int option \<Rightarrow> int \<Rightarrow> (int \<times> int) list" where
  "segments g [] opened e = (case opened of None \<Rightarrow> [] | Some p \<Rightarrow> [(p, e)])"
| "segments g (t # ts) opened e =
     (case opened of
        None \<Rightarrow> segments g ts (if g t then Some t else None) e
      | Some p \<Rightarrow> (if g t then segments g ts (Some p) e else (p, t) # segments g ts None e))"

definition covered :: "(int \<times> int) list \<Rightarrow> int set" where
  "covered xs = {u. \<exists>(a, b)\<in>set xs. a \<le> u \<and> u < b}"

definition separated :: "(int \<times> int) list \<Rightarrow> bool" where
  "separated xs \<longleftrightarrow> (\<forall>(a, b)\<in>set xs. a < b) \<and> sorted_wrt (\<lambda>x y. snd x < fst y) xs"

lemma covered_Cons [simp]: "covered ((a, b) # xs) = {a..<b} \<union> covered xs"
  by (auto simp: covered_def)

lemma covered_Nil [simp]: "covered [] = {}"
  by (simp add: covered_def)

lemma segments_fst:
  "x \<in> set (segments g ts opened e) \<Longrightarrow> fst x \<in> set ts \<or> opened = Some (fst x)"
  by (induction ts arbitrary: opened) (auto split: option.splits if_splits)

lemma segments_separated:
  assumes "sorted_wrt (<) ts" "\<forall>t\<in>set ts. t < e"
    and "\<forall>p. opened = Some p \<longrightarrow> p < e \<and> (\<forall>t\<in>set ts. p < t)"
  shows "separated (segments g ts opened e)"
  using assms
proof (induction ts arbitrary: opened)
  case Nil
  then show ?case by (auto simp: separated_def split: option.split)
next
  case (Cons t ts)
  have rest: "separated (segments g ts o' e)" if "o' \<in> {None, Some t, opened}" for o'
    using that Cons.prems by (intro Cons.IH) auto
  have "\<forall>x\<in>set (segments g ts None e). t < fst x"
    using Cons.prems(1) by (auto dest!: segments_fst)
  with rest Cons.prems show ?case
    by (auto simp: separated_def split: option.split)
qed

text \<open>The first instant of the rest of a scan.\<close>

definition scan_from :: "int list \<Rightarrow> int \<Rightarrow> int" where
  "scan_from ts e = (case ts of [] \<Rightarrow> e | t # _ \<Rightarrow> t)"

lemma segments_covered:
  assumes "sorted_wrt (<) ts" "\<forall>t\<in>set ts. t < e"
    and "\<And>a b. scan_from ts e \<le> a \<Longrightarrow> a \<le> b \<Longrightarrow> b < e \<Longrightarrow>
           \<forall>t\<in>set ts. \<not> (a < t \<and> t \<le> b) \<Longrightarrow> g a = g b"
    and "\<forall>p. opened = Some p \<longrightarrow> p < scan_from ts e"
  shows "covered (segments g ts opened e) =
    (case opened of None \<Rightarrow> {} | Some p \<Rightarrow> {p..<scan_from ts e}) \<union>
    {u. scan_from ts e \<le> u \<and> u < e \<and> g u}"
  using assms
proof (induction ts arbitrary: opened)
  case Nil
  then show ?case by (auto simp: scan_from_def split: option.split)
next
  case (Cons t ts)
  let ?n = "scan_from ts e"
  have n: "t < ?n" "?n \<le> e" "\<forall>x\<in>set ts. ?n \<le> x"
    using Cons.prems(1,2) by (cases ts; auto simp: scan_from_def)+
  have tn: "scan_from (t # ts) e = t" by (simp add: scan_from_def)
  have const: "g t = g u" if "t \<le> u" "u < ?n" for u
    by (rule Cons.prems(3)) (use that n tn in auto)
  have IH: "covered (segments g ts o' e) =
      (case o' of None \<Rightarrow> {} | Some p \<Rightarrow> {p..<?n}) \<union> {u. ?n \<le> u \<and> u < e \<and> g u}"
    if "\<forall>p. o' = Some p \<longrightarrow> p < ?n" for o'
  proof (rule Cons.IH [OF _ _ _ that])
    show "sorted_wrt (<) ts" "\<forall>t\<in>set ts. t < e" using Cons.prems(1,2) by auto
    show "g a = g b" if "?n \<le> a" "a \<le> b" "b < e" "\<forall>t\<in>set ts. \<not> (a < t \<and> t \<le> b)" for a b
      by (rule Cons.prems(3)) (use that n tn in auto)
  qed
  have split: "{u. t \<le> u \<and> u < e \<and> g u} = (if g t then {t..<?n} else {}) \<union> {u. ?n \<le> u \<and> u < e \<and> g u}"
  proof (rule set_eqI)
    fix u
    show "u \<in> {u. t \<le> u \<and> u < e \<and> g u} \<longleftrightarrow>
        u \<in> (if g t then {t..<?n} else {}) \<union> {u. ?n \<le> u \<and> u < e \<and> g u}"
      using const [of u] n(1,2) by (cases "u < ?n"; cases "g t"; cases "t \<le> u"; simp)
  qed
  show ?case
  proof (cases opened)
    case None
    with IH [of "if g t then Some t else None"] n(1) split show ?thesis
      by (cases "g t") (simp_all add: tn)
  next
    case (Some p)
    then have "p < t" using Cons.prems(4) by (simp add: tn)
    then have "{p..<t} \<union> {t..<?n} = {p..<?n}" using n(1) by auto
    with Some \<open>p < t\<close> IH [of "if g t then Some p else None"] n(1) split show ?thesis
      by (cases "g t") (simp_all add: tn Un_assoc [symmetric])
  qed
qed

locale piecewise_gate =
  fixes ok :: "'c \<Rightarrow> int \<Rightarrow> nat \<Rightarrow> bool"
    and open_at :: "'c \<Rightarrow> int \<Rightarrow> bool"
    and edges :: "'c \<Rightarrow> int \<Rightarrow> nat \<Rightarrow> int list"
  assumes edges_sorted: "sorted (edges c now h)"
    and edges_distinct: "distinct (edges c now h)"
    and edges_range: "t \<in> set (edges c now h) \<Longrightarrow> now < t \<and> t \<le> now + int h * day_us"
    and no_edge_no_flip:
      "ok c now h \<Longrightarrow> now \<le> a \<Longrightarrow> a \<le> b \<Longrightarrow> b \<le> now + int h * day_us \<Longrightarrow>
       \<forall>t\<in>set (edges c now h). \<not> (a < t \<and> t \<le> b) \<Longrightarrow> open_at c a = open_at c b"
begin

text \<open>The gate at \<open>u\<close> is the gate at the last edge up to \<open>u\<close>.\<close>

lemma last_edge:
  assumes "ok c now h" "now \<le> u" "u \<le> now + int h * day_us"
  obtains e where "e \<in> insert now (set (edges c now h))" "e \<le> u" "open_at c e = open_at c u"
proof -
  let ?E = "{e \<in> insert now (set (edges c now h)). e \<le> u}"
  define e where "e = Max ?E"
  have fin: "finite ?E" "?E \<noteq> {}" using assms by auto
  then have "e \<in> ?E" unfolding e_def by (rule Max_in)
  moreover have "open_at c e = open_at c u"
  proof (rule no_edge_no_flip [OF assms(1)])
    show "now \<le> e" "e \<le> u" "u \<le> now + int h * day_us"
      using \<open>e \<in> ?E\<close> assms edges_range by force+
    have "t \<le> e" if "t \<in> ?E" for t using fin that by (simp add: e_def)
    then show "\<forall>t\<in>set (edges c now h). \<not> (e < t \<and> t \<le> u)" by force
  qed
  ultimately show thesis using that by auto
qed

lemma first_flip:
  assumes "ok c now h" "List.find (\<lambda>t. open_at c t \<noteq> open_at c now) (edges c now h) = Some t"
  shows "now < t" "open_at c t \<noteq> open_at c now" "\<forall>u. now \<le> u \<longrightarrow> u < t \<longrightarrow> open_at c u = open_at c now"
proof -
  from assms(2) obtain ys zs where split: "edges c now h = ys @ t # zs"
    and flip: "open_at c t \<noteq> open_at c now"
    and before: "\<forall>y\<in>set ys. \<not> open_at c y \<noteq> open_at c now"
    by (rule find_first_split)
  then have "t \<in> set (edges c now h)" by simp
  then have t: "now < t" "t \<le> now + int h * day_us" using edges_range by blast+
  show "now < t" "open_at c t \<noteq> open_at c now" by fact+
  show "\<forall>u. now \<le> u \<longrightarrow> u < t \<longrightarrow> open_at c u = open_at c now"
  proof (intro allI impI)
    fix u assume u: "now \<le> u" "u < t"
    obtain e where e: "e \<in> insert now (set (edges c now h))" "e \<le> u" "open_at c e = open_at c u"
      using last_edge [OF assms(1) u(1)] u t by auto
    have "e = now \<or> e \<in> set ys"
      using e u split edges_sorted [of c now h] by (fastforce simp: sorted_append)
    with before e show "open_at c u = open_at c now" by auto
  qed
qed

lemma no_flip:
  assumes "ok c now h" "List.find (\<lambda>t. open_at c t \<noteq> open_at c now) (edges c now h) = None"
    and "now \<le> u" "u \<le> now + int h * day_us"
  shows "open_at c u = open_at c now"
proof -
  obtain e where "e \<in> insert now (set (edges c now h))" "open_at c e = open_at c u"
    using last_edge [OF assms(1,3,4)] by blast
  with assms(2) show ?thesis by (auto simp: find_None_iff)
qed

lemma stretches:
  assumes "ok c now h" "now < e" "e \<le> now + int h * day_us"
  defines "xs \<equiv> segments (open_at c) (now # filter (\<lambda>t. t < e) (edges c now h)) None e"
  shows "separated xs" and "covered xs = {u. now \<le> u \<and> u < e \<and> open_at c u}"
proof -
  let ?ts = "now # filter (\<lambda>t. t < e) (edges c now h)"
  have "sorted_wrt (<) (edges c now h)"
    by (simp add: strict_sorted_iff edges_sorted edges_distinct)
  then have "sorted_wrt (<) (filter (\<lambda>t. t < e) (edges c now h))"
    by (rule sorted_wrt_filter)
  moreover have "\<forall>t\<in>set (edges c now h). now < t" using edges_range by blast
  ultimately have sorted: "sorted_wrt (<) ?ts" by simp
  have below: "\<forall>t\<in>set ?ts. t < e" using assms(2) by auto
  show "separated xs" unfolding xs_def using sorted below by (rule segments_separated) simp
  have "open_at c a = open_at c b"
    if "scan_from ?ts e \<le> a" "a \<le> b" "b < e" "\<forall>t\<in>set ?ts. \<not> (a < t \<and> t \<le> b)" for a b
    using that assms(3) by (intro no_edge_no_flip [OF assms(1)]) (auto simp: scan_from_def)
  then have "covered xs = {} \<union> {u. scan_from ?ts e \<le> u \<and> u < e \<and> open_at c u}"
    unfolding xs_def by (subst segments_covered [OF sorted below]) auto
  then show "covered xs = {u. now \<le> u \<and> u < e \<and> open_at c u}"
    by (simp add: scan_from_def)
qed

end

section \<open>The schedule gate as a piecewise constant gate\<close>

type_synonym gate_ctx = "world \<times> schedule \<times> coords"

definition gate_ok :: "gate_ctx \<Rightarrow> int \<Rightarrow> nat \<Rightarrow> bool" where
  "gate_ok x now h \<longleftrightarrow> (case x of (wd, s, c) \<Rightarrow>
     \<exists>z off. zone_info wd (sch_timezone s) = Some z \<and>
       steady z off (now - day_us) (now + (int h + 1) * day_us))"

definition gate_at :: "gate_ctx \<Rightarrow> int \<Rightarrow> bool" where
  "gate_at x u = (case x of (wd, s, c) \<Rightarrow> gate_spec wd (the (zone_info wd (sch_timezone s))) s c u)"

definition gate_edges_at :: "gate_ctx \<Rightarrow> int \<Rightarrow> nat \<Rightarrow> int list" where
  "gate_edges_at x now h =
     (case x of (wd, s, c) \<Rightarrow> gate_edges wd s (the (zone_info wd (sch_timezone s))) c now h)"

interpretation sg: piecewise_gate gate_ok gate_at gate_edges_at
proof (unfold_locales, goal_cases)
  case (4 x now h a b)
  obtain wd s c where x: "x = (wd, s, c)" by (cases x)
  obtain z off where z: "zone_info wd (sch_timezone s) = Some z"
    and st: "steady z off (now - day_us) (now + (int h + 1) * day_us)"
    using 4(1) by (auto simp: gate_ok_def x)
  have "gate_spec wd z s c a = gate_spec wd z s c b"
    by (rule gate_no_edge_no_flip [OF st]) (use 4 z in \<open>simp_all add: x gate_edges_at_def\<close>)
  then show ?case by (simp add: x z gate_at_def)
qed (auto simp: gate_edges_at_def gate_edges_sorted gate_edges_distinct
      split: prod.splits dest: gate_edges_range)

lemma scan_flip_find:
  "(\<And>t. t \<in> set ts \<Longrightarrow> now < t \<and> f t = Inr (g t)) \<Longrightarrow>
   scan_flip f now op ts = Inr (List.find (\<lambda>t. g t \<noteq> op) ts)"
proof (induction ts)
  case Nil
  then show ?case by simp
next
  case (Cons t ts)
  from Cons.prems [of t] have "\<not> t \<le> now" "f t = Inr (g t)" by auto
  with Cons show ?case by simp
qed

lemma stretch_loop_segments:
  assumes "\<And>t. t \<in> set ts \<Longrightarrow> f t = Inr (g t)"
  shows "\<exists>xs opened'. stretch_loop f ts opened acc = Inr (xs, opened') \<and>
    xs @ (case opened' of None \<Rightarrow> [] | Some p \<Rightarrow> [(p, e)]) = acc @ segments g ts opened e"
  using assms
proof (induction ts arbitrary: opened acc)
  case Nil
  then show ?case by simp
next
  case (Cons t ts)
  have ft: "f t = Inr (g t)" using Cons.prems by simp
  have IH: "\<exists>xs opened'. stretch_loop f ts opened acc = Inr (xs, opened') \<and>
      xs @ (case opened' of None \<Rightarrow> [] | Some p \<Rightarrow> [(p, e)]) = acc @ segments g ts opened e"
    for opened acc using Cons.prems by (intro Cons.IH) auto
  show ?case
  proof (cases opened)
    case None
    then show ?thesis using IH [of "if g t then Some t else None" acc] by (cases "g t") (auto simp: ft)
  next
    case (Some p)
    then show ?thesis
      using IH [of "if g t then Some p else None" "if g t then acc else acc @ [(p, t)]"]
      by (cases "g t") (auto simp: ft)
  qed
qed

lemma full_week_allows: "mask_allows full_week_mask (weekday_of w)"
proof -
  have "weekday_of w \<in> {0, 1, 2, 3, 4, 5, 6}"
    unfolding weekday_of_def by (simp; presburger)
  then show ?thesis by (auto simp: mask_allows_def full_week_mask_def)
qed

lemma always_open_gate: "is_always_open s \<Longrightarrow> gate_spec wd z s c u"
  by (auto simp: is_always_open_def gate_spec_def full_week_allows)

lemma steady_within:
  assumes "wf_schedule wd s" "zone_info wd (sch_timezone s) = Some z" "steady z off lo hi"
    and "lo \<le> u" "u \<le> hi"
  shows "is_within_window wd s c u = Inr (gate_at (wd, s, c) u)"
  using is_within_window_gate [OF assms(1,2) steadyD(2) [OF assms(3-5)]] assms(2)
  by (simp add: gate_at_def)

lemma next_transition_scan:
  assumes wf: "wf_schedule wd s" and z: "zone_info wd (sch_timezone s) = Some z"
    and st: "steady z off (now - day_us) (now + 401 * day_us)"
    and "\<not> is_always_open s" and "\<not> (\<exists>d. sch_end_date s = Some d \<and> d \<le> now)"
  shows "next_transition wd s c now =
    Inr (gate_at (wd, s, c) now,
         List.find (\<lambda>t. gate_at (wd, s, c) t \<noteq> gate_at (wd, s, c) now)
           (gate_edges_at (wd, s, c) now max_scan_days))"
proof -
  note within = steady_within [OF wf z st]
  let ?es = "gate_edges_at (wd, s, c) now max_scan_days"
  have "now < t \<and> is_within_window wd s c t = Inr (gate_at (wd, s, c) t)" if "t \<in> set ?es" for t
    using sg.edges_range [OF that] by (auto simp: max_scan_days_def intro: within)
  note scan = scan_flip_find [OF this]
  have "is_within_window wd s c now = Inr (gate_at (wd, s, c) now)" by (rule within) auto
  with assms(4,5) scan z show ?thesis
    by (auto simp: next_transition_def schedule_tzinfo_def iter_candidates_edges [OF wf]
        gate_edges_at_def split: option.splits)
qed

text \<open>
  C1.  Over a stretch in which the schedule's zone keeps one UTC offset, the reported next
  change is exact: \<open>next_transition\<close> returns, its first component is the state of the
  gate now, and the gate keeps that state at every instant up to the reported one, where
  it has the opposite state; when no change is reported, the gate keeps its state over
  the whole 400-day horizon.
\<close>

theorem next_transition_exact:
  assumes wf: "wf_schedule wd s" and z: "zone_info wd (sch_timezone s) = Some z"
    and st: "steady z off (now - day_us) (now + 401 * day_us)"
  shows "\<exists>op nxt. next_transition wd s c now = Inr (op, nxt) \<and>
    is_within_window wd s c now = Inr op \<and>
    (case nxt of
       Some t \<Rightarrow> now < t \<and> is_within_window wd s c t = Inr (\<not> op) \<and>
         (\<forall>u. now \<le> u \<and> u < t \<longrightarrow> is_within_window wd s c u = Inr op)
     | None \<Rightarrow> \<forall>u. now \<le> u \<and> u \<le> now + 400 * day_us \<longrightarrow> is_within_window wd s c u = Inr op)"
proof -
  let ?x = "(wd, s, c)"
  note within = steady_within [OF wf z st]
  have now: "is_within_window wd s c now = Inr (gate_at ?x now)" by (rule within) auto
  have ok: "gate_ok ?x now max_scan_days"
    using z st by (auto simp: gate_ok_def max_scan_days_def)
  consider "is_always_open s" | d where "\<not> is_always_open s" "sch_end_date s = Some d" "d \<le> now"
    | "\<not> is_always_open s" "\<not> (\<exists>d. sch_end_date s = Some d \<and> d \<le> now)" by blast
  then show ?thesis
  proof cases
    case 1
    then have "gate_at ?x u" for u by (simp add: gate_at_def always_open_gate)
    moreover have "next_transition wd s c now = Inr (gate_at ?x now, None)"
      by (simp add: next_transition_def now 1)
    ultimately show ?thesis using now within by auto
  next
    case 2
    then have "\<not> gate_at ?x u" if "now \<le> u" for u
      using that by (auto simp: gate_at_def gate_spec_def is_always_open_def)
    moreover have "next_transition wd s c now = Inr (gate_at ?x now, None)"
      using 2 by (simp add: next_transition_def now schedule_tzinfo_def z)
    ultimately show ?thesis using now within by auto
  next
    case 3
    note eq = next_transition_scan [OF wf z st 3]
    show ?thesis
    proof (cases "List.find (\<lambda>t. gate_at ?x t \<noteq> gate_at ?x now) (gate_edges_at ?x now max_scan_days)")
      case None
      have "is_within_window wd s c u = Inr (gate_at ?x now)"
        if "now \<le> u" "u \<le> now + 400 * day_us" for u
        using sg.no_flip [OF ok None that(1)] within [of u] that by (simp add: max_scan_days_def)
      with None eq now show ?thesis
        by (intro exI [of _ "gate_at ?x now"] exI [of _ None]) simp
    next
      case (Some t)
      note flip = sg.first_flip [OF ok Some]
      have "t \<in> set (gate_edges_at ?x now max_scan_days)"
        using Some by (auto simp: find_Some_iff)
      then have t: "t \<le> now + 400 * day_us" using sg.edges_range [of t ?x now max_scan_days]
        by (simp add: max_scan_days_def)
      have seen: "is_within_window wd s c u = Inr (gate_at ?x u)" if "now \<le> u" "u \<le> t" for u
        by (rule within) (use that t in linarith)+
      then have "is_within_window wd s c u = Inr (gate_at ?x now)" if "now \<le> u" "u < t" for u
        using flip(3) [rule_format, OF that] that by simp
      moreover have "is_within_window wd s c t = Inr (\<not> gate_at ?x now)"
        using flip(2) seen [of t] flip(1) by auto
      ultimately show ?thesis using Some eq now flip(1)
        by (intro exI [of _ "gate_at ?x now"] exI [of _ "Some t"]) simp
    qed
  qed
qed

text \<open>A concrete environment for the witnesses: UTC and two zones with one transition each.\<close>

definition sample_world :: world where
  "sample_world =
     \<lparr>zone_info = (\<lambda>n. if n = ''UTC'' then Some (fixed_zone 0)
        else if n = ''Spring'' then Some \<lparr>tz_initial = 0, tz_transitions = [(2 * hour_us, hour_us)]\<rparr>
        else if n = ''Autumn'' then Some \<lparr>tz_initial = hour_us, tz_transitions = [(hour_us, 0)]\<rparr>
        else None),
      iso_datetime = (\<lambda>_. None), astral_sun = (\<lambda>_ _ _ _. None), astral_noon = (\<lambda>_ _ _ _. None),
      astral_elevation = (\<lambda>_ _ _. 0), tzfpy_get_tz = (\<lambda>_ _. ''UTC'')\<rparr>"

definition sample_schedule :: "string \<Rightarrow> string \<Rightarrow> string \<Rightarrow> schedule" where
  "sample_schedule tz a b =
     default_schedule\<lparr>sch_timezone := tz, sch_windows := [\<lparr>start_time = a, end_time = b\<rparr>]\<rparr>"

lemma sample_schedule_wf: "wf_schedule sample_world (sample_schedule ''UTC'' ''22:00'' ''02:00'')"
proof -
  have "clock_of ''22:00'' = Some (22 * hour_us)" "clock_of ''02:00'' = Some (2 * hour_us)"
    by code_simp+
  then show ?thesis
    by (simp add: wf_schedule_def wf_window_def sample_world_def sample_schedule_def
        default_schedule_def full_week_mask_def)
qed

lemma sample_zone: "zone_info sample_world (sch_timezone (sample_schedule ''UTC'' a b)) = Some (fixed_zone 0)"
  by (simp add: sample_world_def sample_schedule_def)

theorem next_transition_exact_witness:
  "\<exists>op nxt. next_transition sample_world (sample_schedule ''UTC'' ''22:00'' ''02:00'') (None, None) 0 =
     Inr (op, nxt)"
  using next_transition_exact [OF sample_schedule_wf sample_zone steady_fixed, of "(None, None)" 0]
  by blast

text \<open>
  C2.  Under the same condition, \<open>open_stretches\<close> lists exactly the open part of the range:
  an instant of \<open>[start, end)\<close> lies in one of the returned stretches if and only if the
  gate is open there; the stretches are non-empty, in order, and separated by closed time.
\<close>

theorem open_stretches_exact:
  assumes wf: "wf_schedule wd s" and z: "zone_info wd (sch_timezone s) = Some z"
    and st: "steady z off (start - day_us) (stop + 2 * day_us)"
  shows "\<exists>xs. open_stretches wd s c start stop = Inr xs \<and> separated xs \<and>
    (\<forall>u. u \<in> covered xs \<longleftrightarrow> start \<le> u \<and> u < stop \<and> is_within_window wd s c u = Inr True)"
proof (cases "stop \<le> start")
  case True
  then show ?thesis by (auto simp: open_stretches_def separated_def)
next
  case False
  let ?x = "(wd, s, c)"
  have within: "is_within_window wd s c u = Inr (gate_at ?x u)" if "start \<le> u" "u \<le> stop" for u
    by (rule steady_within [OF wf z st]) (use that in linarith)+
  show ?thesis
  proof (cases "is_always_open s")
    case True
    then have "gate_at ?x u" for u by (simp add: gate_at_def always_open_gate)
    with True False within show ?thesis
      by (auto simp: open_stretches_def separated_def)
  next
    case ao: False
    define h where "h = nat ((stop - start) div day_us + 1)"
    let ?es = "filter (\<lambda>t. t < stop) (gate_edges_at ?x start h)"
    let ?xs = "segments (gate_at ?x) (start # ?es) None stop"
    have h: "int h = (stop - start) div day_us + 1"
      using False by (simp add: h_def pos_imp_zdiv_nonneg_iff)
    define q where "q = (stop - start) div day_us"
    have "q * day_us \<le> stop - start" "stop - start < (q + 1) * day_us"
      by (simp_all add: q_def)
    then have hi: "stop \<le> start + int h * day_us" "start + (int h + 1) * day_us \<le> stop + 2 * day_us"
      by (simp_all add: h q_def [symmetric])
    have ok: "gate_ok ?x start h"
      using z steady_mono [OF st _ hi(2)] by (auto simp: gate_ok_def)
    have "is_within_window wd s c t = Inr (gate_at ?x t)" if "t \<in> set (start # ?es)" for t
      by (rule within) (use that False sg.edges_range [of t ?x start h] in auto)
    then have "\<exists>ys opened'. stretch_loop (is_within_window wd s c) (start # ?es) None [] = Inr (ys, opened') \<and>
        ys @ (case opened' of None \<Rightarrow> [] | Some p \<Rightarrow> [(p, stop)]) = [] @ ?xs"
      by (rule stretch_loop_segments)
    then obtain ys opened' where
      loop: "stretch_loop (is_within_window wd s c) (start # ?es) None [] = Inr (ys, opened')"
      and ys: "ys @ (case opened' of None \<Rightarrow> [] | Some p \<Rightarrow> [(p, stop)]) = ?xs"
      by (metis append_Nil)
    have "(case opened' of None \<Rightarrow> ys | Some p \<Rightarrow> ys @ [(p, stop)]) = ?xs"
      using ys by (simp split: option.splits)
    then have "open_stretches wd s c start stop = Inr ?xs"
      using False ao z loop
      by (simp add: open_stretches_def Let_def schedule_tzinfo_def iter_candidates_edges [OF wf]
          gate_edges_at_def h_def [symmetric] del: stretch_loop.simps segments.simps)
    moreover have "separated ?xs" "covered ?xs = {u. start \<le> u \<and> u < stop \<and> gate_at ?x u}"
      using sg.stretches [OF ok _ hi(1)] False by simp_all
    ultimately show ?thesis using within by (intro exI [of _ ?xs]) auto
  qed
qed

theorem open_stretches_exact_witness:
  "\<exists>xs. open_stretches sample_world (sample_schedule ''UTC'' ''22:00'' ''02:00'') (None, None) 0 day_us =
     Inr xs \<and> separated xs"
  using open_stretches_exact [OF sample_schedule_wf sample_zone steady_fixed, of "(None, None)" 0 day_us]
  by blast



text \<open>
  C4.  Whatever \<open>parse_schedule\<close> accepts is well formed: its zone is known, every window
  holds two clock times that parse again, and the weekday mask is one of 0 to 127; so the
  evaluators never raise on it.
\<close>

theorem parse_schedule_wf:
  assumes "parse_schedule wd raw = Inr s" and "zone_info wd ''UTC'' \<noteq> None"
  shows "wf_schedule wd s"
  using assms by (rule parse_schedule_wf_lemma)

theorem parse_schedule_wf_witness:
  "\<exists>s. parse_schedule sample_world
      (Some [(''windows'', VList [VDict [(''start_time'', VStr ''6:5''), (''end_time'', VStr ''18:00'')]])]) =
      Inr s \<and> sch_windows s = [\<lparr>start_time = ''06:05'', end_time = ''18:00''\<rparr>] \<and> wf_schedule sample_world s"
proof -
  let ?raw = "Some [(''windows'', VList [VDict [(''start_time'', VStr ''6:5''), (''end_time'', VStr ''18:00'')]])]"
  have p: "parse_schedule sample_world ?raw = Inr (sample_schedule ''UTC'' ''06:05'' ''18:00'')"
    by code_simp
  moreover have "zone_info sample_world ''UTC'' \<noteq> None" by (simp add: sample_world_def)
  ultimately show ?thesis
    using parse_schedule_wf [OF p] by (simp add: sample_schedule_def)
qed

text \<open>
  Where the zone does change its offset, the scans can be wrong, contrary to the
  docstring of \<open>next_transition\<close> (``correct across daylight-saving changes'').  Spring
  forward: the clocks jump from 02:00 to 03:00 and a 02:30--04:00 window is open from the
  jump on, but the stretch is reported half an hour late.  Autumn: 01:00 to 02:00 happens
  twice and a 01:15--01:45 window opens twice, but only the first opening is reported.
\<close>

theorem open_stretches_dst_gap:
  "open_stretches sample_world (sample_schedule ''Spring'' ''02:30'' ''04:00'') (None, None) hour_us (5 * hour_us) =
     Inr [(150 * minute_us, 180 * minute_us)] \<and>
   is_within_window sample_world (sample_schedule ''Spring'' ''02:30'' ''04:00'') (None, None) (120 * minute_us) =
     Inr True \<and>
   open_stretches sample_world (sample_schedule ''Autumn'' ''01:15'' ''01:45'') (None, None) 0 (5 * hour_us) =
     Inr [(15 * minute_us, 45 * minute_us)] \<and>
   is_within_window sample_world (sample_schedule ''Autumn'' ''01:15'' ''01:45'') (None, None) (80 * minute_us) =
     Inr True"
  by (intro conjI) code_simp+

end
