(* ===== verification/Geo.thy ===== *)
theory Geo
  imports Schedule_Gate
begin

text \<open>
  Coordinates of a camera (\<open>capture/geo.py\<close>): their range, the zone they lie in and the
  check shown to the operator.  The lookup \<open>tzfpy.get_tz\<close> is a parameter of the world.
\<close>

definition in_range :: "rat \<Rightarrow> rat \<Rightarrow> bool" where
  "in_range latitude longitude \<longleftrightarrow>
     - 90 \<le> latitude \<and> latitude \<le> 90 \<and> - 180 \<le> longitude \<and> longitude \<le> 180"

definition resolve_timezone :: "world \<Rightarrow> coords \<Rightarrow> string option" where
  "resolve_timezone wd c =
     (case c of
        (Some latitude, Some longitude) \<Rightarrow>
          (if \<not> in_range latitude longitude then None else Some (tzfpy_get_tz wd longitude latitude))
      | _ \<Rightarrow> None)"

definition resolve_zoneinfo :: "world \<Rightarrow> coords \<Rightarrow> zone option" where
  "resolve_zoneinfo wd c =
     (case resolve_timezone wd c of None \<Rightarrow> None | Some name \<Rightarrow> zone_info wd name)"

datatype coord_code = Code_ok | Code_missing | Code_out_of_range | Code_suspect_null_island | Code_approximate

record coordinate_check =
  cc_ok :: bool
  cc_code :: coord_code
  cc_timezone :: "string option"
  cc_approximate :: bool

text \<open>The operator-facing message is left out; it is a function of the code and the zone.\<close>

definition validate_coordinates :: "world \<Rightarrow> coords \<Rightarrow> coordinate_check" where
  "validate_coordinates wd c =
     (case c of
        (Some latitude, Some longitude) \<Rightarrow>
          if \<not> in_range latitude longitude
          then \<lparr>cc_ok = False, cc_code = Code_out_of_range, cc_timezone = None, cc_approximate = False\<rparr>
          else
           (case resolve_timezone wd c of
              None \<Rightarrow> \<lparr>cc_ok = False, cc_code = Code_out_of_range, cc_timezone = None, cc_approximate = False\<rparr>
            | Some tz \<Rightarrow>
               (let approximate = take 4 tz = ''Etc/'' in
                if latitude = 0 \<and> longitude = 0
                then \<lparr>cc_ok = True, cc_code = Code_suspect_null_island, cc_timezone = Some tz,
                      cc_approximate = approximate\<rparr>
                else if approximate
                then \<lparr>cc_ok = True, cc_code = Code_approximate, cc_timezone = Some tz, cc_approximate = True\<rparr>
                else \<lparr>cc_ok = True, cc_code = Code_ok, cc_timezone = Some tz, cc_approximate = False\<rparr>))
      | _ \<Rightarrow> \<lparr>cc_ok = False, cc_code = Code_missing, cc_timezone = None, cc_approximate = False\<rparr>)"

text \<open>The check accepts exactly the coordinates for which a zone name is resolved.\<close>

lemma validate_ok_iff: "cc_ok (validate_coordinates wd c) \<longleftrightarrow> resolve_timezone wd c \<noteq> None"
  by (auto simp: validate_coordinates_def resolve_timezone_def Let_def split: option.splits prod.splits)

end
