(* ===== verification/Anchors.thy ===== *)
theory Anchors
  imports Geo
begin

text \<open>
  Exact-time capture anchors (\<open>capture/anchors.py\<close>): parsing and serialising the stored
  list, the instant an anchor fires on a local date, which anchors are due, the earliest
  wake-up, and the delay before a retry.  \<open>uuid4().hex\<close> is a parameter: the value drawn
  for the list item at an index.
\<close>

section \<open>Constants and data\<close>

definition exact_time_grace :: int where "exact_time_grace = 30 * minute_us"
definition anchor_retry_base :: int where "anchor_retry_base = 15 * second_us"
definition anchor_max_attempts :: int where "anchor_max_attempts = 7"
definition anchor_auth_max_attempts :: int where "anchor_auth_max_attempts = 2"
definition anchor_retry_grace_margin :: int where "anchor_retry_grace_margin = 30 * second_us"
definition max_offset_minutes :: int where "max_offset_minutes = 12 * 60"

datatype anchor_kind = Kind_clock | Kind_solar_noon | Kind_sunrise | Kind_sunset

definition is_solar :: "anchor_kind \<Rightarrow> bool" where
  "is_solar k \<longleftrightarrow> k \<in> {Kind_solar_noon, Kind_sunrise, Kind_sunset}"

record anchor =
  anc_id :: string
  anc_kind :: anchor_kind
  anc_time :: "string option"
  anc_offset_minutes :: int
  anc_enabled :: bool

record anchor_decision =
  dec_anchor :: anchor
  dec_local_date :: string
  dec_instant :: "int option"
  dec_within_grace :: bool
  dec_has_geo :: bool

section \<open>Parsing and serialising\<close>

definition kind_str :: "anchor_kind \<Rightarrow> string" where
  "kind_str k = (case k of Kind_clock \<Rightarrow> ''clock'' | Kind_solar_noon \<Rightarrow> ''solar_noon''
                 | Kind_sunrise \<Rightarrow> ''sunrise'' | Kind_sunset \<Rightarrow> ''sunset'')"

definition kind_of_val :: "pyval \<Rightarrow> anchor_kind option" where
  "kind_of_val v = List.find (\<lambda>k. v = VStr (kind_str k)) [Kind_clock, Kind_solar_noon, Kind_sunrise, Kind_sunset]"

definition parse_offset :: "pyval \<Rightarrow> string \<Rightarrow> int res" where
  "parse_offset value path =
     (if value = VNone \<or> value = VStr [] then Inr 0
      else
       rbind (case value of
                VInt v \<Rightarrow> Inr v
              | VStr str \<Rightarrow> (case py_int (py_strip str) of
                             None \<Rightarrow> Inl (ValueError path ''expected an integer'')
                           | Some v \<Rightarrow> Inr v)
              | _ \<Rightarrow> Inl (ValueError path ''expected an integer'')) (\<lambda>offset.
       if - max_offset_minutes \<le> offset \<and> offset \<le> max_offset_minutes then Inr offset
       else Inl (ValueError path ''offset out of range'')))"

definition anchor_parse_hhmm :: "pyval \<Rightarrow> string \<Rightarrow> string res" where
  "anchor_parse_hhmm value path =
     (case value of
        VStr str \<Rightarrow>
          (case split_on (CHR '':'') str of
             [a, b] \<Rightarrow>
               (case (py_int a, py_int b) of
                  (Some hour, Some minute) \<Rightarrow>
                    (if 0 \<le> hour \<and> hour \<le> 23 \<and> 0 \<le> minute \<and> minute \<le> 59
                     then Inr (pad_nat 2 (nat hour) @ '':'' @ pad_nat 2 (nat minute))
                     else Inl (ValueError path ''time out of range''))
                | _ \<Rightarrow> Inl (ValueError path ''non-numeric time''))
           | _ \<Rightarrow> Inl (ValueError path ''expected HH:MM''))
      | _ \<Rightarrow> Inl (ValueError path ''expected a HH:MM string''))"

definition parse_anchor_id :: "string \<Rightarrow> pyval \<Rightarrow> string" where
  "parse_anchor_id uuid raw_id =
     (case raw_id of
        VStr str \<Rightarrow> (if py_strip str \<noteq> [] then py_strip str else uuid)
      | _ \<Rightarrow> uuid)"

definition parse_anchor :: "(nat \<Rightarrow> string) \<Rightarrow> nat \<times> pyval \<Rightarrow> anchor res" where
  "parse_anchor uuid ix_item =
     (case ix_item of (index, item) \<Rightarrow>
        let path = ''anchors['' @ show_nat index @ '']'' in
        (case item of
           VDict d \<Rightarrow>
             (case kind_of_val (dict_get d ''kind'' VNone) of
                None \<Rightarrow> Inl (ValueError (path @ ''.kind'') ''expected one of the valid kinds'')
              | Some kind \<Rightarrow>
                 rbind (if kind = Kind_clock
                        then rbind (anchor_parse_hhmm (dict_get d ''time'' VNone) (path @ ''.time''))
                               (\<lambda>t. Inr (Some t))
                        else Inr None) (\<lambda>clock_time.
                 rbind (parse_offset (dict_get d ''offset_minutes'' VNone) (path @ ''.offset_minutes'')) (\<lambda>offset.
                 Inr \<lparr>anc_id = parse_anchor_id (uuid index) (dict_get d ''id'' VNone), anc_kind = kind,
                      anc_time = clock_time, anc_offset_minutes = offset,
                      anc_enabled = py_truth (dict_get d ''enabled'' (VBool True))\<rparr>)))
         | _ \<Rightarrow> Inl (ValueError path ''expected an object'')))"

definition parse_anchors :: "(nat \<Rightarrow> string) \<Rightarrow> pyval \<Rightarrow> anchor list res" where
  "parse_anchors uuid raw =
     (if \<not> py_truth raw then Inr []
      else (case raw of
              VList items \<Rightarrow> rmap (parse_anchor uuid) (List.enumerate 0 items)
            | _ \<Rightarrow> Inl (ValueError ''anchors'' ''expected a list'')))"

definition serialize_anchor :: "anchor \<Rightarrow> pyval" where
  "serialize_anchor a =
     VDict [(''id'', VStr (anc_id a)), (''kind'', VStr (kind_str (anc_kind a))),
            (''time'', case anc_time a of None \<Rightarrow> VNone | Some t \<Rightarrow> VStr t),
            (''offset_minutes'', VInt (anc_offset_minutes a)), (''enabled'', VBool (anc_enabled a))]"

section \<open>The fire instant\<close>

text \<open>
  Wall readings built by \<open>datetime.combine\<close> and by adding a \<open>timedelta\<close> have fold 0.
  \<open>hhmm.split(":")\<close> on the normalised string always yields two parts.
\<close>

definition clock_fire_local :: "anchor \<Rightarrow> int \<Rightarrow> int res" where
  "clock_fire_local a on_date =
     (case anc_time a of
        None \<Rightarrow> Inl AssertionError
      | Some str \<Rightarrow>
         rbind (anchor_parse_hhmm (VStr str) ''anchor.time'') (\<lambda>hhmm.
         (case map py_int (split_on (CHR '':'') hhmm) of
            [Some hour, Some minute] \<Rightarrow>
              Inr (on_date * day_us + mk_time hour minute + anc_offset_minutes a * minute_us)
          | _ \<Rightarrow> Inl (ValueError ''anchor.time'' ''non-numeric time''))))"

definition wall_time_exists :: "int \<Rightarrow> zone \<Rightarrow> bool" where
  "wall_time_exists w z \<longleftrightarrow> w = local_of z (utc_of z False w)"

function bisect :: "(int \<Rightarrow> bool) \<Rightarrow> int \<Rightarrow> int \<Rightarrow> int" where
  "bisect post lo hi =
     (if hi - lo > 1
      then (let mid = (lo + hi) div 2 in
            if post mid then bisect post lo mid else bisect post mid hi)
      else hi)"
  by pat_completeness auto
termination
  by (relation "measure (\<lambda>(post, lo, hi). nat (hi - lo))") auto

declare bisect.simps [simp del]

text \<open>\<open>int(instant.timestamp())\<close> truncates towards zero.\<close>

definition posix_seconds :: "int \<Rightarrow> int" where
  "posix_seconds u = (if 0 \<le> u then u div second_us else - ((- u) div second_us))"

definition first_valid_instant_after_gap :: "int \<Rightarrow> zone \<Rightarrow> int" where
  "first_valid_instant_after_gap w z =
     (let before = utc_of z True w; after = utc_of z False w;
          post_offset = utcoffset_at z after;
          lo = posix_seconds before; hi = posix_seconds after
      in bisect (\<lambda>m. utcoffset_at z (m * second_us) = post_offset) lo hi * second_us)"

definition anchor_fire_instant ::
  "world \<Rightarrow> anchor \<Rightarrow> int \<Rightarrow> zone \<Rightarrow> coords \<Rightarrow> int option res" where
  "anchor_fire_instant wd a on_date z c =
     (if anc_kind a = Kind_clock
      then rbind (clock_fire_local a on_date) (\<lambda>w.
           Inr (Some (if \<not> wall_time_exists w z
                      then (let u = first_valid_instant_after_gap w z
                            in utc_of z (fold_of z u) (local_of z u))
                      else utc_of z False w)))
      else
       (case c of
          (Some latitude, Some longitude) \<Rightarrow>
            (let event_utc =
                   (if anc_kind a = Kind_solar_noon then compute_solar_noon wd latitude longitude on_date z
                    else (case compute_sun_times wd latitude longitude on_date z of
                            (sunrise, sunset) \<Rightarrow> if anc_kind a = Kind_sunrise then sunrise else sunset))
             in Inr (case event_utc of None \<Rightarrow> None
                     | Some t \<Rightarrow> Some (t + anc_offset_minutes a * minute_us)))
        | _ \<Rightarrow> Inr None))"

definition clock_anchor_in_dst_gap :: "anchor \<Rightarrow> int \<Rightarrow> zone \<Rightarrow> bool res" where
  "clock_anchor_in_dst_gap a on_date z =
     (if anc_kind a \<noteq> Kind_clock \<or> anc_time a = None then Inr False
      else rbind (clock_fire_local a on_date) (\<lambda>w. Inr (\<not> wall_time_exists w z)))"

section \<open>Due anchors and wake-ups\<close>

definition effective_tz :: "anchor \<Rightarrow> zone \<Rightarrow> zone option \<Rightarrow> zone" where
  "effective_tz a z solar_tz =
     (case solar_tz of Some sz \<Rightarrow> (if is_solar (anc_kind a) then sz else z) | None \<Rightarrow> z)"

definition local_date_of :: "int \<Rightarrow> zone \<Rightarrow> int" where
  "local_date_of now z = day_of (local_of z now)"

definition local_date_str :: "int \<Rightarrow> string" where
  "local_date_str day = date_isoformat day"

text \<open>The inner loop of \<open>due_anchors\<close>: the latest instant not after \<open>now\<close> and its base date.\<close>

fun due_scan :: "(int \<Rightarrow> int option res) \<Rightarrow> int \<Rightarrow> int list \<Rightarrow> (int \<times> int) option \<Rightarrow> (int \<times> int) option res" where
  "due_scan fire now [] best = Inr best"
| "due_scan fire now (base # bases) best =
     rbind (fire base) (\<lambda>instant.
     (case instant of
        None \<Rightarrow> due_scan fire now bases best
      | Some t \<Rightarrow>
         (if t > now then due_scan fire now bases best
          else due_scan fire now bases
                 (case best of None \<Rightarrow> Some (t, base)
                  | Some (b, _) \<Rightarrow> if t > b then Some (t, base) else best))))"

definition due_anchor ::
  "world \<Rightarrow> int \<Rightarrow> zone \<Rightarrow> coords \<Rightarrow> int \<Rightarrow> zone option \<Rightarrow> anchor \<Rightarrow> anchor_decision list res" where
  "due_anchor wd now z c grace solar_tz a =
     (if \<not> anc_enabled a then Inr []
      else
       (let eff_tz = effective_tz a z solar_tz; today = local_date_of now eff_tz in
        if is_solar (anc_kind a) \<and> (fst c = None \<or> snd c = None)
        then Inr [\<lparr>dec_anchor = a, dec_local_date = local_date_str today, dec_instant = None,
                   dec_within_grace = False, dec_has_geo = False\<rparr>]
        else
         rbind (due_scan (\<lambda>base. anchor_fire_instant wd a base eff_tz c) now
                  [today + 1, today, today - 1] None) (\<lambda>due.
         Inr (case due of
                None \<Rightarrow> []
              | Some (due_instant, due_base) \<Rightarrow>
                 [\<lparr>dec_anchor = a, dec_local_date = local_date_str due_base,
                   dec_instant = Some due_instant, dec_within_grace = now \<le> due_instant + grace,
                   dec_has_geo = True\<rparr>]))))"

definition due_anchors ::
  "world \<Rightarrow> anchor list \<Rightarrow> int \<Rightarrow> zone \<Rightarrow> coords \<Rightarrow> int \<Rightarrow> zone option \<Rightarrow> anchor_decision list res" where
  "due_anchors wd anchors now z c grace solar_tz =
     rbind (rmap (due_anchor wd now z c grace solar_tz) anchors) (\<lambda>ds. Inr (concat ds))"

definition anchor_retry_delay :: "int \<Rightarrow> int \<Rightarrow> bool \<Rightarrow> int option" where
  "anchor_retry_delay attempts remaining auth =
     (let limit = (if auth then anchor_auth_max_attempts else anchor_max_attempts) in
      if attempts < 1 \<or> attempts \<ge> limit then None
      else
       (let delay = anchor_retry_base * 2 ^ nat (attempts - 1) in
        if delay > remaining - anchor_retry_grace_margin then None else Some delay))"

text \<open>The loop keeping the soonest instant after \<open>now\<close>.\<close>

fun wake_scan :: "(int \<Rightarrow> int option res) \<Rightarrow> int \<Rightarrow> int list \<Rightarrow> int option \<Rightarrow> int option res" where
  "wake_scan fire now [] soonest = Inr soonest"
| "wake_scan fire now (base # bases) soonest =
     rbind (fire base) (\<lambda>instant.
     wake_scan fire now bases
       (case instant of
          None \<Rightarrow> soonest
        | Some t \<Rightarrow> if t \<le> now then soonest
                    else (case soonest of None \<Rightarrow> Some t | Some u \<Rightarrow> if t < u then Some t else soonest)))"

fun next_anchor_wake_from ::
  "world \<Rightarrow> anchor list \<Rightarrow> int \<Rightarrow> zone \<Rightarrow> coords \<Rightarrow> zone option \<Rightarrow> int option \<Rightarrow> int option res" where
  "next_anchor_wake_from wd [] now z c solar_tz soonest = Inr soonest"
| "next_anchor_wake_from wd (a # as) now z c solar_tz soonest =
     (if \<not> anc_enabled a then next_anchor_wake_from wd as now z c solar_tz soonest
      else
       (let eff_tz = effective_tz a z solar_tz; today = local_date_of now eff_tz in
        rbind (wake_scan (\<lambda>base. anchor_fire_instant wd a base eff_tz c) now
                 [today - 1, today, today + 1] soonest) (\<lambda>soonest'.
        next_anchor_wake_from wd as now z c solar_tz soonest')))"

definition next_anchor_wake ::
  "world \<Rightarrow> anchor list \<Rightarrow> int \<Rightarrow> zone \<Rightarrow> coords \<Rightarrow> zone option \<Rightarrow> int option res" where
  "next_anchor_wake wd anchors now z c solar_tz = next_anchor_wake_from wd anchors now z c solar_tz None"

definition next_solar_capture_instant :: "world \<Rightarrow> anchor \<Rightarrow> int \<Rightarrow> coords \<Rightarrow> int option res" where
  "next_solar_capture_instant wd a now c =
     (if \<not> is_solar (anc_kind a) \<or> \<not> anc_enabled a then Inr None
      else
       (case resolve_zoneinfo wd c of
          None \<Rightarrow> Inr None
        | Some z \<Rightarrow>
           (let today = local_date_of now z in
            wake_scan (\<lambda>base. anchor_fire_instant wd a base z c) now [today - 1, today, today + 1] None)))"

end
