(* ===== verification/Anchor_Fire.thy ===== *)
theory Anchor_Fire
  imports Anchors Gate_Scan
begin

text \<open>
  What the anchor arithmetic promises: the stored form survives a round trip, a clock
  anchor in a spring gap fires at the transition, every fire instant within the grace
  window yields its decision, and the wake-up is the earliest fire instant ahead.
\<close>

section \<open>The stored form\<close>

lemma dropWhile_rev_strip:
  "dropWhile P (rev (dropWhile P (rev (dropWhile P s)))) = rev (dropWhile P (rev (dropWhile P s)))"
proof (cases "dropWhile P s")
  case Nil
  then show ?thesis by (simp del: dropWhile_eq_Nil_conv)
next
  case (Cons y ys)
  then have "\<not> P y" by (metis hd_dropWhile list.distinct(1) list.sel(1))
  then have "dropWhile P (rev ys @ [y]) = dropWhile P (rev ys) @ [y]"
    by (simp add: dropWhile_append3)
  with Cons \<open>\<not> P y\<close> show ?thesis by simp
qed

lemma py_strip_idem [simp]: "py_strip (py_strip s) = py_strip s"
  by (simp add: py_strip_def dropWhile_rev_strip dropWhile_idem)

definition hhmm_str :: "int \<Rightarrow> int \<Rightarrow> string" where
  "hhmm_str h m = pad_nat 2 (nat h) @ '':'' @ pad_nat 2 (nat m)"

lemma split_hhmm_str:
  assumes "0 \<le> h" "h \<le> 23" "0 \<le> m" "m \<le> 59"
  shows "split_on (CHR '':'') (hhmm_str h m) = [pad_nat 2 (nat h), pad_nat 2 (nat m)]"
    and "py_int (pad_nat 2 (nat h)) = Some h" and "py_int (pad_nat 2 (nat m)) = Some m"
  using assms
  by (simp_all add: hhmm_str_def split_on_append split_on_notin pad2_no_colon py_int_pad2)

lemma parse_hhmm_str:
  assumes "0 \<le> h" "h \<le> 23" "0 \<le> m" "m \<le> 59"
  shows "anchor_parse_hhmm (VStr (hhmm_str h m)) path = Inr (hhmm_str h m)"
  using assms by (simp add: anchor_parse_hhmm_def split_hhmm_str) (simp add: hhmm_str_def)

lemma anchor_parse_hhmmD:
  assumes "anchor_parse_hhmm v path = Inr t"
  obtains h m where "0 \<le> h" "h \<le> 23" "0 \<le> m" "m \<le> 59" "t = hhmm_str h m"
  using assms
  by (auto simp: anchor_parse_hhmm_def hhmm_str_def
      split: pyval.splits list.splits option.splits if_splits)

text \<open>What every anchor that \<open>parse_anchors\<close> returns satisfies.\<close>

definition wf_anchor :: "anchor \<Rightarrow> bool" where
  "wf_anchor a \<longleftrightarrow>
     anc_id a \<noteq> [] \<and> py_strip (anc_id a) = anc_id a \<and>
     - max_offset_minutes \<le> anc_offset_minutes a \<and> anc_offset_minutes a \<le> max_offset_minutes \<and>
     (case anc_time a of
        None \<Rightarrow> anc_kind a \<noteq> Kind_clock
      | Some t \<Rightarrow> anc_kind a = Kind_clock \<and> anchor_parse_hhmm (VStr t) [] = Inr t)"

lemma kind_of_val_str [simp]: "kind_of_val (VStr (kind_str k)) = Some k"
  by (cases k) (simp_all add: kind_of_val_def kind_str_def)

lemma hhmm_any_path:
  "anchor_parse_hhmm (VStr t) [] = Inr t \<Longrightarrow> anchor_parse_hhmm (VStr t) path = Inr t"
  by (metis anchor_parse_hhmmD parse_hhmm_str)

lemma parse_serialized:
  assumes "wf_anchor a"
  shows "parse_anchor uuid (i, serialize_anchor a) = Inr a"
  using assms hhmm_any_path
  by (auto simp: parse_anchor_def serialize_anchor_def wf_anchor_def dict_get_def parse_offset_def
      parse_anchor_id_def Let_def split: option.splits)

lemma parse_offset_range:
  "parse_offset v path = Inr n \<Longrightarrow> - max_offset_minutes \<le> n \<and> n \<le> max_offset_minutes"
  by (auto simp: parse_offset_def max_offset_minutes_def split: if_splits pyval.splits option.splits)

lemma parse_anchor_id_wf:
  "u \<noteq> [] \<Longrightarrow> py_strip u = u \<Longrightarrow> parse_anchor_id u v \<noteq> [] \<and> py_strip (parse_anchor_id u v) = parse_anchor_id u v"
  by (auto simp: parse_anchor_id_def split: pyval.splits)

lemma parse_anchor_wf:
  assumes "parse_anchor uuid (i, item) = Inr a" "uuid i \<noteq> []" "py_strip (uuid i) = uuid i"
  shows "wf_anchor a"
proof -
  have "case anc_time a of None \<Rightarrow> anc_kind a \<noteq> Kind_clock
      | Some t \<Rightarrow> anc_kind a = Kind_clock \<and> anchor_parse_hhmm (VStr t) [] = Inr t"
    using assms(1)
    by (auto simp: parse_anchor_def Let_def parse_hhmm_str elim!: anchor_parse_hhmmD
        split: pyval.splits option.splits if_splits)
  moreover have "- max_offset_minutes \<le> anc_offset_minutes a \<and> anc_offset_minutes a \<le> max_offset_minutes"
    using assms(1)
    by (auto simp: parse_anchor_def Let_def dest: parse_offset_range split: pyval.splits option.splits)
  moreover have "anc_id a \<noteq> [] \<and> py_strip (anc_id a) = anc_id a"
    using assms parse_anchor_id_wf [of "uuid i"]
    by (auto simp: parse_anchor_def Let_def split: pyval.splits option.splits)
  ultimately show ?thesis by (simp add: wf_anchor_def)
qed

lemma parse_anchors_wf_list:
  assumes "parse_anchors uuid raw = Inr as" "\<And>i. uuid i \<noteq> [] \<and> py_strip (uuid i) = uuid i"
  shows "\<forall>a\<in>set as. wf_anchor a"
proof
  fix a assume a: "a \<in> set as"
  with assms(1) obtain items where "rmap (parse_anchor uuid) (List.enumerate 0 items) = Inr as"
    by (auto simp: parse_anchors_def split: if_splits pyval.splits)
  then have "list_all2 (\<lambda>x y. parse_anchor uuid x = Inr y) (List.enumerate 0 items) as"
    by (rule rmap_InrD)
  then have "\<exists>x. parse_anchor uuid x = Inr a"
    using a by (auto simp: list_all2_conv_all_nth in_set_conv_nth simp del: split_paired_Ex)
  then obtain x where "parse_anchor uuid x = Inr a" ..
  then show "wf_anchor a"
    using parse_anchor_wf [of uuid "fst x" "snd x" a] assms(2) by simp
qed

lemma rmap_parse_serialized:
  "\<forall>a\<in>set as. wf_anchor a \<Longrightarrow>
   rmap (parse_anchor uuid) (List.enumerate n (map serialize_anchor as)) = Inr as"
  by (induction as arbitrary: n) (auto simp: parse_serialized)

lemma parse_serialized_list:
  "\<forall>a\<in>set as. wf_anchor a \<Longrightarrow> parse_anchors uuid (VList (map serialize_anchor as)) = Inr as"
  using rmap_parse_serialized [of as uuid 0] by (auto simp: parse_anchors_def)

text \<open>
  C5. Round trip of the stored anchors.  Given that \<open>uuid4().hex\<close> yields non-empty text without
  surrounding white space, whatever list \<open>parse_anchors\<close> accepts comes back unchanged when
  its serialised form is parsed again: kinds, normalised times, offsets, flags, and above
  all the identities the fire log is keyed on, with no new identity drawn.
\<close>

theorem anchors_roundtrip:
  assumes "\<And>i. uuid i \<noteq> [] \<and> py_strip (uuid i) = uuid i"
    and "parse_anchors uuid raw = Inr as"
  shows "parse_anchors uuid' (VList (map serialize_anchor as)) = Inr as"
  using parse_anchors_wf_list [OF assms(2,1)] by (rule parse_serialized_list)

theorem anchors_roundtrip_witness:
  "parse_anchors (\<lambda>_. ''zz'') (VList (map serialize_anchor
     [\<lparr>anc_id = ''ab'', anc_kind = Kind_clock, anc_time = Some ''07:05'', anc_offset_minutes = -30,
       anc_enabled = True\<rparr>])) =
   Inr [\<lparr>anc_id = ''ab'', anc_kind = Kind_clock, anc_time = Some ''07:05'', anc_offset_minutes = -30,
       anc_enabled = True\<rparr>]"
proof (rule anchors_roundtrip [of "\<lambda>_. ''ab''" "VList [VDict [(''kind'', VStr ''clock''),
    (''time'', VStr ''7:5''), (''offset_minutes'', VStr '' -30 '')]]"])
  show "parse_anchors (\<lambda>_. ''ab'') (VList [VDict [(''kind'', VStr ''clock''),
    (''time'', VStr ''7:5''), (''offset_minutes'', VStr '' -30 '')]]) =
   Inr [\<lparr>anc_id = ''ab'', anc_kind = Kind_clock, anc_time = Some ''07:05'', anc_offset_minutes = -30,
       anc_enabled = True\<rparr>]"
    by code_simp
  show "''ab'' \<noteq> [] \<and> py_strip ''ab'' = ''ab''" by code_simp
qed

section \<open>The bisection\<close>

lemma bisect_finds:
  assumes "\<And>m. lo \<le> m \<Longrightarrow> m \<le> hi \<Longrightarrow> post m \<longleftrightarrow> t \<le> m" "lo < t" "t \<le> hi"
  shows "bisect post lo hi = t"
  using assms
proof (induction post lo hi rule: bisect.induct)
  case (1 post lo hi)
  show ?case
  proof (cases "hi - lo > 1")
    case True
    let ?mid = "(lo + hi) div 2"
    have mid: "lo \<le> ?mid" "?mid \<le> hi" using True by auto
    show ?thesis
    proof (cases "post ?mid")
      case Tp: True
      have "bisect post lo ?mid = t"
        by (rule "1.IH"(1)) (use True Tp mid "1.prems" in auto)
      with True Tp show ?thesis by (simp add: bisect.simps [of post lo hi])
    next
      case Fp: False
      have "bisect post ?mid hi = t"
        by (rule "1.IH"(2)) (use True Fp mid "1.prems" in auto)
      with True Fp show ?thesis by (simp add: bisect.simps [of post lo hi])
    qed
  next
    case False
    then have "bisect post lo hi = hi" by (simp add: bisect.simps [of post lo hi])
    with False "1.prems" show ?thesis by linarith
  qed
qed

text \<open>
  A wall reading \<open>w\<close> in the gap of a spring-forward transition at \<open>t\<close>, from offset \<open>p\<close> to
  \<open>q\<close>: the transition falls on a whole second, the offset is \<open>p\<close> just before it and \<open>q\<close>
  from it on, as far as the two readings of \<open>w\<close> reach.
\<close>

definition spring_gap :: "zone \<Rightarrow> int \<Rightarrow> int \<Rightarrow> int \<Rightarrow> int \<Rightarrow> bool" where
  "spring_gap z t p q w \<longleftrightarrow>
     wf_zone z \<and> t mod second_us = 0 \<and> 0 \<le> w - q \<and> t + p \<le> w \<and> w < t + q \<and>
     wall_offset z False w = p \<and> wall_offset z True w = q \<and>
     (\<forall>u. w - q - second_us \<le> u \<and> u < t \<longrightarrow> utcoffset_at z u = p) \<and>
     (\<forall>u. t \<le> u \<and> u \<le> w - p \<longrightarrow> utcoffset_at z u = q)"

lemma spring_gap_single:
  assumes "t mod second_us = 0" "0 \<le> w - q" "t + p \<le> w" "w < t + q"
  shows "spring_gap \<lparr>tz_initial = p, tz_transitions = [(t, q)]\<rparr> t p q w"
  using assms by (auto simp: spring_gap_def wf_zone_def wall_offset_def utcoffset_at_def)

lemma gap_not_exists:
  assumes "spring_gap z t p q w"
  shows "\<not> wall_time_exists w z"
proof -
  have "utcoffset_at z (w - p) = q" and "p < q"
    using assms by (auto simp: spring_gap_def)
  with assms show ?thesis
    by (simp add: wall_time_exists_def utc_of_def local_of_def spring_gap_def)
qed

lemma second_div:
  "x div second_us * second_us \<le> x" "x < x div second_us * second_us + second_us"
  using div_mult_mod_eq [of x second_us] pos_mod_bound [of second_us x] pos_mod_sign [of second_us x]
  by linarith+

lemma gap_first_valid:
  assumes g: "spring_gap z t p q w"
  shows "first_valid_instant_after_gap w z = t"
proof -
  define k where "k = t div second_us"
  have t: "t = k * second_us" using g by (auto simp: spring_gap_def k_def)
  have b: "0 \<le> w - q" "w - q < t" "t \<le> w - p" "p < q"
    using g by (auto simp: spring_gap_def)
  have "bisect (\<lambda>m. utcoffset_at z (m * second_us) = q) ((w - q) div second_us) ((w - p) div second_us) = k"
  proof (rule bisect_finds)
    show "(w - q) div second_us < k" "k \<le> (w - p) div second_us" 
      using b t second_div [of "w - q"] second_div [of "w - p"] by linarith+
    fix m assume m: "(w - q) div second_us \<le> m" "m \<le> (w - p) div second_us"
    have "w - q - second_us \<le> m * second_us" "m * second_us \<le> w - p" 
      using m second_div [of "w - q"] second_div [of "w - p"] by linarith+
    moreover have "m * second_us < t \<longleftrightarrow> m < k" by (simp add: t)
    ultimately show "utcoffset_at z (m * second_us) = q \<longleftrightarrow> k \<le> m"
      using g b(4) by (cases "m < k") (auto simp: spring_gap_def)
  qed
  moreover have "utcoffset_at z (w - p) = q" "wall_offset z False w = p" "wall_offset z True w = q"
    using g b by (auto simp: spring_gap_def)
  ultimately show ?thesis
    using b by (simp add: first_valid_instant_after_gap_def utc_of_def posix_seconds_def Let_def t)
qed

text \<open>
  A clock anchor whose wall time falls in a spring-forward gap fires exactly at the
  transition, the moment the clocks resume, and \<open>clock_anchor_in_dst_gap\<close> reports the shift:
  the bisection over whole seconds returns the transition itself, for every anchor, date,
  offset and size of gap.
\<close>

theorem gap_anchor_fires_at_transition:
  assumes "anc_kind a = Kind_clock" "clock_fire_local a d = Inr w" "spring_gap z t p q w"
  shows "anchor_fire_instant wd a d z c = Inr (Some t) \<and> clock_anchor_in_dst_gap a d z = Inr True"
proof
  have "wf_zone z" using assms(3) by (simp add: spring_gap_def)
  then show "anchor_fire_instant wd a d z c = Inr (Some t)"
    using assms gap_first_valid [OF assms(3)] gap_not_exists [OF assms(3)]
    by (simp add: anchor_fire_instant_def utc_local_roundtrip Let_def)
  have "anc_time a \<noteq> None" using assms(2) by (cases "anc_time a") (simp_all add: clock_fire_local_def)
  then show "clock_anchor_in_dst_gap a d z = Inr True"
    using assms gap_not_exists [OF assms(3)] by (simp add: clock_anchor_in_dst_gap_def)
qed

theorem gap_anchor_fires_at_transition_witness:
  "anchor_fire_instant sample_world
     \<lparr>anc_id = ''a'', anc_kind = Kind_clock, anc_time = Some ''02:30'', anc_offset_minutes = 10, anc_enabled = True\<rparr>
     20542 \<lparr>tz_initial = 3600 * second_us, tz_transitions = [(1774832400 * second_us, 7200 * second_us)]\<rparr> (None, None) =
   Inr (Some (1774832400 * second_us))"
proof -
  let ?a = "\<lparr>anc_id = ''a'', anc_kind = Kind_clock, anc_time = Some ''02:30'', anc_offset_minutes = 10, anc_enabled = True\<rparr>"
  have "clock_fire_local ?a 20542 = Inr (1774838400 * second_us)" by code_simp
  from gap_anchor_fires_at_transition [OF _ this spring_gap_single [of "1774832400 * second_us" _ "7200 * second_us" "3600 * second_us"]]
  show ?thesis by simp
qed

section \<open>Clock anchors on a stretch with one offset\<close>

text \<open>Minutes from the base date's midnight to the fire, in microseconds.\<close>

definition clock_shift :: "anchor \<Rightarrow> int" where
  "clock_shift a =
     (case anc_time a of
        None \<Rightarrow> 0
      | Some t \<Rightarrow> (case map py_int (split_on (CHR '':'') t) of
                    [Some h, Some m] \<Rightarrow> mk_time h m + anc_offset_minutes a * minute_us
                  | _ \<Rightarrow> 0))"

definition clock_fire :: "anchor \<Rightarrow> int \<Rightarrow> int \<Rightarrow> int" where
  "clock_fire a off d = d * day_us + clock_shift a - off"

lemma wf_clock:
  assumes "wf_anchor a" "anc_kind a = Kind_clock"
  shows "clock_fire_local a d = Inr (d * day_us + clock_shift a)"
    and "- 12 * hour_us \<le> clock_shift a" and "clock_shift a < 36 * hour_us"
proof -
  from assms obtain t where t: "anc_time a = Some t" "anchor_parse_hhmm (VStr t) [] = Inr t"
    by (auto simp: wf_anchor_def split: option.splits)
  from t(2) obtain h m where hm: "0 \<le> h" "h \<le> 23" "0 \<le> m" "m \<le> 59" "t = hhmm_str h m"
    by (rule anchor_parse_hhmmD)
  have sh: "clock_shift a = mk_time h m + anc_offset_minutes a * minute_us"
    using hm by (simp add: clock_shift_def t split_hhmm_str)
  show "clock_fire_local a d = Inr (d * day_us + clock_shift a)"
    using hm by (simp add: clock_fire_local_def t parse_hhmm_str split_hhmm_str sh)
  have "- 720 \<le> anc_offset_minutes a" "anc_offset_minutes a \<le> 720"
    using assms(1) by (auto simp: wf_anchor_def max_offset_minutes_def)
  then show "- 12 * hour_us \<le> clock_shift a" "clock_shift a < 36 * hour_us"
    using hm by (auto simp: sh mk_time_def)
qed

lemma fire_steady:
  assumes "wf_anchor a" "anc_kind a = Kind_clock" "steady z off lo hi"
    and "lo \<le> clock_fire a off d" "clock_fire a off d \<le> hi"
  shows "anchor_fire_instant wd a d z c = Inr (Some (clock_fire a off d))"
proof -
  let ?w = "d * day_us + clock_shift a"
  have u: "utc_of z False ?w = clock_fire a off d"
    using steadyD(3) [OF assms(3), of ?w] assms(4,5) by (simp add: clock_fire_def)
  moreover have "local_of z (clock_fire a off d) = ?w"
    using steadyD(1) [OF assms(3)] assms(4,5) by (simp add: clock_fire_def)
  ultimately show ?thesis
    using wf_clock(1) [OF assms(1,2)] assms(2)
    by (simp add: anchor_fire_instant_def wall_time_exists_def)
qed

lemma clock_fire_step: "clock_fire a off (d + k) = clock_fire a off d + k * day_us"
  by (simp add: clock_fire_def algebra_simps)

text \<open>Where the base date of a fire instant lies, seen from the local date of \<open>now\<close>.\<close>

lemma today_bounds:
  assumes "steady z off (now - 4 * day_us) (now + 4 * day_us)"
  defines "today \<equiv> local_date_of now z"
  shows "today * day_us \<le> now + off" and "now + off < today * day_us + day_us"
proof -
  have "local_of z now = now + off" by (rule steadyD(1) [OF assms(1)]) simp_all
  then have "now + off = today * day_us + tod_of (now + off)"
    using day_tod [of "now + off"] by (simp add: today_def local_date_of_def)
  then show "today * day_us \<le> now + off" "now + off < today * day_us + day_us"
    using tod_bounds [of "now + off"] by linarith+
qed

lemma fire_near_today:
  assumes "wf_anchor a" "anc_kind a = Kind_clock" "steady z off (now - 4 * day_us) (now + 4 * day_us)"
    and "d \<in> {local_date_of now z - 1, local_date_of now z, local_date_of now z + 1}"
  shows "anchor_fire_instant wd a d z c = Inr (Some (clock_fire a off d))"
  using assms(4) wf_clock(2,3) [OF assms(1,2)] today_bounds [OF assms(3)]
  by (intro fire_steady [OF assms(1,2,3)]) (auto simp: clock_fire_def)

lemma grace_base_near:
  assumes "wf_anchor a" "anc_kind a = Kind_clock" "steady z off (now - 4 * day_us) (now + 4 * day_us)"
    and "clock_fire a off d \<le> now" "now < clock_fire a off d + 12 * hour_us"
  shows "d \<in> {local_date_of now z - 1, local_date_of now z, local_date_of now z + 1}"
proof -
  note b = wf_clock(2,3) [OF assms(1,2)] today_bounds [OF assms(3)]
  have "d \<le> local_date_of now z + 1" "local_date_of now z - 1 \<le> d"
    using b assms(4,5) by (simp_all add: clock_fire_def)
  then show ?thesis by auto
qed

lemma due_scan_three:
  assumes "fire b = Inr (Some x)" "fire b' = Inr (Some x')" "fire b'' = Inr (Some x'')"
    and "x > x'" "x' > (x''::int)"
  shows "due_scan fire now [b, b', b''] None =
    Inr (if x \<le> now then Some (x, b) else if x' \<le> now then Some (x', b')
         else if x'' \<le> now then Some (x'', b'') else None)"
  using assms by auto

definition fire_decision :: "anchor \<Rightarrow> int \<Rightarrow> int \<Rightarrow> bool \<Rightarrow> anchor_decision" where
  "fire_decision a d t g = \<lparr>dec_anchor = a, dec_local_date = date_isoformat d, dec_instant = Some t,
     dec_within_grace = g, dec_has_geo = True\<rparr>"

lemma due_anchor_clock:
  assumes "wf_anchor a" "anc_kind a = Kind_clock" "anc_enabled a"
    and st: "steady z off (now - 4 * day_us) (now + 4 * day_us)"
  defines "today \<equiv> local_date_of now z" and "f \<equiv> clock_fire a off"
  shows "due_anchor wd now z c grace stz a =
    Inr (if f (today + 1) \<le> now then [fire_decision a (today + 1) (f (today + 1)) (now \<le> f (today + 1) + grace)]
         else if f today \<le> now then [fire_decision a today (f today) (now \<le> f today + grace)]
         else if f (today - 1) \<le> now then [fire_decision a (today - 1) (f (today - 1)) (now \<le> f (today - 1) + grace)]
         else [])"
proof -
  have "effective_tz a z stz = z" "\<not> is_solar (anc_kind a)"
    using assms(2) by (auto simp: effective_tz_def is_solar_def split: option.splits)
  moreover note due_scan_three [of "\<lambda>b. anchor_fire_instant wd a b z c" "today + 1" "f (today + 1)"
      today "f today" "today - 1" "f (today - 1)" now]
  moreover have "f (today + 1) > f today" "f today > f (today - 1)"
    by (simp_all add: f_def clock_fire_def)
  ultimately show ?thesis
    using assms(3) fire_near_today [OF assms(1,2) st]
    by (auto simp: due_anchor_def Let_def fire_decision_def local_date_str_def f_def today_def)
qed

lemma fire_decision_inject [simp]:
  "fire_decision a d t g = fire_decision a' d' t' g' \<longleftrightarrow>
   a = a' \<and> date_isoformat d = date_isoformat d' \<and> t = t' \<and> g = g'"
  by (auto simp: fire_decision_def)

lemma clock_fire_inj: "clock_fire a off d = clock_fire a off d' \<longleftrightarrow> d = d'"
  by (simp add: clock_fire_def)

lemma due_anchor_grace:
  assumes wf: "wf_anchor a" "anc_kind a = Kind_clock"
    and st: "steady z off (now - 4 * day_us) (now + 4 * day_us)" and grace: "grace < 12 * hour_us"
  obtains ds where "due_anchor wd now z c grace stz a = Inr ds"
    and "\<And>b d. fire_decision b d (clock_fire b off d) True \<in> set ds \<longleftrightarrow>
        b = a \<and> anc_enabled a \<and> clock_fire a off d \<le> now \<and> now \<le> clock_fire a off d + grace"
proof (cases "anc_enabled a")
  case False
  then show ?thesis by (intro that [of "[]"]) (auto simp: due_anchor_def)
next
  case True
  let ?today = "local_date_of now z" and ?f = "clock_fire a off"
  note due = due_anchor_clock [OF wf True st, of wd c grace stz]
  show ?thesis
  proof (rule that [OF due])
    fix b d
    have step: "?f (?today + 1) = ?f ?today + day_us" "?f (?today - 1) = ?f ?today - day_us"
      by (simp_all add: clock_fire_def)
    have near: "?f d \<le> now \<Longrightarrow> now \<le> ?f d + grace \<Longrightarrow> d \<in> {?today - 1, ?today, ?today + 1}"
      using grace_base_near [OF wf st, of d] grace by simp
    have later: "?f d \<le> now \<Longrightarrow> now \<le> ?f d + grace \<Longrightarrow> d' > d \<Longrightarrow> \<not> ?f d' \<le> now" for d'
      using grace by (simp add: clock_fire_def)
    show "fire_decision b d (clock_fire b off d) True \<in>
      set (if ?f (?today + 1) \<le> now
           then [fire_decision a (?today + 1) (?f (?today + 1)) (now \<le> ?f (?today + 1) + grace)]
           else if ?f ?today \<le> now then [fire_decision a ?today (?f ?today) (now \<le> ?f ?today + grace)]
           else if ?f (?today - 1) \<le> now
           then [fire_decision a (?today - 1) (?f (?today - 1)) (now \<le> ?f (?today - 1) + grace)]
           else []) \<longleftrightarrow>
      b = a \<and> anc_enabled a \<and> ?f d \<le> now \<and> now \<le> ?f d + grace"
      (is "?l \<longleftrightarrow> ?r")
    proof
      assume ?l
      then show ?r using True by (auto split: if_splits simp: clock_fire_inj)
    next
      assume r: ?r
      then have "d = ?today + 1 \<or> d = ?today \<or> d = ?today - 1" using near by auto
      then show ?l using r later [of "?today + 1"] later [of ?today] by auto
    qed
  qed
qed

text \<open>
  C6. Every clock anchor fires for the right date exactly when it should.  While the zone
  keeps one offset and the grace is under twelve hours, \<open>due_anchors\<close> returns, and its
  result holds a within-grace decision for an anchor and a base date if and only if the
  anchor is enabled and \<open>now\<close> lies between the fire instant of that date and the end of its
  grace: scanning yesterday, today and tomorrow misses no date and invents none, also when
  an offset of up to twelve hours carries the fire across midnight.
\<close>

theorem due_anchors_exact:
  assumes "\<forall>a\<in>set anchors. wf_anchor a \<and> anc_kind a = Kind_clock"
    and "steady z off (now - 4 * day_us) (now + 4 * day_us)" "grace < 12 * hour_us"
  shows "\<exists>ds. due_anchors wd anchors now z c grace stz = Inr ds \<and>
    (\<forall>a d. fire_decision a d (clock_fire a off d) True \<in> set ds \<longleftrightarrow>
       a \<in> set anchors \<and> anc_enabled a \<and> clock_fire a off d \<le> now \<and> now \<le> clock_fire a off d + grace)"
proof -
  let ?P = "\<lambda>a ds. \<forall>b d. fire_decision b d (clock_fire b off d) True \<in> set ds \<longleftrightarrow>
      b = a \<and> anc_enabled a \<and> clock_fire a off d \<le> now \<and> now \<le> clock_fire a off d + grace"
  have "\<exists>ds. due_anchor wd now z c grace stz a = Inr ds \<and> ?P a ds" if "a \<in> set anchors" for a
    using that assms(1) by (auto intro: due_anchor_grace [OF _ _ assms(2,3), of a wd c stz])
  then obtain g where g: "\<And>a. a \<in> set anchors \<Longrightarrow> due_anchor wd now z c grace stz a = Inr (g a) \<and> ?P a (g a)"
    by metis
  then have "due_anchors wd anchors now z c grace stz = Inr (concat (map g anchors))"
    by (simp add: due_anchors_def rmap_Inr [of anchors _ g])
  with g show ?thesis by auto
qed

definition sample_anchor :: "string \<Rightarrow> int \<Rightarrow> anchor" where
  "sample_anchor t off = \<lparr>anc_id = ''a'', anc_kind = Kind_clock, anc_time = Some t,
     anc_offset_minutes = off, anc_enabled = True\<rparr>"

text \<open>23:50 with an offset of 20 minutes fires ten past midnight, for the date before.\<close>

theorem due_anchors_exact_witness:
  "\<exists>ds. due_anchors sample_world [sample_anchor ''23:50'' 20] (20543 * day_us + 15 * minute_us)
       (fixed_zone 0) (None, None) exact_time_grace None = Inr ds \<and>
     fire_decision (sample_anchor ''23:50'' 20) 20542 (20543 * day_us + 10 * minute_us) True \<in> set ds"
proof -
  let ?a = "sample_anchor ''23:50'' 20"
  have wf: "wf_anchor ?a" by code_simp
  have k: "anc_kind ?a = Kind_clock" "anc_enabled ?a" by code_simp+
  have f: "clock_fire ?a 0 20542 = 20543 * day_us + 10 * minute_us" by code_simp
  from due_anchors_exact [of "[?a]" "fixed_zone 0" 0 "20543 * day_us + 15 * minute_us" exact_time_grace
      sample_world "(None, None)" None]
  obtain ds where ds: "due_anchors sample_world [?a] (20543 * day_us + 15 * minute_us)
       (fixed_zone 0) (None, None) exact_time_grace None = Inr ds"
    "\<forall>a d. fire_decision a d (clock_fire a 0 d) True \<in> set ds \<longleftrightarrow>
       a \<in> set [?a] \<and> anc_enabled a \<and> clock_fire a 0 d \<le> 20543 * day_us + 15 * minute_us \<and>
       20543 * day_us + 15 * minute_us \<le> clock_fire a 0 d + exact_time_grace"
    using wf k by (auto simp: exact_time_grace_def)
  have "fire_decision ?a 20542 (clock_fire ?a 0 20542) True \<in> set ds"
    by (subst ds(2) [rule_format]) (use k f in \<open>simp add: exact_time_grace_def\<close>)
  with ds(1) f show ?thesis by auto
qed

section \<open>The next wake-up\<close>

text \<open>The least element of a set of instants, if there is one.\<close>

definition least_opt :: "int set \<Rightarrow> int option \<Rightarrow> bool" where
  "least_opt S r \<longleftrightarrow> (case r of None \<Rightarrow> S = {} | Some t \<Rightarrow> t \<in> S \<and> (\<forall>u\<in>S. t \<le> u))"

lemma least_opt_cofinal:
  assumes "least_opt S r" "S \<subseteq> S'" "\<And>u. u \<in> S' \<Longrightarrow> \<exists>t\<in>S. t \<le> u"
  shows "least_opt S' r"
  using assms by (force simp: least_opt_def split: option.splits)

lemma least_opt_step:
  "least_opt S r \<Longrightarrow>
   least_opt (S \<union> {t. x = Some t \<and> now < t})
     (case x of None \<Rightarrow> r
      | Some t \<Rightarrow> if t \<le> now then r
                  else (case r of None \<Rightarrow> Some t | Some u \<Rightarrow> if t < u then Some t else r))"
  by (auto simp: least_opt_def split: option.splits)

lemma wake_scan_least:
  assumes "\<And>b. b \<in> set bs \<Longrightarrow> fire b = Inr (g b)" "least_opt S r"
  shows "\<exists>r'. wake_scan fire now bs r = Inr r' \<and> least_opt (S \<union> {t. \<exists>b\<in>set bs. g b = Some t \<and> now < t}) r'"
  using assms
proof (induction bs arbitrary: r S)
  case Nil
  then show ?case by simp
next
  case (Cons b bs)
  let ?S = "S \<union> {t. g b = Some t \<and> now < t}"
  have "?S \<union> {t. \<exists>b\<in>set bs. g b = Some t \<and> now < t} = S \<union> {t. \<exists>b\<in>set (b # bs). g b = Some t \<and> now < t}"
    by auto
  then show ?case
    using Cons.IH [OF _ least_opt_step [OF Cons.prems(2), of "g b" now]] Cons.prems(1) by simp
qed

definition base_dates :: "anchor \<Rightarrow> int \<Rightarrow> zone \<Rightarrow> zone option \<Rightarrow> int set" where
  "base_dates a now z stz =
     (let today = local_date_of now (effective_tz a z stz) in {today - 1, today, today + 1})"

lemma wake_from_least:
  assumes "\<And>a b. a \<in> set as \<Longrightarrow> anc_enabled a \<Longrightarrow> b \<in> base_dates a now z stz \<Longrightarrow>
      anchor_fire_instant wd a b (effective_tz a z stz) c = Inr (g a b)"
    and "least_opt S r"
  shows "\<exists>r'. next_anchor_wake_from wd as now z c stz r = Inr r' \<and>
     least_opt (S \<union> {t. \<exists>a\<in>set as. anc_enabled a \<and> (\<exists>b\<in>base_dates a now z stz. g a b = Some t \<and> now < t)}) r'"
  using assms
proof (induction as arbitrary: r S)
  case Nil
  then show ?case by simp
next
  case (Cons a as)
  show ?case
  proof (cases "anc_enabled a")
    case False
    with Cons show ?thesis by auto
  next
    case True
    let ?z = "effective_tz a z stz" and ?T = "\<lambda>a. {t. \<exists>b\<in>base_dates a now z stz. g a b = Some t \<and> now < t}"
    let ?today = "local_date_of now ?z"
    have "\<exists>r'. wake_scan (\<lambda>b. anchor_fire_instant wd a b ?z c) now [?today - 1, ?today, ?today + 1] r = Inr r' \<and>
       least_opt (S \<union> {t. \<exists>b\<in>set [?today - 1, ?today, ?today + 1]. g a b = Some t \<and> now < t}) r'"
      by (rule wake_scan_least) (use Cons.prems True in \<open>auto simp: base_dates_def Let_def\<close>)
    then obtain r' where r': "wake_scan (\<lambda>b. anchor_fire_instant wd a b ?z c) now [?today - 1, ?today, ?today + 1] r = Inr r'"
      "least_opt (S \<union> ?T a) r'"
      by (auto simp: base_dates_def Let_def)
    moreover have "S \<union> ?T a \<union> {t. \<exists>a\<in>set as. anc_enabled a \<and> t \<in> ?T a} =
        S \<union> {t. \<exists>a\<in>set (a # as). anc_enabled a \<and> t \<in> ?T a}"
      using True by auto
    moreover note Cons.IH [OF _ r'(2)]
    ultimately show ?thesis using True Cons.prems(1) by (simp add: Let_def)
  qed
qed

lemma wake_clock_least:
  assumes "\<forall>a\<in>set anchors. wf_anchor a \<and> anc_kind a = Kind_clock"
    and "\<forall>a\<in>set anchors. 0 \<le> clock_shift a"
    and st: "steady z off (now - 4 * day_us) (now + 4 * day_us)"
  shows "\<exists>r. next_anchor_wake wd anchors now z c stz = Inr r \<and>
    least_opt {t. \<exists>a d. a \<in> set anchors \<and> anc_enabled a \<and> t = clock_fire a off d \<and> now < t} r"
proof -
  let ?today = "local_date_of now z"
  have bd: "effective_tz a z stz = z \<and> base_dates a now z stz = {?today - 1, ?today, ?today + 1}"
    if "a \<in> set anchors" for a
    using assms(1) that by (auto simp: base_dates_def effective_tz_def is_solar_def Let_def split: option.splits)
  have "\<exists>r. next_anchor_wake_from wd anchors now z c stz None = Inr r \<and>
    least_opt ({} \<union> {t. \<exists>a\<in>set anchors. anc_enabled a \<and>
       (\<exists>b\<in>base_dates a now z stz. Some (clock_fire a off b) = Some t \<and> now < t)}) r"
  proof (rule wake_from_least)
    fix a b assume "a \<in> set anchors" "b \<in> base_dates a now z stz"
    then show "anchor_fire_instant wd a b (effective_tz a z stz) c = Inr (Some (clock_fire a off b))"
      using fire_near_today [OF _ _ st, of a b wd c] assms(1) bd by auto
  qed (simp add: least_opt_def)
  then obtain r where r: "next_anchor_wake wd anchors now z c stz = Inr r"
    "least_opt {t. \<exists>a\<in>set anchors. anc_enabled a \<and> (\<exists>b\<in>base_dates a now z stz. clock_fire a off b = t \<and> now < t)} r"
    by (auto simp: next_anchor_wake_def)
  have "\<exists>b\<in>{?today - 1, ?today, ?today + 1}. now < clock_fire a off b \<and> clock_fire a off b \<le> clock_fire a off d"
    if "a \<in> set anchors" "now < clock_fire a off d" for a d
  proof -
    have "wf_anchor a" "anc_kind a = Kind_clock" "0 \<le> clock_shift a" using assms(1,2) that by auto
    note b = wf_clock(3) [OF this(1,2)] this(3) today_bounds [OF st]
    have lo: "?today - 1 \<le> d" using b that(2) by (simp add: clock_fire_def)
    have "now < clock_fire a off (?today + 1)" using b by (simp add: clock_fire_def)
    with lo that(2) show ?thesis
      by (cases "?today + 1 \<le> d") (auto simp: clock_fire_def intro: bexI [of _ "?today + 1"] bexI [of _ d])
  qed
  then have "least_opt {t. \<exists>a d. a \<in> set anchors \<and> anc_enabled a \<and> t = clock_fire a off d \<and> now < t} r"
    using bd by (intro least_opt_cofinal [OF r(2)]) fastforce+
  with r(1) show ?thesis by blast
qed



text \<open>
  An offset that carries the fire before the base date's midnight is not covered.  An
  anchor at 06:00 with an offset of minus seven hours fires at 23:00 of the day before; at
  23:30 the next fire, at 23:00 of the following evening, belongs to the date after tomorrow,
  which \<open>next_anchor_wake\<close> does not scan, and it answers that no fire lies ahead.  One hour
  later, past midnight, it answers with that instant.
\<close>

theorem next_anchor_wake_misses_early_fire:
  "next_anchor_wake sample_world [sample_anchor ''06:00'' (- 420)] (20542 * day_us + 1410 * minute_us)
     (fixed_zone 0) (None, None) None = Inr None \<and>
   clock_fire (sample_anchor ''06:00'' (- 420)) 0 20544 = 20543 * day_us + 1380 * minute_us \<and>
   next_anchor_wake sample_world [sample_anchor ''06:00'' (- 420)] (20543 * day_us + 30 * minute_us)
     (fixed_zone 0) (None, None) None = Inr (Some (20543 * day_us + 1380 * minute_us))"
  by code_simp

end
