(* ===== verification/Next_Due.thy ===== *)
theory Next_Due
  imports Anchor_Fire
begin

text \<open>
  The planning helpers of the project views: the next planned capture and the last missed
  anchor (\<open>capture/next_due.py\<close>), and the number of captures per day the schedule plans
  (\<open>capture/cadence.py\<close>).  Durations and rates are exact rationals.
\<close>

section \<open>Next and missed captures\<close>

definition as_utc :: "pydt option \<Rightarrow> int option" where
  "as_utc value = (case value of None \<Rightarrow> None | Some (Aware t) \<Rightarrow> Some t | Some (Naive t) \<Rightarrow> Some t)"

text \<open>\<open>now\<close> is a required argument, so the wall clock is never consulted.\<close>

definition now_utc :: "pydt \<Rightarrow> int" where
  "now_utc now = (case now of Aware t \<Rightarrow> t | Naive t \<Rightarrow> t)"

definition schedule_tz :: "world \<Rightarrow> (string \<times> pyval) list option \<Rightarrow> zone" where
  "schedule_tz wd raw =
     (case rbind (parse_schedule wd raw) (schedule_tzinfo wd) of
        Inr z \<Rightarrow> z
      | Inl _ \<Rightarrow> fixed_zone 0)"

definition enabled_anchors :: "(nat \<Rightarrow> string) \<Rightarrow> pyval \<Rightarrow> anchor list" where
  "enabled_anchors uuid raw =
     (if \<not> py_truth raw then []
      else (case parse_anchors uuid raw of Inl _ \<Rightarrow> [] | Inr as \<Rightarrow> filter anc_enabled as))"

record capture_plan =
  pl_interval :: "int option"
  pl_last :: "pydt option"
  pl_anchors :: pyval
  pl_schedule :: "(string \<times> pyval) list option"
  pl_coords :: coords
  pl_start :: "pydt option"
  pl_end :: "pydt option"
  pl_finished :: bool

definition interval_tick :: "capture_plan \<Rightarrow> int \<Rightarrow> int list" where
  "interval_tick p now =
     (case pl_interval p of
        None \<Rightarrow> []
      | Some i \<Rightarrow>
         (if i = 0 then []
          else [case as_utc (pl_last p) of None \<Rightarrow> now | Some l \<Rightarrow> max now (l + i * second_us)]))"

definition next_capture_instant :: "world \<Rightarrow> (nat \<Rightarrow> string) \<Rightarrow> capture_plan \<Rightarrow> pydt \<Rightarrow> int option res" where
  "next_capture_instant wd uuid p now0 =
     (let now = now_utc now0; start = as_utc (pl_start p); stop = as_utc (pl_end p) in
      if pl_finished p \<or> (case stop of None \<Rightarrow> False | Some e \<Rightarrow> e \<le> now) then Inr None
      else
       (let anchors = enabled_anchors uuid (pl_anchors p) in
        rbind (if anchors = [] then Inr None
               else next_anchor_wake wd anchors (case start of None \<Rightarrow> now | Some b \<Rightarrow> max now b)
                      (schedule_tz wd (pl_schedule p)) (pl_coords p) (resolve_zoneinfo wd (pl_coords p)))
         (\<lambda>wake.
          let candidates = (case wake of None \<Rightarrow> [] | Some w \<Rightarrow> [w]) @ interval_tick p now in
          if candidates = [] then Inr None
          else
           (let soonest = foldr min (tl candidates) (hd candidates);
                soonest = (case start of None \<Rightarrow> soonest | Some b \<Rightarrow> if soonest < b then b else soonest)
            in Inr (case stop of
                      None \<Rightarrow> Some soonest
                    | Some e \<Rightarrow> if soonest \<ge> e then None else Some soonest)))))"

text \<open>The loop of \<open>missed_anchor_instant\<close> over the base dates of one anchor.\<close>

fun missed_scan :: "(int \<Rightarrow> int option res) \<Rightarrow> int \<Rightarrow> int \<Rightarrow> int option \<Rightarrow> int list \<Rightarrow> int option \<Rightarrow> int option res" where
  "missed_scan fire now grace since [] latest = Inr latest"
| "missed_scan fire now grace since (base # bases) latest =
     rbind (fire base) (\<lambda>instant.
     missed_scan fire now grace since bases
       (case instant of
          None \<Rightarrow> latest
        | Some t \<Rightarrow>
           (if t + grace > now then latest
            else if (case since of None \<Rightarrow> False | Some b \<Rightarrow> t < b) then latest
            else (case latest of None \<Rightarrow> Some t | Some l \<Rightarrow> if t > l then Some t else latest))))"

fun missed_from ::
  "world \<Rightarrow> anchor list \<Rightarrow> int \<Rightarrow> int \<Rightarrow> int option \<Rightarrow> zone \<Rightarrow> coords \<Rightarrow> zone option \<Rightarrow> int option \<Rightarrow> int option res" where
  "missed_from wd [] now grace since z c solar_tz latest = Inr latest"
| "missed_from wd (a # as) now grace since z c solar_tz latest =
     (let eff_tz = effective_tz a z solar_tz; today = day_of (local_of eff_tz now) in
      rbind (missed_scan (\<lambda>base. anchor_fire_instant wd a base eff_tz c) now grace since
               [today - 1, today] latest) (\<lambda>latest'.
      missed_from wd as now grace since z c solar_tz latest'))"

definition missed_anchor_instant ::
  "world \<Rightarrow> (nat \<Rightarrow> string) \<Rightarrow> capture_plan \<Rightarrow> pydt option \<Rightarrow> int \<Rightarrow> pydt \<Rightarrow> int option res" where
  "missed_anchor_instant wd uuid p active_since grace now0 =
     (let now = now_utc now0 in
      rbind (missed_from wd (enabled_anchors uuid (pl_anchors p)) now grace (as_utc active_since)
               (schedule_tz wd (pl_schedule p)) (pl_coords p) (resolve_zoneinfo wd (pl_coords p)) None)
       (\<lambda>latest.
        Inr (case latest of
               None \<Rightarrow> None
             | Some t \<Rightarrow> (case as_utc (pl_last p) of
                           None \<Rightarrow> Some t
                         | Some l \<Rightarrow> if l \<ge> t then None else Some t))))"

section \<open>Captures per day\<close>

definition horizon :: int where "horizon = 7 * day_us"

definition gate_schedule :: "world \<Rightarrow> (string \<times> pyval) list option \<Rightarrow> schedule res" where
  "gate_schedule wd raw =
     (case parse_schedule wd raw of
        Inl (ValueError p m) \<Rightarrow> parse_schedule wd None
      | r \<Rightarrow> r)"

definition in_horizon :: "int \<Rightarrow> int \<Rightarrow> int option \<Rightarrow> bool" where
  "in_horizon b e instant = (case instant of None \<Rightarrow> False | Some t \<Rightarrow> b \<le> t \<and> t < e)"

definition anchor_fires_one ::
  "world \<Rightarrow> int \<Rightarrow> int \<Rightarrow> zone \<Rightarrow> zone option \<Rightarrow> coords \<Rightarrow> anchor \<Rightarrow> nat res" where
  "anchor_fires_one wd b e z solar_tz c a =
     (let eff_tz = effective_tz a z solar_tz;
          day = day_of (local_of eff_tz b) - 1; final = day_of (local_of eff_tz e) + 1 in
      rbind (rmap (\<lambda>d. anchor_fire_instant wd a d eff_tz c) [day..final])
        (\<lambda>instants. Inr (length (filter (in_horizon b e) instants))))"

definition anchor_fires ::
  "world \<Rightarrow> anchor list \<Rightarrow> int \<Rightarrow> int \<Rightarrow> zone \<Rightarrow> coords \<Rightarrow> nat res" where
  "anchor_fires wd anchors b e z c =
     (if anchors = [] then Inr 0
      else
       (let solar_tz = (if \<exists>a\<in>set anchors. anc_kind a \<noteq> Kind_clock then resolve_zoneinfo wd c else None) in
        rbind (rmap (anchor_fires_one wd b e z solar_tz c) anchors) (\<lambda>ns. Inr (sum_list ns))))"

definition seconds_of :: "int \<Rightarrow> rat" where
  "seconds_of d = of_int d / of_int second_us"

fun tick_loop :: "int \<Rightarrow> int \<Rightarrow> (int \<times> int) list \<Rightarrow> rat \<Rightarrow> int \<Rightarrow> rat" where
  "tick_loop b interval_seconds [] ticks due = ticks"
| "tick_loop b interval_seconds ((opens, closes) # rest) ticks due =
     (if opens = b
      then tick_loop b interval_seconds rest
             (ticks + seconds_of (closes - opens) / of_int interval_seconds) closes
      else
       (let first = max opens due; interval = interval_seconds * second_us in
        if first < closes
        then (let count = ceiling (of_int (closes - first) / of_int interval :: rat) in
              tick_loop b interval_seconds rest (ticks + of_int count) (first + count * interval))
        else tick_loop b interval_seconds rest ticks due))"

definition interval_ticks ::
  "world \<Rightarrow> int \<Rightarrow> schedule \<Rightarrow> int \<Rightarrow> int \<Rightarrow> coords \<Rightarrow> rat res" where
  "interval_ticks wd interval_seconds s b e c =
     (if is_always_open s then Inr (seconds_of (e - b) / of_int interval_seconds)
      else rbind (open_stretches wd s c b e) (\<lambda>st. Inr (tick_loop b interval_seconds st 0 b)))"

definition captures_per_day :: "world \<Rightarrow> (nat \<Rightarrow> string) \<Rightarrow> capture_plan \<Rightarrow> pydt \<Rightarrow> rat option res" where
  "captures_per_day wd uuid p now0 =
     (if pl_finished p then Inr None
      else
       (let now = now_utc now0; start = as_utc (pl_start p); fin = as_utc (pl_end p);
            b = (case start of None \<Rightarrow> now | Some x \<Rightarrow> max now x);
            z = schedule_tz wd (pl_schedule p);
            b_wall = local_of z b;
            e = utc_of z False (b_wall + horizon);
            e = (case fin of None \<Rightarrow> e | Some x \<Rightarrow> min e x)
        in if e \<le> b then Inr None
           else
            (let e_wall = local_of z e;
                 horizon_days = seconds_of (e_wall - b_wall) / 86400;
                 horizon_days = (if horizon_days \<le> 0 then seconds_of (e - b) / 86400 else horizon_days)
             in rbind (anchor_fires wd (enabled_anchors uuid (pl_anchors p)) b e z (pl_coords p)) (\<lambda>n.
                rbind (case pl_interval p of
                         Some i \<Rightarrow> (if i > 0
                                   then rbind (gate_schedule wd (pl_schedule p)) (\<lambda>s.
                                        rbind (interval_ticks wd i s b e (pl_coords p)) (\<lambda>t.
                                        Inr (of_nat n + t)))
                                   else Inr (of_nat n))
                       | None \<Rightarrow> Inr (of_nat n)) (\<lambda>total.
                if total \<le> 0 then Inr None else Inr (Some (total / horizon_days)))))))"

section \<open>Totality on stored data\<close>

lemma fire_total: "wf_anchor a \<Longrightarrow> \<exists>x. anchor_fire_instant wd a d z c = Inr x"
  using wf_clock(1) [of a d]
  by (cases "anc_kind a = Kind_clock")
    (auto simp: anchor_fire_instant_def split: prod.splits option.splits)

definition fire_of :: "world \<Rightarrow> anchor \<Rightarrow> zone \<Rightarrow> coords \<Rightarrow> int \<Rightarrow> int option" where
  "fire_of wd a z c d = (case anchor_fire_instant wd a d z c of Inl _ \<Rightarrow> None | Inr x \<Rightarrow> x)"

lemma fire_of_eq: "wf_anchor a \<Longrightarrow> anchor_fire_instant wd a d z c = Inr (fire_of wd a z c d)"
  using fire_total [of a wd d z c] by (auto simp: fire_of_def)

definition uuid_ok :: "(nat \<Rightarrow> string) \<Rightarrow> bool" where
  "uuid_ok uuid \<longleftrightarrow> (\<forall>i. uuid i \<noteq> [] \<and> py_strip (uuid i) = uuid i)"

lemma enabled_anchors_wf:
  "uuid_ok uuid \<Longrightarrow> a \<in> set (enabled_anchors uuid raw) \<Longrightarrow> wf_anchor a \<and> anc_enabled a"
  using parse_anchors_wf_list [of uuid raw]
  by (cases "parse_anchors uuid raw") (auto simp: enabled_anchors_def uuid_ok_def split: if_splits)

lemma wake_total:
  assumes "\<forall>a\<in>set as. wf_anchor a"
  shows "\<exists>r. next_anchor_wake wd as now z c stz = Inr r \<and> (\<forall>t. r = Some t \<longrightarrow> now < t)"
proof -
  have "\<exists>r. next_anchor_wake_from wd as now z c stz None = Inr r \<and>
     least_opt ({} \<union> {t. \<exists>a\<in>set as. anc_enabled a \<and> (\<exists>b\<in>base_dates a now z stz.
        fire_of wd a (effective_tz a z stz) c b = Some t \<and> now < t)}) r"
    by (rule wake_from_least) (use assms in \<open>auto simp: fire_of_eq least_opt_def\<close>)
  then show ?thesis by (force simp: next_anchor_wake_def least_opt_def split: option.splits)
qed

lemma interval_tick_ge: "t \<in> set (interval_tick p now) \<Longrightarrow> now \<le> t"
  by (auto simp: interval_tick_def split: option.splits if_splits)

lemma foldr_min_ge: "\<forall>t\<in>set (x # xs). (b::int) \<le> t \<Longrightarrow> b \<le> foldr min xs x"
  by (induction xs) auto



section \<open>Missed anchors\<close>

definition greatest_opt :: "int set \<Rightarrow> int option \<Rightarrow> bool" where
  "greatest_opt S r \<longleftrightarrow> (case r of None \<Rightarrow> S = {} | Some t \<Rightarrow> t \<in> S \<and> (\<forall>u\<in>S. u \<le> t))"

definition elapsed :: "int \<Rightarrow> int \<Rightarrow> int option \<Rightarrow> int \<Rightarrow> bool" where
  "elapsed now grace since t \<longleftrightarrow> t + grace \<le> now \<and> (\<forall>b. since = Some b \<longrightarrow> b \<le> t)"

lemma missed_scan_greatest:
  assumes "\<And>b. b \<in> set bs \<Longrightarrow> fire b = Inr (g b)" "greatest_opt S r"
  shows "\<exists>r'. missed_scan fire now grace since bs r = Inr r' \<and>
    greatest_opt (S \<union> {t. \<exists>b\<in>set bs. g b = Some t \<and> elapsed now grace since t}) r'"
  using assms
proof (induction bs arbitrary: r S)
  case Nil
  then show ?case by simp
next
  case (Cons b bs)
  let ?S = "S \<union> {t. g b = Some t \<and> elapsed now grace since t}"
  let ?r = "case g b of None \<Rightarrow> r | Some t \<Rightarrow>
     (if t + grace > now then r else if (case since of None \<Rightarrow> False | Some b \<Rightarrow> t < b) then r
      else (case r of None \<Rightarrow> Some t | Some l \<Rightarrow> if t > l then Some t else r))"
  have "greatest_opt ?S ?r"
    using Cons.prems(2) by (auto simp: greatest_opt_def elapsed_def split: option.splits)
  moreover have "?S \<union> {t. \<exists>b\<in>set bs. g b = Some t \<and> elapsed now grace since t} =
      S \<union> {t. \<exists>b\<in>set (b # bs). g b = Some t \<and> elapsed now grace since t}"
    by auto
  moreover note Cons.IH [of ?S ?r]
  ultimately show ?case using Cons.prems(1) by simp
qed

text \<open>The elapsed fire instants of yesterday's and today's base date.\<close>

definition elapsed_fires ::
  "world \<Rightarrow> anchor list \<Rightarrow> int \<Rightarrow> int \<Rightarrow> int option \<Rightarrow> zone \<Rightarrow> coords \<Rightarrow> zone option \<Rightarrow> int set" where
  "elapsed_fires wd as now grace since z c stz =
     {t. elapsed now grace since t \<and> (\<exists>a\<in>set as. let z' = effective_tz a z stz in
           \<exists>d\<in>{local_date_of now z' - 1, local_date_of now z'}. anchor_fire_instant wd a d z' c = Inr (Some t))}"

lemma missed_from_greatest:
  assumes "\<forall>a\<in>set as. wf_anchor a" "greatest_opt S r"
  shows "\<exists>r'. missed_from wd as now grace since z c stz r = Inr r' \<and>
    greatest_opt (S \<union> elapsed_fires wd as now grace since z c stz) r'"
  using assms
proof (induction as arbitrary: r S)
  case Nil
  then show ?case by (simp add: elapsed_fires_def)
next
  case (Cons a as)
  let ?z = "effective_tz a z stz"
  let ?bs = "[local_date_of now ?z - 1, local_date_of now ?z]"
  let ?T = "{t. \<exists>b\<in>set ?bs. fire_of wd a ?z c b = Some t \<and> elapsed now grace since t}"
  have "\<exists>r'. missed_scan (\<lambda>b. anchor_fire_instant wd a b ?z c) now grace since ?bs r = Inr r' \<and> greatest_opt (S \<union> ?T) r'"
    by (rule missed_scan_greatest) (use Cons.prems in \<open>auto simp: fire_of_eq\<close>)
  then obtain r' where r': "missed_scan (\<lambda>b. anchor_fire_instant wd a b ?z c) now grace since ?bs r = Inr r'"
    "greatest_opt (S \<union> ?T) r'" by blast
  have "S \<union> ?T \<union> elapsed_fires wd as now grace since z c stz = S \<union> elapsed_fires wd (a # as) now grace since z c stz"
    using Cons.prems(1) by (auto simp: elapsed_fires_def fire_of_eq Let_def)
  moreover note Cons.IH [OF _ r'(2)]
  ultimately show ?case
    using r'(1) Cons.prems(1) by (simp add: Let_def local_date_of_def)
qed

text \<open>
  C9. The overdue signal.  Whatever is stored, \<open>missed_anchor_instant\<close> raises nothing; it
  looks at the latest fire instant of yesterday and today whose grace has elapsed since the
  project became active, and reports it exactly when no capture happened at or after it.
\<close>

theorem missed_anchor_signal:
  assumes "uuid_ok uuid"
  shows "\<exists>latest. greatest_opt (elapsed_fires wd (enabled_anchors uuid (pl_anchors p)) (now_utc now) grace
        (as_utc since) (schedule_tz wd (pl_schedule p)) (pl_coords p) (resolve_zoneinfo wd (pl_coords p))) latest \<and>
    missed_anchor_instant wd uuid p since grace now =
      Inr (case (latest, as_utc (pl_last p)) of
             (Some t, Some l) \<Rightarrow> (if l < t then Some t else None)
           | _ \<Rightarrow> latest)"
proof -
  let ?as = "enabled_anchors uuid (pl_anchors p)"
  have "\<forall>a\<in>set ?as. wf_anchor a" using enabled_anchors_wf [OF assms] by blast
  moreover have "greatest_opt {} None" by (simp add: greatest_opt_def)
  ultimately obtain m where
    "missed_from wd ?as (now_utc now) grace (as_utc since) (schedule_tz wd (pl_schedule p)) (pl_coords p)
       (resolve_zoneinfo wd (pl_coords p)) None = Inr m"
    "greatest_opt (elapsed_fires wd ?as (now_utc now) grace (as_utc since) (schedule_tz wd (pl_schedule p))
       (pl_coords p) (resolve_zoneinfo wd (pl_coords p))) m"
    using missed_from_greatest [of ?as "{}" None] by fastforce
  then show ?thesis
    by (intro exI [of _ m]) (auto simp: missed_anchor_instant_def Let_def split: option.splits)
qed

theorem missed_anchor_signal_witness:
  "\<exists>r. missed_anchor_instant sample_world (\<lambda>_. ''ab'')
     \<lparr>pl_interval = None, pl_last = Some (Naive 0), pl_anchors = VList [serialize_anchor (sample_anchor ''06:00'' 0)],
      pl_schedule = None, pl_coords = (None, None), pl_start = None, pl_end = None, pl_finished = False\<rparr>
     None exact_time_grace (Aware (20543 * day_us)) = Inr r"
proof -
  have "uuid_ok (\<lambda>_. ''ab'')" by (simp add: uuid_ok_def) code_simp
  from missed_anchor_signal [OF this, of sample_world "\<lparr>pl_interval = None, pl_last = Some (Naive 0),
      pl_anchors = VList [serialize_anchor (sample_anchor ''06:00'' 0)],
      pl_schedule = None, pl_coords = (None, None), pl_start = None, pl_end = None, pl_finished = False\<rparr>"
      "Aware (20543 * day_us)" exact_time_grace None]
  show ?thesis by blast
qed

section \<open>The planned rate\<close>

text \<open>A progression with step one day meets a range of \<open>k\<close> days exactly \<open>k\<close> times.\<close>

lemma day_div:
  "(x::int) div day_us * day_us \<le> x" "x < x div day_us * day_us + day_us"
  using div_mult_mod_eq [of x day_us] pos_mod_bound [of day_us x] pos_mod_sign [of day_us x]
  by linarith+

lemma fires_in_range:
  fixes b sh :: int
  defines "d0 \<equiv> - ((sh - b) div day_us)"
  shows "{d. b \<le> d * day_us + sh \<and> d * day_us + sh < b + int k * day_us} = {d0..<d0 + int k}"
  using day_div [of "sh - b"] unfolding d0_def by auto

lemma anchor_fires_one_days:
  assumes wf: "wf_anchor a" "anc_kind a = Kind_clock"
    and st: "steady z off (b - 4 * day_us) (b + (int k + 4) * day_us)"
  shows "anchor_fires_one wd b (b + int k * day_us) z stz c a = Inr k"
proof -
  let ?e = "b + int k * day_us" and ?f = "clock_fire a off"
  have eff: "effective_tz a z stz = z"
    using wf by (auto simp: effective_tz_def is_solar_def split: option.splits)
  have loc: "local_of z b = b + off" "local_of z ?e = ?e + off"
    by (rule steadyD(1) [OF st]; simp)+
  define lo hi where "lo = day_of (b + off) - 1" and "hi = day_of (?e + off) + 1"
  note bounds = wf_clock(2,3) [OF wf] day_div [of "b + off"] day_div [of "?e + off"]
  have fire: "anchor_fire_instant wd a d z c = Inr (Some (?f d))" if "d \<in> set [lo..hi]" for d
    by (rule fire_steady [OF wf st])
      (use that bounds in \<open>auto simp: clock_fire_def lo_def hi_def day_of_def algebra_simps\<close>)
  define R where "R = {d. b \<le> ?f d \<and> ?f d < ?e}"
  have R: "R = {- ((clock_shift a - off - b) div day_us) ..< - ((clock_shift a - off - b) div day_us) + int k}"
    using fires_in_range [of b "clock_shift a - off" k] by (simp add: R_def clock_fire_def algebra_simps)
  have sub: "R \<subseteq> {lo..hi}"
    using bounds by (auto simp: R_def clock_fire_def lo_def hi_def day_of_def)
  have "length (filter (in_horizon b ?e) (map (\<lambda>d. Some (?f d)) [lo..hi])) = card (R \<inter> {lo..hi})"
    by (simp add: filter_map o_def in_horizon_def R_def Int_def conj_commute distinct_card [symmetric]
        del: card_Collect_less_nat)
  also have "R \<inter> {lo..hi} = R" using sub by blast
  also have "card R = k" by (simp add: R)
  finally show ?thesis
    using rmap_Inr [of "[lo..hi]" "\<lambda>d. anchor_fire_instant wd a d z c" "\<lambda>d. Some (?f d)"] fire
    by (simp add: anchor_fires_one_def eff loc lo_def hi_def Let_def)
qed

lemma anchor_fires_days:
  assumes "\<forall>a\<in>set as. wf_anchor a \<and> anc_kind a = Kind_clock"
    and "steady z off (b - 4 * day_us) (b + (int k + 4) * day_us)"
  shows "anchor_fires wd as b (b + int k * day_us) z c = Inr (k * length as)"
proof -
  have "rmap (anchor_fires_one wd b (b + int k * day_us) z stz c) as = Inr (map (\<lambda>_. k) as)" for stz
    using assms by (intro rmap_Inr anchor_fires_one_days) auto
  then show ?thesis by (simp add: anchor_fires_def Let_def sum_list_triv)
qed



end
