(* ===== verification/Redaction.thy ===== *)
theory Redaction
  imports Prelude
begin

text \<open>
  Secret redaction (\<open>logging.py\<close>): masking credentials in free text and in structured
  values before they reach the log or the event table.  Each regular expression is written
  as the matcher it denotes; a substitution scans from the left and continues behind each
  match, as \<open>re.sub\<close> does.
\<close>

section \<open>Matchers\<close>

definition is_alpha :: "char \<Rightarrow> bool" where
  "is_alpha c = (let n = (of_char c :: nat) in (65 \<le> n \<and> n \<le> 90) \<or> (97 \<le> n \<and> n \<le> 122))"

definition scheme_char :: "char \<Rightarrow> bool" where
  "scheme_char c \<longleftrightarrow> is_alpha c \<or> is_digit c \<or> c \<in> {CHR ''+'', CHR ''.'', CHR ''-''}"

text \<open>\<open>[a-zA-Z][a-zA-Z0-9+.\-]*://\<close> at the head of a string: the scheme and the rest.\<close>

definition match_scheme :: "string \<Rightarrow> (string \<times> string) option" where
  "match_scheme s =
     (case s of
        [] \<Rightarrow> None
      | c # cs \<Rightarrow>
         (if is_alpha c \<and> take 3 (dropWhile scheme_char cs) = ''://''
          then Some (c # takeWhile scheme_char cs @ ''://'', drop 3 (dropWhile scheme_char cs))
          else None))"

text \<open>
  A greedy repetition of a token, at least once, up to the last \<open>@\<close> it can be followed by:
  the text behind that \<open>@\<close>.  The tokens of both patterns are deterministic.
\<close>

type_synonym token = "string \<Rightarrow> string option"

definition plain_token :: token where
  "plain_token s = (case s of [] \<Rightarrow> None | c # cs \<Rightarrow> if c = CHR ''/'' \<or> is_space c then None else Some cs)"

definition serialized_token :: token where
  "serialized_token s =
     (case s of
        [] \<Rightarrow> None
      | c # cs \<Rightarrow>
         (if c = CHR 0x5C then (case cs of [] \<Rightarrow> None | d # ds \<Rightarrow> if d = CHR 0x0A then None else Some ds)
          else if c = CHR ''/'' \<or> is_space c \<or> c = CHR 0x22 \<or> c = CHR ''<'' \<or> c = CHR ''>'' then None
          else Some cs))"

text \<open>The fuel is the length of the text: every token is at least one character.\<close>

definition after_at :: "string \<Rightarrow> string option" where
  "after_at s = (case s of [] \<Rightarrow> None | c # r \<Rightarrow> if c = CHR ''@'' then Some r else None)"

fun upto_last_at :: "nat \<Rightarrow> token \<Rightarrow> bool \<Rightarrow> string \<Rightarrow> string option" where
  "upto_last_at 0 tok started s = (if started then after_at s else None)"
| "upto_last_at (Suc n) tok started s =
     (let here = (if started then after_at s else None) in
      case tok s of
        None \<Rightarrow> here
      | Some s' \<Rightarrow> (case upto_last_at n tok True s' of None \<Rightarrow> here | Some r \<Rightarrow> Some r))"

definition match_userinfo :: "token \<Rightarrow> string \<Rightarrow> string option" where
  "match_userinfo tok s = upto_last_at (length s) tok False s"

lemma after_at_shorter: "after_at s = Some r \<Longrightarrow> length r < length s"
  by (auto simp: after_at_def split: list.splits if_splits)

lemma upto_last_at_shorter:
  assumes "\<And>s s'. tok s = Some s' \<Longrightarrow> length s' < length s"
  shows "upto_last_at n tok st s = Some r \<Longrightarrow> length r < length s"
proof (induction n arbitrary: st s r)
  case 0
  then show ?case by (auto dest: after_at_shorter split: if_splits)
next
  case (Suc n)
  then consider "after_at s = Some r" | s' where "tok s = Some s'" "upto_last_at n tok True s' = Some r"
    by (auto simp: Let_def split: if_splits option.splits)
  then show ?case
    by cases (use Suc.IH assms after_at_shorter less_trans in blast)+
qed

lemma plain_token_shorter: "plain_token s = Some s' \<Longrightarrow> length s' < length s"
  by (auto simp: plain_token_def split: list.splits if_splits)

lemma serialized_token_shorter: "serialized_token s = Some s' \<Longrightarrow> length s' < length s"
  by (auto simp: serialized_token_def split: list.splits if_splits)

lemma match_scheme_eq: "match_scheme s = Some (sch, rest) \<Longrightarrow> s = sch @ rest \<and> 4 \<le> length sch"
proof -
  assume "match_scheme s = Some (sch, rest)"
  then obtain c cs where s: "s = c # cs" "take 3 (dropWhile scheme_char cs) = ''://''"
    "sch = c # takeWhile scheme_char cs @ ''://''" "rest = drop 3 (dropWhile scheme_char cs)"
    by (auto simp: match_scheme_def split: list.splits if_splits)
  have "cs = takeWhile scheme_char cs @ take 3 (dropWhile scheme_char cs) @ drop 3 (dropWhile scheme_char cs)"
    by simp
  with s show ?thesis by simp
qed

section \<open>Substitutions\<close>

definition userinfo_token :: "bool \<Rightarrow> token" where
  "userinfo_token serialized = (if serialized then serialized_token else plain_token)"

lemma userinfo_token_shorter: "userinfo_token b s = Some s' \<Longrightarrow> length s' < length s"
  by (simp add: userinfo_token_def plain_token_shorter serialized_token_shorter split: if_splits)

lemma userinfo_shrinks:
  assumes "match_scheme s = Some (sch, rest)" "match_userinfo (userinfo_token b) rest = Some r"
  shows "length r < length s"
proof -
  have "length r < length rest"
    by (rule upto_last_at_shorter [OF userinfo_token_shorter assms(2) [unfolded match_userinfo_def]])
  with match_scheme_eq [OF assms(1)] show ?thesis by auto
qed

function sub_userinfo :: "bool \<Rightarrow> string \<Rightarrow> string" where
  "sub_userinfo serialized s =
     (case s of
        [] \<Rightarrow> []
      | c # cs \<Rightarrow>
         (case match_scheme s of
            None \<Rightarrow> c # sub_userinfo serialized cs
          | Some (sch, rest) \<Rightarrow>
             (case match_userinfo (userinfo_token serialized) rest of
                None \<Rightarrow> c # sub_userinfo serialized cs
              | Some r \<Rightarrow> sch @ ''***@'' @ sub_userinfo serialized r)))"
  by pat_completeness auto
termination
  by (relation "measure (\<lambda>(b, s). length s)") (auto dest: userinfo_shrinks)

declare sub_userinfo.simps [simp del]

definition word_char :: "char \<Rightarrow> bool" where
  "word_char c = (let n = (of_char c :: nat) in is_alpha c \<or> is_digit c \<or> n = 95 \<or>
     n = 170 \<or> n = 178 \<or> n = 179 \<or> n = 181 \<or> (185 \<le> n \<and> n \<le> 186) \<or> (188 \<le> n \<and> n \<le> 190) \<or>
     (192 \<le> n \<and> n \<noteq> 215 \<and> n \<noteq> 247))"

definition key_char :: "char \<Rightarrow> bool" where
  "key_char c \<longleftrightarrow> word_char c \<or> c = CHR ''.'' \<or> c = CHR ''-''"

definition value_char :: "char \<Rightarrow> bool" where
  "value_char c \<longleftrightarrow> c \<notin> {CHR ''&'', CHR ''#'', CHR 0x22, CHR 0x27, CHR ''}'', CHR '']'', CHR '')'', CHR ''>''} \<and>
     \<not> is_space c"

fun contains :: "string \<Rightarrow> string \<Rightarrow> bool" where
  "contains pat [] = (pat = [])"
| "contains pat (c # cs) = (take (length pat) (c # cs) = pat \<or> contains pat cs)"

definition query_keywords :: "string list" where
  "query_keywords = [''token'', ''secret'', ''key'', ''password'', ''passwd'', ''pwd'', ''sig'', ''signature'',
     ''auth'', ''credential'']"

text \<open>The head of a string against the query pattern: key, value and rest.\<close>

definition match_query :: "string \<Rightarrow> (string \<times> string \<times> string) option" where
  "match_query s =
     (case s of
        [] \<Rightarrow> None
      | c # cs \<Rightarrow>
         (if (c = CHR ''?'' \<or> c = CHR ''&'') \<and>
             (\<exists>w\<in>set query_keywords. contains w (map ascii_lower (takeWhile key_char cs)))
          then (case dropWhile key_char cs of
                  [] \<Rightarrow> None
                | e # v \<Rightarrow>
                   (if e = CHR ''='' \<and> takeWhile value_char v \<noteq> []
                    then Some (takeWhile key_char cs, takeWhile value_char v, dropWhile value_char v) else None))
          else None))"

lemma match_query_eq:
  assumes "match_query (c # cs) = Some (key, value, rest)"
  shows "cs = key @ ''='' @ value @ rest"
proof -
  from assms obtain v where v: "dropWhile key_char cs = CHR ''='' # v" "key = takeWhile key_char cs"
    "value = takeWhile value_char v" "rest = dropWhile value_char v"
    by (auto simp: match_query_def split: if_splits list.splits)
  then show ?thesis using takeWhile_dropWhile_id [of key_char cs] by simp
qed

function sub_query :: "string \<Rightarrow> string" where
  "sub_query s =
     (case s of
        [] \<Rightarrow> []
      | c # cs \<Rightarrow>
         (case match_query s of
            None \<Rightarrow> c # sub_query cs
          | Some (key, value, rest) \<Rightarrow> c # key @ ''=***'' @ sub_query rest))"
  by pat_completeness auto
termination
  by (relation "measure length") (auto dest!: match_query_eq)

declare sub_query.simps [simp del]

definition redact_text :: "bool \<Rightarrow> string \<Rightarrow> string" where
  "redact_text serialized text = sub_query (sub_userinfo serialized text)"

definition secret_name_words :: "string list" where
  "secret_name_words = [''password'', ''token'', ''secret'', ''key'']"

definition is_secret_key :: "string \<Rightarrow> bool" where
  "is_secret_key name \<longleftrightarrow> (\<exists>w\<in>set secret_name_words. contains w (map ascii_lower name))"

fun redact :: "pyval \<Rightarrow> pyval" where
  "redact (VDict d) = VDict (map (\<lambda>(k, v). (k, if is_secret_key k then VStr ''***'' else redact v)) d)"
| "redact (VList xs) = VList (map redact xs)"
| "redact (VStr s) = VStr (redact_text False s)"
| "redact v = v"

section \<open>Query parameters\<close>

lemma sub_query_Nil [simp]: "sub_query [] = []"
  by (simp add: sub_query.simps)

lemma sub_query_Cons:
  "sub_query (c # cs) =
     (case match_query (c # cs) of None \<Rightarrow> c # sub_query cs
      | Some (key, value, rest) \<Rightarrow> c # key @ ''=***'' @ sub_query rest)"
  by (simp add: sub_query.simps [of "c # cs"])

lemma sub_query_head: "\<exists>t. sub_query (c # cs) = c # t"
  by (auto simp: sub_query_Cons split: option.splits)

lemma key_char_facts: "\<not> key_char (CHR ''?'')" "\<not> key_char (CHR ''&'')" "\<not> key_char (CHR ''='')"
  by code_simp+

lemma sub_query_key:
  "takeWhile key_char (sub_query s) = takeWhile key_char s \<and>
   dropWhile key_char (sub_query s) = sub_query (dropWhile key_char s)"
proof (induction s)
  case (Cons c cs)
  show ?case
  proof (cases "key_char c")
    case True
    then have "match_query (c # cs) = None"
      using key_char_facts by (auto simp: match_query_def)
    with Cons True show ?thesis by (simp add: sub_query_Cons)
  next
    case False
    with sub_query_head [of c cs] show ?thesis by auto
  qed
qed simp

definition query_masked :: "string \<Rightarrow> bool" where
  "query_masked u \<longleftrightarrow> (\<forall>key value rest. match_query u = Some (key, value, rest) \<longrightarrow> value = ''***'')"

definition queries_masked :: "string \<Rightarrow> bool" where
  "queries_masked t \<longleftrightarrow> (\<forall>p u. t = p @ u \<longrightarrow> query_masked u)"

lemma queries_masked_Nil: "queries_masked []"
  by (simp add: queries_masked_def query_masked_def match_query_def)

lemma queries_masked_Cons: "queries_masked (c # t) \<longleftrightarrow> query_masked (c # t) \<and> queries_masked t"
  unfolding queries_masked_def by (auto simp: Cons_eq_append_conv)

lemma queries_masked_skip:
  "\<forall>x\<in>set xs. x \<noteq> CHR ''?'' \<and> x \<noteq> CHR ''&'' \<Longrightarrow> queries_masked (xs @ t) \<longleftrightarrow> queries_masked t"
  by (induction xs) (auto simp: queries_masked_Cons query_masked_def match_query_def)

lemma takeWhile_sub_query_value:
  assumes "v = [] \<or> \<not> value_char (hd v)"
  shows "takeWhile value_char (''***'' @ sub_query v) = ''***''"
proof -
  have "takeWhile value_char (sub_query v) = []"
    using assms sub_query_head [of "hd v" "tl v"] by (cases v) auto
  moreover have "value_char (CHR ''*'')" by code_simp
  ultimately show ?thesis by simp
qed

lemma match_query_rest: "match_query (c # cs) = Some (key, value, rest) \<Longrightarrow> rest = [] \<or> \<not> value_char (hd rest)"
  by (auto simp: match_query_def split: if_splits list.splits dest: hd_dropWhile)

lemma match_query_masked:
  assumes "match_query (c # cs) = Some (key, value, rest)"
  shows "match_query (c # key @ ''=***'' @ sub_query rest) = Some (key, ''***'', dropWhile value_char (sub_query rest))"
proof -
  have k: "\<forall>x\<in>set key. key_char x" "takeWhile key_char cs = key"
    and kw: "c = CHR ''?'' \<or> c = CHR ''&''" "\<exists>w\<in>set query_keywords. contains w (map ascii_lower key)"
    using assms by (auto simp: match_query_def split: if_splits list.splits dest: set_takeWhileD)
  have "takeWhile key_char (key @ CHR ''='' # t) = key" "dropWhile key_char (key @ CHR ''='' # t) = CHR ''='' # t" for t
    using k(1) key_char_facts(3) by (auto simp: takeWhile_append dropWhile_append)
  moreover have "value_char (CHR ''*'')" by code_simp
  ultimately show ?thesis
    using kw takeWhile_sub_query_value [OF match_query_rest [OF assms]] by (simp add: match_query_def)
qed

lemma match_query_unmasked:
  assumes "match_query (c # cs) = None"
  shows "match_query (c # sub_query cs) = None"
proof (cases "dropWhile key_char cs")
  case Nil
  then have "dropWhile key_char (sub_query cs) = []" using sub_query_key [of cs] by (simp only: sub_query_Nil)
  then show ?thesis by (simp add: match_query_def del: dropWhile_eq_Nil_conv)
next
  case (Cons e v)
  have same: "takeWhile value_char (sub_query v) = [] \<longleftrightarrow> takeWhile value_char v = []"
    using sub_query_head [of "hd v" "tl v"] by (cases v) auto
  obtain t where t: "sub_query (e # v) = e # t" using sub_query_head by blast
  have "t = sub_query v" if "e = CHR ''=''"
    using t that by (simp add: sub_query_Cons match_query_def)
  with t same assms Cons sub_query_key [of cs] show ?thesis
    by (auto simp: match_query_def split: if_splits)
qed

lemma sub_query_masked: "queries_masked (sub_query s)"
proof (induction s rule: sub_query.induct)
  case (1 s)
  show ?case
  proof (cases s)
    case Nil
    then show ?thesis by (simp add: queries_masked_Nil)
  next
    case s: (Cons c cs)
    show ?thesis
    proof (cases "match_query s")
      case None
      with 1 s show ?thesis
        by (simp add: sub_query_Cons queries_masked_Cons query_masked_def match_query_unmasked)
    next
      case (Some p)
      then obtain key vl rest where m: "match_query (c # cs) = Some (key, vl, rest)" "p = (key, vl, rest)"
        using s by (cases p) auto
      have "queries_masked (sub_query rest)" using 1(2) [OF s Some] m(2) by simp
      moreover have "\<forall>x\<in>set (key @ ''=***''). x \<noteq> CHR ''?'' \<and> x \<noteq> CHR ''&''"
        using m key_char_facts by (auto simp: match_query_def split: if_splits list.splits dest: set_takeWhileD)
      ultimately show ?thesis
        using m match_query_masked [OF m(1)] s queries_masked_skip [of "key @ ''=***''" "sub_query rest"]
        by (simp add: sub_query_Cons queries_masked_Cons query_masked_def)
    qed
  qed
qed

section \<open>URL credentials\<close>

abbreviation run_char :: "char \<Rightarrow> bool" where
  "run_char c \<equiv> c \<noteq> CHR ''/'' \<and> \<not> is_space c"

lemma at_char: "run_char (CHR ''@'')" "\<not> is_alpha (CHR ''@'')" "\<not> is_alpha (CHR ''*'')" "\<not> is_alpha (CHR '':'')"
  "\<not> is_alpha (CHR ''/'')" "\<not> scheme_char (CHR '':'')" "\<not> scheme_char (CHR ''/'')"
  by code_simp+

lemma plain_token_Cons: "plain_token (c # cs) = (if run_char c then Some cs else None)"
  by (simp add: plain_token_def)

text \<open>What the greedy match of the plain pattern finds: the last \<open>@\<close> of the run.\<close>

lemma upto_last_at_sound:
  "upto_last_at (length s) plain_token st s = Some r \<Longrightarrow>
   \<exists>u. s = u @ CHR ''@'' # r \<and> (st \<or> u \<noteq> []) \<and> (\<forall>c\<in>set u. run_char c) \<and> CHR ''@'' \<notin> set (takeWhile run_char r)"
proof (induction s arbitrary: st)
  case Nil
  then show ?case by (simp add: after_at_def split: if_splits)
next
  case (Cons c cs)
  show ?case
  proof (cases "upto_last_at (length cs) plain_token True cs")
    case (Some r')
    show ?thesis
    proof (cases "run_char c")
      case True
      with Cons.prems Some have "r' = r" by (simp add: plain_token_Cons)
      with Cons.IH [of True] Some obtain u where "cs = u @ CHR ''@'' # r" "\<forall>c\<in>set u. run_char c"
        "CHR ''@'' \<notin> set (takeWhile run_char r)" by auto
      with True show ?thesis by (intro exI [of _ "c # u"]) simp
    next
      case False
      with Cons.prems at_char show ?thesis by (auto simp: plain_token_Cons after_at_def split: if_splits)
    qed
  next
    case None
    have here: "st" "c = CHR ''@''" "cs = r"
      using Cons.prems None by (auto simp: Let_def plain_token_Cons after_at_def split: if_splits)
    have "CHR ''@'' \<notin> set (takeWhile run_char r)"
    proof
      assume "CHR ''@'' \<in> set (takeWhile run_char r)"
      then obtain ys zs where ys: "takeWhile run_char r = ys @ CHR ''@'' # zs" by (auto dest: split_list)
      have "upto_last_at (length w) plain_token True w \<noteq> None" if "takeWhile run_char w = ys @ CHR ''@'' # zs" for w
        using that
      proof (induction w arbitrary: ys)
        case (Cons x w)
        then show ?case
          by (cases ys) (auto simp: Let_def plain_token_Cons after_at_def split: if_splits option.splits)
      qed simp
      with ys None here show False by blast
    qed
    with here show ?thesis by (intro exI [of _ "[]"]) simp
  qed
qed

lemma match_userinfo_sound:
  assumes "match_userinfo plain_token s = Some r"
  obtains u where "s = u @ CHR ''@'' # r" "u \<noteq> []" "\<forall>c\<in>set u. run_char c" "CHR ''@'' \<notin> set (takeWhile run_char r)"
  using upto_last_at_sound [OF assms [unfolded match_userinfo_def]] by auto

lemma upto_last_at_complete:
  "takeWhile run_char s = u @ CHR ''@'' # x \<Longrightarrow> st \<or> u \<noteq> [] \<Longrightarrow> upto_last_at (length s) plain_token st s \<noteq> None"
proof (induction s arbitrary: u st)
  case (Cons c s)
  show ?case
  proof (cases u)
    case Nil
    with Cons.prems show ?thesis
      by (auto simp: Let_def plain_token_Cons after_at_def split: if_splits option.splits)
  next
    case (Cons d u')
    with Cons.prems have "run_char c" "takeWhile run_char s = u' @ CHR ''@'' # x" by (auto split: if_splits)
    with Cons.IH [of u' True] show ?thesis by (auto simp: Let_def plain_token_Cons split: option.splits)
  qed
qed simp

lemma match_userinfo_complete:
  "takeWhile run_char s = u @ CHR ''@'' # x \<Longrightarrow> u \<noteq> [] \<Longrightarrow> match_userinfo plain_token s \<noteq> None"
  by (simp only: match_userinfo_def upto_last_at_complete simp_thms)

lemma sub_userinfo_Nil [simp]: "sub_userinfo b [] = []"
  by (simp add: sub_userinfo.simps)

lemma sub_userinfo_cases:
  obtains (keep) "sub_userinfo False (c # cs) = c # sub_userinfo False cs"
      "\<And>sch w. match_scheme (c # cs) = Some (sch, w) \<Longrightarrow> match_userinfo plain_token w = None"
    | (mask) sch w r where "match_scheme (c # cs) = Some (sch, w)" "match_userinfo plain_token w = Some r"
      "sub_userinfo False (c # cs) = sch @ ''***@'' @ sub_userinfo False r"
proof (cases "match_scheme (c # cs)")
  case None
  then show ?thesis by (intro keep) (simp_all add: sub_userinfo.simps [of False "c # cs"])
next
  case (Some p)
  obtain sch w where p: "p = (sch, w)" by (cases p)
  show ?thesis
  proof (cases "match_userinfo plain_token w")
    case None
    with Some p show ?thesis
      by (intro keep) (simp_all add: sub_userinfo.simps [of False "c # cs"] userinfo_token_def)
  next
    case (Some r)
    with \<open>match_scheme (c # cs) = Some p\<close> p show ?thesis
      by (intro mask [of sch w r]) (simp_all add: sub_userinfo.simps [of False "c # cs"] userinfo_token_def)
  qed
qed

lemma sub_userinfo_not_alpha: "\<not> is_alpha c \<Longrightarrow> sub_userinfo b (c # cs) = c # sub_userinfo b cs"
  by (simp add: sub_userinfo.simps [of b "c # cs"] match_scheme_def)

lemma match_schemeD:
  assumes "match_scheme s = Some (sch, w)"
  obtains c a where "sch = c # a @ ''://''" "is_alpha c" "\<forall>x\<in>set a. scheme_char x" "s = c # a @ ''://'' @ w"
proof -
  from assms obtain c cs where s: "s = c # cs" "is_alpha c" "sch = c # takeWhile scheme_char cs @ ''://''"
    by (auto simp: match_scheme_def split: list.splits if_splits)
  with match_scheme_eq [OF assms] show ?thesis
    by (intro that [of c "takeWhile scheme_char cs"]) (auto dest: set_takeWhileD)
qed

lemma match_schemeI:
  assumes "is_alpha c" "\<forall>x\<in>set a. scheme_char x"
  shows "match_scheme (c # a @ ''://'' @ w) = Some (c # a @ ''://'', w)"
proof -
  have "takeWhile scheme_char (a @ CHR '':'' # t) = a" "dropWhile scheme_char (a @ CHR '':'' # t) = CHR '':'' # t" for t
    using assms(2) at_char(6) by (auto simp: takeWhile_append dropWhile_append)
  with assms(1) show ?thesis by (simp add: match_scheme_def)
qed

lemma takeWhile_sub_userinfo:
  assumes "\<not> P (CHR ''/'')"
  shows "takeWhile P (sub_userinfo False s) = takeWhile P s"
proof (induction s)
  case (Cons c cs)
  show ?case
  proof (cases c cs rule: sub_userinfo_cases)
    case keep
    with Cons show ?thesis by simp
  next
    case (mask sch w r)
    from mask(1) obtain d a where "sch = d # a @ ''://''" "c # cs = d # a @ ''://'' @ w" by (rule match_schemeD)
    with mask(3) assms show ?thesis by (simp add: takeWhile_append)
  qed
qed simp

definition is_scheme :: "string \<Rightarrow> bool" where
  "is_scheme sch \<longleftrightarrow> (\<exists>c a. sch = c # a @ ''://'' \<and> is_alpha c \<and> (\<forall>x\<in>set a. scheme_char x))"

text \<open>Every \<open>scheme://userinfo@\<close> in a text has the mask for its userinfo.\<close>

definition userinfo_masked :: "string \<Rightarrow> bool" where
  "userinfo_masked t \<longleftrightarrow>
     (\<forall>p sch u r. t = p @ sch @ u @ ''@'' @ r \<longrightarrow> is_scheme sch \<longrightarrow> u \<noteq> [] \<longrightarrow> (\<forall>c\<in>set u. run_char c) \<longrightarrow>
        u = ''***'')"

definition head_masked :: "string \<Rightarrow> bool" where
  "head_masked t \<longleftrightarrow>
     (\<forall>sch u r. t = sch @ u @ ''@'' @ r \<longrightarrow> is_scheme sch \<longrightarrow> u \<noteq> [] \<longrightarrow> (\<forall>c\<in>set u. run_char c) \<longrightarrow> u = ''***'')"

lemma userinfo_masked_Nil: "userinfo_masked []"
  by (simp add: userinfo_masked_def)

lemma userinfo_masked_Cons: "userinfo_masked (c # t) \<longleftrightarrow> head_masked (c # t) \<and> userinfo_masked t"
proof
  assume m: "userinfo_masked (c # t)"
  have "userinfo_masked t"
    unfolding userinfo_masked_def
  proof (intro allI impI)
    fix p sch u r
    assume "t = p @ sch @ u @ ''@'' @ r" "is_scheme sch" "u \<noteq> []" "\<forall>c\<in>set u. run_char c"
    then show "u = ''***''" using m [unfolded userinfo_masked_def, rule_format, of "c # p" sch u r] by simp
  qed
  moreover have "head_masked (c # t)"
    unfolding head_masked_def
  proof (intro allI impI)
    fix sch u r
    assume "c # t = sch @ u @ ''@'' @ r" "is_scheme sch" "u \<noteq> []" "\<forall>c\<in>set u. run_char c"
    then show "u = ''***''" using m [unfolded userinfo_masked_def, rule_format, of "[]" sch u r] by simp
  qed
  ultimately show "head_masked (c # t) \<and> userinfo_masked t" by simp
next
  assume m: "head_masked (c # t) \<and> userinfo_masked t"
  show "userinfo_masked (c # t)"
    unfolding userinfo_masked_def
  proof (intro allI impI)
    fix p sch u r
    assume e: "c # t = p @ sch @ u @ ''@'' @ r" and u: "is_scheme sch" "u \<noteq> []" "\<forall>c\<in>set u. run_char c"
    show "u = ''***''"
    proof (cases p)
      case Nil
      with e have "c # t = sch @ u @ ''@'' @ r" by simp
      with u m show ?thesis unfolding head_masked_def by blast
    next
      case (Cons d p')
      with e have "t = p' @ sch @ u @ ''@'' @ r" by simp
      with u m show ?thesis unfolding userinfo_masked_def by blast
    qed
  qed
qed

lemma head_masked_not_alpha:
  assumes "\<not> is_alpha c"
  shows "head_masked (c # t)"
  unfolding head_masked_def
proof (intro allI impI)
  fix sch u r
  assume e: "c # t = sch @ u @ ''@'' @ r" and "is_scheme sch"
  then obtain d a where "sch = d # a @ ''://''" "is_alpha d" unfolding is_scheme_def by blast
  with e assms show "u = ''***''" by simp
qed

lemma takeWhile_scheme: "\<forall>c\<in>set a. scheme_char c \<Longrightarrow> takeWhile scheme_char (a @ ''://'' @ x) = a"
  using at_char(6) by (simp add: takeWhile_append)

lemma scheme_unique:
  assumes "a @ ''://'' @ x = b @ ''://'' @ y" "\<forall>c\<in>set a. scheme_char c" "\<forall>c\<in>set b. scheme_char c"
  shows "a = b \<and> x = y"
proof -
  have "a = takeWhile scheme_char (b @ ''://'' @ y)"
    using takeWhile_scheme [OF assms(2), of x] unfolding assms(1) by (rule sym)
  also have "\<dots> = b" by (rule takeWhile_scheme [OF assms(3)])
  finally have "a = b" .
  with assms(1) show ?thesis by simp
qed

lemma mask_unique:
  assumes "''***@'' @ t = u @ ''@'' @ r" "u \<noteq> []" "\<forall>c\<in>set u. run_char c" "CHR ''@'' \<notin> set (takeWhile run_char t)"
  shows "u = ''***''"
proof -
  from assms(1) consider us where "''***@'' = u @ us" "us @ t = ''@'' @ r" | us where "u = ''***@'' @ us" "t = us @ ''@'' @ r"
    unfolding append_eq_append_conv2 by blast
  then show ?thesis
  proof cases
    case 1
    with assms(2,4) at_char(1) show ?thesis by (auto simp: Cons_eq_append_conv)
  next
    case 2
    with assms(3) have "takeWhile run_char t = us @ takeWhile run_char (''@'' @ r)" by (simp add: takeWhile_append)
    with assms(4) at_char(1) show ?thesis by simp
  qed
qed

lemma masked_scheme:
  assumes "userinfo_masked t" "CHR ''@'' \<notin> set (takeWhile run_char t)" "\<forall>x\<in>set a. scheme_char x"
  shows "userinfo_masked (a @ ''://***@'' @ t)"
  using assms(3)
proof (induction a)
  case Nil
  show ?case using assms(1) by (simp add: userinfo_masked_Cons head_masked_not_alpha at_char)
next
  case (Cons x a)
  have "head_masked (x # a @ ''://***@'' @ t)"
    unfolding head_masked_def
  proof (intro allI impI)
    fix sch u r
    assume e: "x # a @ ''://***@'' @ t = sch @ u @ ''@'' @ r" and u: "is_scheme sch" "u \<noteq> []" "\<forall>c\<in>set u. run_char c"
    from u(1) obtain c b where b: "sch = c # b @ ''://''" "\<forall>x\<in>set b. scheme_char x" by (auto simp: is_scheme_def)
    have a: "\<forall>x\<in>set a. scheme_char x" using Cons.prems by simp
    have "a @ ''://'' @ (''***@'' @ t) = b @ ''://'' @ (u @ ''@'' @ r)" using e b(1) by simp
    note eq = conjunct2 [OF scheme_unique [OF this a b(2)]]
    show "u = ''***''" by (rule mask_unique [OF eq u(2,3) assms(2)])
  qed
  with Cons show ?case by (simp add: userinfo_masked_Cons)
qed

lemma sub_userinfo_scheme_prefix:
  assumes "\<forall>x\<in>set a. scheme_char x" "match_userinfo plain_token w = None"
  shows "sub_userinfo False (a @ ''://'' @ w) = a @ ''://'' @ sub_userinfo False w"
  using assms(1)
proof (induction a)
  case Nil
  show ?case by (simp add: sub_userinfo_not_alpha at_char)
next
  case (Cons x a)
  show ?case
  proof (cases x "a @ ''://'' @ w" rule: sub_userinfo_cases)
    case keep
    with Cons show ?thesis by simp
  next
    case (mask sch v r)
    from mask(1) obtain c b where "x # a @ ''://'' @ w = c # b @ ''://'' @ v" "\<forall>x\<in>set b. scheme_char x"
      by (rule match_schemeD)
    then have "v = w" using Cons.prems scheme_unique [of a w b v] by simp
    with mask(2) assms(2) show ?thesis by simp
  qed
qed

lemma sub_userinfo_scheme_inv:
  assumes "sub_userinfo False s = a @ ''://'' @ t" "\<forall>x\<in>set a. scheme_char x"
  shows "\<exists>w. s = a @ ''://'' @ w"
  using assms
proof (induction a arbitrary: s)
  case Nil
  have step: "\<exists>xs. s = x # xs \<and> sub_userinfo False xs = y" if "sub_userinfo False s = x # y" "\<not> is_alpha x" for s x y
  proof (cases s)
    case (Cons c cs)
    then show ?thesis
    proof (cases c cs rule: sub_userinfo_cases)
      case (mask sch w r)
      from mask(1) obtain d b where "sch = d # b @ ''://''" "is_alpha d" by (rule match_schemeD)
      with mask(3) that Cons show ?thesis by simp
    qed (use that Cons in simp)
  qed (use that in simp)
  have "sub_userinfo False s = CHR '':'' # CHR ''/'' # CHR ''/'' # t" using Nil by simp
  from step [OF this at_char(4)] obtain s1 where "s = CHR '':'' # s1" "sub_userinfo False s1 = CHR ''/'' # CHR ''/'' # t" by blast
  moreover from step [OF this(2) at_char(5)] obtain s2 where "s1 = CHR ''/'' # s2" "sub_userinfo False s2 = CHR ''/'' # t" by blast
  moreover from step [OF this(2) at_char(5)] obtain s3 where "s2 = CHR ''/'' # s3" by blast
  ultimately show ?case by simp
next
  case (Cons x a)
  then obtain c cs where s: "s = c # cs" by (cases s) auto
  show ?case
  proof (cases c cs rule: sub_userinfo_cases)
    case keep
    with Cons s have "c = x" "\<exists>w. cs = a @ ''://'' @ w" by auto
    with s show ?thesis by simp
  next
    case (mask sch w r)
    from mask(1) obtain d b where d: "sch = d # b @ ''://''" "\<forall>x\<in>set b. scheme_char x" "c # cs = d # b @ ''://'' @ w"
      by (rule match_schemeD)
    with mask(3) Cons.prems(1) s have "d = x" "a @ ''://'' @ t = b @ ''://'' @ (''***@'' @ sub_userinfo False r)" by auto
    moreover have "\<forall>x\<in>set a. scheme_char x" using Cons.prems(2) by simp
    ultimately have "a = b" using scheme_unique d(2) by blast
    with d \<open>d = x\<close> s show ?thesis by simp
  qed
qed

lemma head_masked_keep:
  assumes keep: "\<And>sch w. match_scheme (c # cs) = Some (sch, w) \<Longrightarrow> match_userinfo plain_token w = None"
  shows "head_masked (c # sub_userinfo False cs)"
  unfolding head_masked_def
proof (intro allI impI)
  fix sch u r
  assume e: "c # sub_userinfo False cs = sch @ u @ ''@'' @ r" and sch: "is_scheme sch"
    and u: "u \<noteq> []" "\<forall>c\<in>set u. run_char c"
  from sch obtain d a where a: "sch = d # a @ ''://''" "is_alpha d" "\<forall>x\<in>set a. scheme_char x"
    unfolding is_scheme_def by blast
  with e have sub: "sub_userinfo False cs = a @ ''://'' @ (u @ ''@'' @ r)" and "d = c" by simp_all
  from sub_userinfo_scheme_inv [OF sub a(3)] obtain w where w: "cs = a @ ''://'' @ w" by blast
  have none: "match_userinfo plain_token w = None"
    using keep match_schemeI [OF a(2,3), of w] w \<open>d = c\<close> by simp
  have "sub_userinfo False w = u @ ''@'' @ r"
    using sub_userinfo_scheme_prefix [OF a(3) none] sub w by simp
  then have "takeWhile run_char w = takeWhile run_char (u @ ''@'' @ r)"
    using takeWhile_sub_userinfo [of run_char w] by simp
  also have "\<dots> = u @ CHR ''@'' # takeWhile run_char r"
    using u(2) at_char(1) by (simp add: takeWhile_append)
  finally show "u = ''***''" using match_userinfo_complete u(1) none by blast
qed

lemma sub_userinfo_masked: "userinfo_masked (sub_userinfo False s)"
proof (induction "length s" arbitrary: s rule: less_induct)
  case less
  show ?case
  proof (cases s)
    case Nil
    then show ?thesis by (simp add: userinfo_masked_Nil)
  next
    case (Cons c cs)
    show ?thesis
    proof (cases c cs rule: sub_userinfo_cases)
      case keep
      with less [of cs] Cons head_masked_keep [OF keep(2)] show ?thesis
        by (simp add: userinfo_masked_Cons)
    next
      case (mask sch w r)
      from mask(1) obtain d a where d: "sch = d # a @ ''://''" "is_alpha d" "\<forall>x\<in>set a. scheme_char x"
        by (rule match_schemeD)
      have "length r < length s" using userinfo_shrinks [of s sch w False r] mask Cons by (simp add: userinfo_token_def)
      then have m: "userinfo_masked (sub_userinfo False r)" by (rule less)
      from mask(2) have at: "CHR ''@'' \<notin> set (takeWhile run_char r)" by (rule match_userinfo_sound)
      then have "CHR ''@'' \<notin> set (takeWhile run_char (sub_userinfo False r))"
        by (simp add: takeWhile_sub_userinfo)
      moreover have "\<forall>x\<in>set (d # a). scheme_char x" using d by (simp add: scheme_char_def)
      ultimately have "userinfo_masked ((d # a) @ ''://***@'' @ sub_userinfo False r)" by (rule masked_scheme [OF m])
      with mask(3) d(1) Cons show ?thesis by simp
    qed
  qed
qed

section \<open>Structured values\<close>

text \<open>No value under a secret-looking key, at any depth, other than the mask.\<close>

fun secrets_masked :: "pyval \<Rightarrow> bool" where
  "secrets_masked (VDict d) = (\<forall>(k, v) \<in> set d. secrets_masked v \<and> (is_secret_key k \<longrightarrow> v = VStr ''***''))"
| "secrets_masked (VList xs) = (\<forall>v \<in> set xs. secrets_masked v)"
| "secrets_masked (VStr s) = queries_masked s"
| "secrets_masked v = True"

lemma mask_clean: "queries_masked ''***''"
  by (simp add: queries_masked_Cons queries_masked_Nil query_masked_def match_query_def)

lemma redact_masked: "secrets_masked (redact v)"
proof (induction v rule: redact.induct)
  case (1 d)
  show ?case
  proof (simp, intro ballI, clarsimp)
    fix k v assume kv: "(k, v) \<in> set d"
    have "secrets_masked (redact v)" if "\<not> is_secret_key k" using 1 [OF kv refl that] .
    then show "(is_secret_key k \<longrightarrow> queries_masked ''***'') \<and> (\<not> is_secret_key k \<longrightarrow> secrets_masked (redact v))"
      by (simp add: mask_clean)
  qed
next
  case (3 s)
  then show ?case by (simp add: redact_text_def sub_query_masked)
qed auto

text \<open>
  C11. No credential survives redaction.  In a redacted free text every
  \<open>scheme://userinfo@\<close> left by the userinfo pass has the mask for its userinfo, whatever
  characters the password holds and however many at signs it has; every query parameter
  with a secret-looking name in the final text has the mask for its value; and in a redacted
  structured value every entry under a secret-looking key, at any depth, is the mask.
\<close>

theorem redaction_complete:
  "userinfo_masked (sub_userinfo False text) \<and> queries_masked (redact_text serialized text) \<and>
   secrets_masked (redact v)"
  by (simp add: sub_userinfo_masked redact_text_def sub_query_masked redact_masked)

end
