(* ===== verification/Event_Log.thy ===== *)
theory Event_Log
  imports Redaction "HOL-Library.Product_Lexorder" "HOL-Library.Multiset"
begin

text \<open>
  The event table and what reads and writes it: logging and queries
  (\<open>monitoring/events.py\<close>), active alerts (\<open>monitoring/alerts.py\<close>) and retention
  (\<open>monitoring/event_retention.py\<close>, \<open>db/batched_delete.py\<close>).  The table is the list of
  its rows in id order; a statement is a function on it.  Timestamps are naive UTC.
\<close>

section \<open>Rows and levels\<close>

record event =
  ev_id :: int
  ev_scope :: string
  ev_scope_id :: "int option"
  ev_level :: string
  ev_timestamp :: int
  ev_message :: string
  ev_actor_user_id :: "int option"
  ev_metadata :: pyval
  ev_cleared_at :: "int option"
  ev_cleared_by :: "int option"
  ev_clear_reason :: "string option"

definition level_rank :: "(string \<times> nat) list" where
  "level_rank = [(''debug'', 0), (''info'', 1), (''warning'', 2), (''error'', 3), (''critical'', 4)]"

definition levels_at_or_above :: "string \<Rightarrow> string list" where
  "levels_at_or_above flr =
     (case map_of level_rank flr of
        None \<Rightarrow> map fst level_rank
      | Some floor_rank \<Rightarrow> map fst (filter (\<lambda>(name, rank). rank \<ge> floor_rank) level_rank))"

definition audit_event_types :: "string list" where
  "audit_event_types = [''security.auth_event'', ''audit.control_action'']"

text \<open>
  \<open>json_extract(metadata, '$.k') IN (...)\<close> for a list of texts: true only for a JSON text;
  \<open>json_extract(...) IS NULL\<close> for a missing key, a JSON null or no details at all.
\<close>

definition json_get :: "pyval \<Rightarrow> string \<Rightarrow> pyval" where
  "json_get details k = (case details of VDict d \<Rightarrow> dict_get d k VNone | _ \<Rightarrow> VNone)"

definition json_in :: "pyval \<Rightarrow> string \<Rightarrow> string list \<Rightarrow> bool" where
  "json_in details k texts = (case json_get details k of VStr s \<Rightarrow> s \<in> set texts | _ \<Rightarrow> False)"

section \<open>Logging\<close>

text \<open>The id SQLite gives a new row of a table without \<open>AUTOINCREMENT\<close>: the largest plus one.\<close>

definition newest_id :: "event list \<Rightarrow> int" where
  "newest_id evs = foldr (\<lambda>e m. max (ev_id e) m) evs 0"

definition build_details :: "string option \<Rightarrow> pyval \<Rightarrow> pyval" where
  "build_details typ metadata =
     (if typ = None \<and> metadata = VNone then VNone
      else
       (let redacted = (if metadata \<noteq> VNone then redact metadata else VDict []);
            details = (case redacted of VDict d \<Rightarrow> d | _ \<Rightarrow> [])
        in VDict (case typ of None \<Rightarrow> details | Some t \<Rightarrow> dict_set details ''type'' (VStr t))))"

record log_args =
  la_scope :: string
  la_scope_id :: "int option"
  la_level :: string
  la_message :: string
  la_type :: "string option"
  la_metadata :: pyval
  la_actor :: "int option"

text \<open>\<open>flush_ok\<close> says whether the insert succeeded; a failure is logged and swallowed.\<close>

definition log_event :: "bool \<Rightarrow> int \<Rightarrow> log_args \<Rightarrow> event list \<Rightarrow> event list" where
  "log_event flush_ok now a evs =
     (if \<not> flush_ok then evs
      else evs @ [\<lparr>ev_id = newest_id evs + 1, ev_scope = la_scope a, ev_scope_id = la_scope_id a,
                   ev_level = la_level a, ev_timestamp = now, ev_message = redact_text False (la_message a),
                   ev_actor_user_id = la_actor a, ev_metadata = build_details (la_type a) (la_metadata a),
                   ev_cleared_at = None, ev_cleared_by = None, ev_clear_reason = None\<rparr>])"

section \<open>Reading\<close>

record event_filter =
  ef_scope :: "string option"
  ef_scope_id :: "int option"
  ef_level_floor :: "string option"

definition apply_event_filters :: "event_filter \<Rightarrow> event \<Rightarrow> bool" where
  "apply_event_filters f e \<longleftrightarrow>
     (case ef_scope f of None \<Rightarrow> True | Some s \<Rightarrow> ev_scope e = s) \<and>
     (case ef_scope_id f of None \<Rightarrow> True | Some i \<Rightarrow> ev_scope_id e = Some i) \<and>
     (case ef_level_floor f of None \<Rightarrow> True | Some l \<Rightarrow> ev_level e \<in> set (levels_at_or_above l))"

text \<open>\<open>order_by(timestamp.desc(), id.desc()).limit(max(1, limit)).offset(max(0, offset))\<close>.\<close>

definition newest_first :: "event list \<Rightarrow> event list" where
  "newest_first evs = sort_key (\<lambda>e. (- ev_timestamp e, - ev_id e)) evs"

definition page_of :: "int \<Rightarrow> int \<Rightarrow> 'a list \<Rightarrow> 'a list" where
  "page_of limit offset xs = take (nat (max 1 limit)) (drop (nat (max 0 offset)) xs)"

definition get_events :: "event_filter \<Rightarrow> int \<Rightarrow> int \<Rightarrow> event list \<Rightarrow> event list \<times> nat" where
  "get_events f limit offset evs =
     (let matching = filter (apply_event_filters f) evs
      in (page_of limit offset (newest_first matching), length matching))"

definition get_audit_events ::
  "string option \<Rightarrow> event_filter \<Rightarrow> int \<Rightarrow> int \<Rightarrow> event list \<Rightarrow> (event list \<times> nat) res" where
  "get_audit_events role f limit offset evs =
     (if role \<noteq> Some ''admin'' then Inl (PermissionError ''Admin role required to read the audit log.'')
      else
       (let matching = filter (apply_event_filters f)
              (filter (\<lambda>e. json_in (ev_metadata e) ''type'' audit_event_types) evs)
        in Inr (page_of limit offset (newest_first matching), length matching)))"

section \<open>Active alerts\<close>

definition alert_level_threshold :: string where "alert_level_threshold = ''warning''"

definition open_alert_index_levels :: "string list" where
  "open_alert_index_levels = [''warning'', ''error'', ''critical'']"

definition resolve_to_raise_reasons :: "(string \<times> string list) list" where
  "resolve_to_raise_reasons =
     [(''disk_recovered'', [''low_disk'']), (''camera_recovered'', [''camera_offline'']),
      (''anchor_recovered'', [''anchor_failed'']), (''events_available'', [''events_unavailable''])]"

record active_alert =
  aa_id :: int
  aa_scope :: string
  aa_scope_id :: "int option"
  aa_level :: string
  aa_message :: string
  aa_timestamp :: int
  aa_event_type :: "string option"
  aa_reason :: "string option"
  aa_metadata :: pyval

definition detail_text :: "(pyval \<Rightarrow> string) \<Rightarrow> string \<Rightarrow> pyval \<Rightarrow> string option" where
  "detail_text repr k details =
     (case json_get details k of VNone \<Rightarrow> None | v \<Rightarrow> Some (py_str repr v))"

definition reason_of :: "(pyval \<Rightarrow> string) \<Rightarrow> event \<Rightarrow> string option" where
  "reason_of repr e = detail_text repr ''reason'' (ev_metadata e)"

definition type_of :: "(pyval \<Rightarrow> string) \<Rightarrow> event \<Rightarrow> string option" where
  "type_of repr e = detail_text repr ''type'' (ev_metadata e)"

definition to_active_alert :: "(pyval \<Rightarrow> string) \<Rightarrow> event \<Rightarrow> active_alert" where
  "to_active_alert repr e =
     \<lparr>aa_id = ev_id e, aa_scope = ev_scope e, aa_scope_id = ev_scope_id e, aa_level = ev_level e,
      aa_message = ev_message e, aa_timestamp = ev_timestamp e, aa_event_type = type_of repr e,
      aa_reason = reason_of repr e, aa_metadata = ev_metadata e\<rparr>"

definition open_alert_criteria :: "string list \<Rightarrow> event \<Rightarrow> bool" where
  "open_alert_criteria levels e \<longleftrightarrow>
     ev_cleared_at e = None \<and>
     (if \<not> set levels \<subseteq> set open_alert_index_levels then ev_level e \<in> set levels
      else ev_level e \<in> set open_alert_index_levels \<and>
           (set levels \<noteq> set open_alert_index_levels \<longrightarrow> ev_level e \<in> set levels))"

definition get_active_alerts ::
  "(pyval \<Rightarrow> string) \<Rightarrow> event_filter \<Rightarrow> int \<Rightarrow> int \<Rightarrow> event list \<Rightarrow> active_alert list \<times> nat" where
  "get_active_alerts repr f limit offset evs =
     (let flr = (case ef_level_floor f of None \<Rightarrow> alert_level_threshold | Some l \<Rightarrow> l);
          matching = filter (\<lambda>e. open_alert_criteria (levels_at_or_above flr) e \<and>
             (case ef_scope f of None \<Rightarrow> True | Some s \<Rightarrow> ev_scope e = s) \<and>
             (case ef_scope_id f of None \<Rightarrow> True | Some i \<Rightarrow> ev_scope_id e = Some i)) evs
      in (map (to_active_alert repr) (page_of limit offset (newest_first matching)), length matching))"

text \<open>An \<open>UPDATE ... WHERE p\<close>: the new table and the row count.\<close>

definition update_where :: "('a \<Rightarrow> bool) \<Rightarrow> ('a \<Rightarrow> 'a) \<Rightarrow> 'a list \<Rightarrow> 'a list \<times> nat" where
  "update_where p u xs = (map (\<lambda>x. if p x then u x else x) xs, length (filter p xs))"

definition clear_event :: "int \<Rightarrow> int option \<Rightarrow> string \<Rightarrow> event \<Rightarrow> event" where
  "clear_event now user why e =
     e\<lparr>ev_cleared_at := Some now, ev_cleared_by := user, ev_clear_reason := Some why\<rparr>"

definition is_open_alert :: "event \<Rightarrow> bool" where
  "is_open_alert e \<longleftrightarrow>
     ev_cleared_at e = None \<and> ev_level e \<in> set (levels_at_or_above alert_level_threshold)"

definition clear_alert :: "int \<Rightarrow> int \<Rightarrow> int \<Rightarrow> event list \<Rightarrow> event list \<times> nat" where
  "clear_alert now event_id user_id =
     update_where (\<lambda>e. ev_id e = event_id \<and> is_open_alert e) (clear_event now (Some user_id) ''manual'')"

definition clear_all_alerts :: "int \<Rightarrow> int \<Rightarrow> event list \<Rightarrow> event list \<times> nat" where
  "clear_all_alerts now user_id = update_where is_open_alert (clear_event now (Some user_id) ''manual'')"

definition auto_clear_matches ::
  "string \<Rightarrow> int option \<Rightarrow> string list \<Rightarrow> int option \<Rightarrow> event \<Rightarrow> bool" where
  "auto_clear_matches scope scope_id raise_reasons resolve_event_id e \<longleftrightarrow>
     ev_cleared_at e = None \<and> ev_scope e = scope \<and> json_in (ev_metadata e) ''reason'' raise_reasons \<and>
     ev_scope_id e = scope_id \<and> (case resolve_event_id of None \<Rightarrow> True | Some i \<Rightarrow> ev_id e < i)"

definition auto_clear_for_event ::
  "int \<Rightarrow> string \<Rightarrow> int option \<Rightarrow> string option \<Rightarrow> int option \<Rightarrow> event list \<Rightarrow> event list \<times> nat" where
  "auto_clear_for_event now scope scope_id reason resolve_event_id evs =
     (case reason of
        None \<Rightarrow> (evs, 0)
      | Some r \<Rightarrow>
         (case map_of resolve_to_raise_reasons r of
            None \<Rightarrow> (evs, 0)
          | Some raise_reasons \<Rightarrow>
             (if raise_reasons = [] then (evs, 0)
              else update_where (auto_clear_matches scope scope_id raise_reasons resolve_event_id)
                     (clear_event now None ''auto'') evs)))"

section \<open>Retention\<close>

definition event_prune_max_batches :: nat where "event_prune_max_batches = 20"

record event_retention =
  er_info_days :: int
  er_cleared_alert_days :: int
  er_batch_size :: int

abbreviation day_micro :: int where "day_micro \<equiv> 86400000000"

text \<open>The predicate also refers to the newest id of the table the statement runs on.\<close>

definition event_prune_predicate ::
  "event_retention \<Rightarrow> int \<Rightarrow> (event list \<Rightarrow> event \<Rightarrow> bool) option" where
  "event_prune_predicate r now =
     (let rules =
            (if er_info_days r > 0
             then [\<lambda>e. ev_level e \<in> {''debug'', ''info''} \<and> ev_timestamp e < now - er_info_days r * day_micro] else []) @
            (if er_cleared_alert_days r > 0
             then [\<lambda>e. case ev_cleared_at e of None \<Rightarrow> False
                         | Some t \<Rightarrow> t < now - er_cleared_alert_days r * day_micro] else [])
      in if rules = [] then None
         else Some (\<lambda>evs e. list_ex (\<lambda>rule. rule e) rules \<and>
                (json_get (ev_metadata e) ''type'' = VNone \<or> \<not> json_in (ev_metadata e) ''type'' audit_event_types) \<and>
                ev_id e < newest_id evs))"

definition delete_batch :: "(event list \<Rightarrow> event \<Rightarrow> bool) \<Rightarrow> nat \<Rightarrow> event list \<Rightarrow> event list \<times> nat" where
  "delete_batch p limit evs =
     (let ids = map ev_id (take limit (filter (p evs) evs))
      in (filter (\<lambda>e. ev_id e \<notin> set ids) evs, length (filter (\<lambda>e. ev_id e \<in> set ids) evs)))"

text \<open>The loop of \<open>prune_in_batches\<close>, for the remaining number of batches.\<close>

fun batch_loop :: "(nat \<Rightarrow> 's \<Rightarrow> 's \<times> nat) \<Rightarrow> nat \<Rightarrow> nat \<Rightarrow> 's \<Rightarrow> nat \<Rightarrow> 's \<times> nat" where
  "batch_loop stmt batch_size 0 st acc = (st, acc)"
| "batch_loop stmt batch_size (Suc n) st acc =
     (case stmt batch_size st of (st', deleted) \<Rightarrow>
        if deleted < batch_size then (st', acc + deleted)
        else batch_loop stmt batch_size n st' (acc + deleted))"

definition prune_in_batches ::
  "(nat \<Rightarrow> 's \<Rightarrow> 's \<times> nat) \<Rightarrow> int \<Rightarrow> int \<Rightarrow> 's \<Rightarrow> ('s \<times> nat) res" where
  "prune_in_batches stmt batch_size max_batches st =
     (if batch_size < 1 then Inl (ValueError ''batch_size'' ''must be at least 1'')
      else if max_batches < 1 then Inl (ValueError ''max_batches'' ''must be at least 1'')
      else Inr (batch_loop stmt (nat batch_size) (nat max_batches) st 0))"

definition prune_events :: "event_retention \<Rightarrow> int \<Rightarrow> int \<Rightarrow> event list \<Rightarrow> (event list \<times> nat) res" where
  "prune_events r now max_batches evs =
     (case event_prune_predicate r now of
        None \<Rightarrow> Inr (evs, 0)
      | Some p \<Rightarrow> prune_in_batches (delete_batch p) (er_batch_size r) max_batches evs)"

section \<open>Facts\<close>

lemma newest_id_ge: "e \<in> set evs \<Longrightarrow> ev_id e \<le> newest_id evs"
  by (induction evs) (auto simp: newest_id_def)

lemma newest_id_nonneg: "0 \<le> newest_id evs"
  by (induction evs) (auto simp: newest_id_def)

lemma newest_id_in: "evs \<noteq> [] \<Longrightarrow> \<forall>e\<in>set evs. 0 < ev_id e \<Longrightarrow> \<exists>e\<in>set evs. ev_id e = newest_id evs"
proof (induction evs)
  case (Cons a evs)
  have n: "newest_id (a # evs) = max (ev_id a) (newest_id evs)" by (simp add: newest_id_def)
  show ?case
  proof (cases "evs = []")
    case True
    with Cons.prems show ?thesis by (simp add: newest_id_def)
  next
    case False
    with Cons obtain e where "e \<in> set evs" "ev_id e = newest_id evs" by auto
    then show ?thesis unfolding n by (cases "ev_id a \<le> newest_id evs") auto
  qed
qed simp

lemma newest_id_eqI:
  assumes "set evs' \<subseteq> set evs" "e \<in> set evs'" "ev_id e = newest_id evs" "\<forall>e\<in>set evs. 0 < ev_id e"
  shows "newest_id evs' = newest_id evs"
proof -
  obtain e' where "e' \<in> set evs'" "ev_id e' = newest_id evs'"
    using newest_id_in [of evs'] assms by fastforce
  with assms newest_id_ge [of e' evs] newest_id_ge [of e evs'] show ?thesis by fastforce
qed

text \<open>The index-friendly form of the alert filter selects exactly the uncleared rows at a level.\<close>

lemma open_alert_criteria_iff:
  "open_alert_criteria levels e \<longleftrightarrow> ev_cleared_at e = None \<and> ev_level e \<in> set levels"
  by (auto simp: open_alert_criteria_def)

lemma open_alert_level: "is_open_alert e \<Longrightarrow> ev_level e \<notin> {''debug'', ''info''}"
  by (auto simp: is_open_alert_def levels_at_or_above_def level_rank_def alert_level_threshold_def)

text \<open>Rows that retention may never delete.\<close>

definition is_audit :: "event \<Rightarrow> bool" where
  "is_audit e \<longleftrightarrow> json_in (ev_metadata e) ''type'' audit_event_types"

lemma prune_predicate_protects:
  assumes "event_prune_predicate r now = Some p" "p evs e"
  shows "\<not> is_audit e \<and> \<not> is_open_alert e \<and> ev_id e < newest_id evs"
  using assms open_alert_level [of e]
  by (auto simp: event_prune_predicate_def Let_def is_audit_def json_in_def is_open_alert_def
      split: if_splits option.splits)

lemma delete_batch_filter:
  assumes "delete_batch p n evs = (evs', k)" "distinct (map ev_id evs)"
  shows "\<exists>keep. evs' = filter keep evs \<and> (\<forall>e\<in>set evs. \<not> keep e \<longrightarrow> p evs e) \<and> k = length evs - length evs'"
proof -
  let ?del = "take n (filter (p evs) evs)"
  let ?keep = "\<lambda>e. ev_id e \<notin> ev_id ` set ?del"
  have inj: "inj_on ev_id (set evs)" using assms(2) by (simp add: distinct_map)
  have keep: "p evs e" if e: "e \<in> set evs" "\<not> ?keep e" for e
  proof -
    from e(2) obtain d where d: "d \<in> set ?del" "ev_id d = ev_id e" by auto
    from d(1) have "d \<in> set (filter (p evs) evs)" by (rule in_set_takeD)
    then have "d = e" "p evs d" using inj_onD [OF inj d(2) _ e(1)] by simp_all
    then show ?thesis by simp
  qed
  have "length (filter (\<lambda>e. \<not> ?keep e) evs) = length evs - length (filter ?keep evs)"
    using sum_length_filter_compl [of ?keep evs] by linarith
  moreover have "evs' = filter ?keep evs" "k = length (filter (\<lambda>e. \<not> ?keep e) evs)"
    using assms(1) by (simp_all add: delete_batch_def Let_def)
  ultimately show ?thesis using keep by blast
qed

text \<open>One pass keeps the protected rows, the order and the newest id.\<close>

definition pruned_to :: "event list \<Rightarrow> event list \<Rightarrow> bool" where
  "pruned_to evs evs' \<longleftrightarrow>
     (\<exists>keep. evs' = filter keep evs \<and>
        (\<forall>e\<in>set evs. is_audit e \<or> is_open_alert e \<or> ev_id e = newest_id evs \<longrightarrow> keep e)) \<and>
     newest_id evs' = newest_id evs"

lemma pruned_to_refl: "pruned_to evs evs"
  by (auto simp: pruned_to_def intro: exI [of _ "\<lambda>_. True"])

lemma pruned_to_trans:
  assumes "pruned_to a b" "pruned_to b c"
  shows "pruned_to a c"
proof -
  from assms obtain k k' where k: "b = filter k a"
      "\<forall>e\<in>set a. is_audit e \<or> is_open_alert e \<or> ev_id e = newest_id a \<longrightarrow> k e"
    and k': "c = filter k' b"
      "\<forall>e\<in>set b. is_audit e \<or> is_open_alert e \<or> ev_id e = newest_id b \<longrightarrow> k' e"
    and n: "newest_id b = newest_id a" "newest_id c = newest_id b"
    by (auto simp: pruned_to_def)
  show ?thesis unfolding pruned_to_def
    by (intro conjI exI [of _ "\<lambda>e. k e \<and> k' e"]) (use k k' n in auto)
qed

definition wf_events :: "event list \<Rightarrow> bool" where
  "wf_events evs \<longleftrightarrow> sorted_wrt (<) (map ev_id evs) \<and> (\<forall>e\<in>set evs. 0 < ev_id e)"

lemma sorted_wrt_less_distinct: "sorted_wrt (<) (xs::int list) \<Longrightarrow> distinct xs"
  by (induction xs) auto

lemma wf_events_filter: "wf_events evs \<Longrightarrow> wf_events (filter k evs)"
  by (induction evs) (auto simp: wf_events_def)

lemma delete_batch_pruned:
  assumes "event_prune_predicate r now = Some p" "wf_events evs" "delete_batch p n evs = (evs', k)"
  shows "pruned_to evs evs' \<and> wf_events evs' \<and> k = length evs - length evs'"
proof -
  have "distinct (map ev_id evs)" using assms(2) sorted_wrt_less_distinct by (auto simp: wf_events_def)
  from delete_batch_filter [OF assms(3) this] obtain keep where
    keep: "evs' = filter keep evs" "\<forall>e\<in>set evs. \<not> keep e \<longrightarrow> p evs e" "k = length evs - length evs'" by blast
  have prot: "\<forall>e\<in>set evs. is_audit e \<or> is_open_alert e \<or> ev_id e = newest_id evs \<longrightarrow> keep e"
    using keep(2) prune_predicate_protects [OF assms(1), of evs] by fastforce
  have "newest_id evs' = newest_id evs"
  proof (cases "evs = []")
    case False
    with assms(2) obtain e where "e \<in> set evs" "ev_id e = newest_id evs"
      using newest_id_in [of evs] by (auto simp: wf_events_def)
    then show ?thesis
      using prot keep(1) assms(2) by (intro newest_id_eqI [of evs' evs e]) (auto simp: wf_events_def)
  qed (simp add: keep)
  with keep prot wf_events_filter [OF assms(2)] show ?thesis by (auto simp: pruned_to_def)
qed

lemma batch_loop_pruned:
  assumes "event_prune_predicate r now = Some p"
  shows "wf_events evs \<Longrightarrow> batch_loop (delete_batch p) b n evs acc = (evs', k) \<Longrightarrow>
    pruned_to evs evs' \<and> wf_events evs' \<and> k = acc + (length evs - length evs')"
proof (induction n arbitrary: evs acc)
  case 0
  then show ?case by (simp add: pruned_to_refl)
next
  case (Suc n)
  obtain evs1 d where b: "delete_batch p b evs = (evs1, d)" by fastforce
  note one = delete_batch_pruned [OF assms Suc.prems(1) b]
  then have "length evs1 \<le> length evs" by (auto simp: pruned_to_def)
  show ?case
  proof (cases "d < b")
    case True
    with Suc.prems b one show ?thesis by auto
  next
    case False
    with Suc.prems b have "batch_loop (delete_batch p) b n evs1 (acc + d) = (evs', k)" by simp
    from Suc.IH [OF _ this] one have rest: "pruned_to evs1 evs'" "wf_events evs'"
      "k = acc + d + (length evs1 - length evs')" by auto
    then have "length evs' \<le> length evs1" by (auto simp: pruned_to_def)
    with rest one \<open>length evs1 \<le> length evs\<close> show ?thesis using pruned_to_trans by auto
  qed
qed

lemma prune_events_pruned:
  assumes "wf_events evs" "prune_events r now mb evs = Inr (evs', n)"
  shows "pruned_to evs evs' \<and> wf_events evs' \<and> n = length evs - length evs'"
proof (cases "event_prune_predicate r now")
  case None
  with assms show ?thesis by (simp add: prune_events_def pruned_to_refl)
next
  case (Some p)
  with assms have "batch_loop (delete_batch p) (nat (er_batch_size r)) (nat mb) evs 0 = (evs', n)"
    by (simp add: prune_events_def prune_in_batches_def split: if_splits)
  from batch_loop_pruned [OF Some assms(1) this] show ?thesis by simp
qed

text \<open>
  C12. Retention never deletes what must be kept.  Whatever the windows, the batch size and
  the cap, a pass of \<open>prune_events\<close> only removes rows, in place; every audit or security
  event, every uncleared alert and the newest row survive it; the id the next event gets is
  the same as before the pass, so no id is handed out twice; and the reported number is the
  number of rows removed.
\<close>

theorem retention_keeps_protected:
  assumes "wf_events evs" "prune_events r now mb evs = Inr (evs', n)"
  shows "(\<exists>keep. evs' = filter keep evs) \<and> n = length evs - length evs' \<and> newest_id evs' = newest_id evs \<and>
    (\<forall>e\<in>set evs. is_audit e \<or> is_open_alert e \<or> ev_id e = newest_id evs \<longrightarrow> e \<in> set evs')"
  using prune_events_pruned [OF assms] by (auto simp: pruned_to_def)

definition sample_event :: "int \<Rightarrow> string \<Rightarrow> int \<Rightarrow> pyval \<Rightarrow> event" where
  "sample_event i lvl ts meta = \<lparr>ev_id = i, ev_scope = ''camera'', ev_scope_id = Some 7, ev_level = lvl,
     ev_timestamp = ts, ev_message = ''m'', ev_actor_user_id = None, ev_metadata = meta,
     ev_cleared_at = None, ev_cleared_by = None, ev_clear_reason = None\<rparr>"

theorem retention_keeps_protected_witness:
  "prune_events \<lparr>er_info_days = 1, er_cleared_alert_days = 0, er_batch_size = 2\<rparr> (10 * day_micro) 5
     [sample_event 1 ''info'' 0 VNone, sample_event 2 ''warning'' 0 VNone, sample_event 3 ''info'' 0 VNone,
      sample_event 4 ''info'' 0 (VDict [(''type'', VStr ''audit.control_action'')]), sample_event 5 ''info'' 0 VNone] =
   Inr ([sample_event 2 ''warning'' 0 VNone,
      sample_event 4 ''info'' 0 (VDict [(''type'', VStr ''audit.control_action'')]), sample_event 5 ''info'' 0 VNone], 2) \<and>
   newest_id [sample_event 2 ''warning'' 0 VNone,
      sample_event 4 ''info'' 0 (VDict [(''type'', VStr ''audit.control_action'')]), sample_event 5 ''info'' 0 VNone] = 5"
proof -
  let ?evs = "[sample_event 1 ''info'' 0 VNone, sample_event 2 ''warning'' 0 VNone, sample_event 3 ''info'' 0 VNone,
      sample_event 4 ''info'' 0 (VDict [(''type'', VStr ''audit.control_action'')]), sample_event 5 ''info'' 0 VNone]"
  let ?kept = "[sample_event 2 ''warning'' 0 VNone,
      sample_event 4 ''info'' 0 (VDict [(''type'', VStr ''audit.control_action'')]), sample_event 5 ''info'' 0 VNone]"
  have wf: "wf_events ?evs" by code_simp
  have run: "prune_events \<lparr>er_info_days = 1, er_cleared_alert_days = 0, er_batch_size = 2\<rparr> (10 * day_micro) 5 ?evs =
     Inr (?kept, 2)" by code_simp
  have "newest_id ?evs = 5" by code_simp
  with run retention_keeps_protected [OF wf run] show ?thesis by simp
qed

lemma pages_take:
  assumes "1 \<le> limit"
  shows "concat (map (\<lambda>k. page_of limit (int k * limit) xs) [0..<n]) = take (n * nat limit) xs"
proof (induction n)
  case (Suc n)
  have "nat (int n * limit) = n * nat limit" using assms by (simp add: nat_mult_distrib)
  then have "page_of limit (int n * limit) xs = take (nat limit) (drop (n * nat limit) xs)"
    using assms by (simp add: page_of_def)
  moreover have "Suc n * nat limit = n * nat limit + nat limit" by simp
  ultimately show ?case using Suc by (simp only: take_add upt_Suc map_append concat_append) simp
qed simp

lemma newest_first_props: "mset (newest_first evs) = mset evs"
  "sorted (map (\<lambda>e. (- ev_timestamp e, - ev_id e)) (newest_first evs))"
  by (simp_all add: newest_first_def)

text \<open>
  C13. Reading a log page by page is complete.  Walking the pages of \<open>get_audit_events\<close> with
  any positive limit until the reported total is reached lists every audit or security event
  that passes the filter exactly once, newest first, and nothing else; without the admin role
  every page is refused.
\<close>

theorem audit_pages_complete:
  assumes "1 \<le> limit" "total_rows = length (filter (apply_event_filters f) (filter is_audit evs))"
    and "total_rows \<le> n * nat limit"
  shows "\<exists>pages. (\<forall>k. get_audit_events (Some ''admin'') f limit (int k * limit) evs = Inr (pages k, total_rows)) \<and>
      mset (concat (map pages [0..<n])) = mset (filter (apply_event_filters f) (filter is_audit evs)) \<and>
      sorted (map (\<lambda>e. (- ev_timestamp e, - ev_id e)) (concat (map pages [0..<n]))) \<and>
      (\<forall>role k. role \<noteq> Some ''admin'' \<longrightarrow>
         (\<exists>msg. get_audit_events role f limit k evs = Inl (PermissionError msg)))"
proof -
  let ?m = "filter (apply_event_filters f) (filter is_audit evs)"
  let ?pages = "\<lambda>k. page_of limit (int k * limit) (newest_first ?m)"
  have aud: "(\<lambda>e. json_in (ev_metadata e) ''type'' audit_event_types) = is_audit"
    by (simp add: is_audit_def fun_eq_iff)
  have "length (newest_first ?m) = total_rows" using assms(2) by (simp add: newest_first_def)
  then have "concat (map ?pages [0..<n]) = newest_first ?m"
    using pages_take [OF assms(1), of "newest_first ?m" n] assms(3) by simp
  then show ?thesis
    using newest_first_props(1) [of ?m] newest_first_props(2) [of ?m] assms(2)
    by (intro exI [of _ ?pages]) (simp add: get_audit_events_def aud Let_def)
qed

theorem audit_pages_complete_witness:
  "\<exists>pages. mset (concat (map pages [0..<2])) =
     mset [sample_event 1 ''info'' 5 (VDict [(''type'', VStr ''security.auth_event'')]),
           sample_event 3 ''info'' 9 (VDict [(''type'', VStr ''audit.control_action'')])] \<and>
     (\<forall>k. get_audit_events (Some ''admin'') \<lparr>ef_scope = None, ef_scope_id = None, ef_level_floor = None\<rparr> 1 (int k * 1)
        [sample_event 1 ''info'' 5 (VDict [(''type'', VStr ''security.auth_event'')]), sample_event 2 ''error'' 6 VNone,
         sample_event 3 ''info'' 9 (VDict [(''type'', VStr ''audit.control_action'')])] = Inr (pages k, 2))"
proof -
  let ?evs = "[sample_event 1 ''info'' 5 (VDict [(''type'', VStr ''security.auth_event'')]), sample_event 2 ''error'' 6 VNone,
         sample_event 3 ''info'' 9 (VDict [(''type'', VStr ''audit.control_action'')])]"
  let ?f = "\<lparr>ef_scope = None, ef_scope_id = None, ef_level_floor = None\<rparr>"
  have m: "filter (apply_event_filters ?f) (filter is_audit ?evs) =
     [sample_event 1 ''info'' 5 (VDict [(''type'', VStr ''security.auth_event'')]),
           sample_event 3 ''info'' 9 (VDict [(''type'', VStr ''audit.control_action'')])]" by code_simp
  have "(1::int) \<le> 1" "2 = length (filter (apply_event_filters ?f) (filter is_audit ?evs))" "2 \<le> 2 * nat 1"
    unfolding m by simp_all
  from audit_pages_complete [OF this] show ?thesis unfolding m by blast
qed

end
