(* ===== verification/Notification.thy ===== *)
theory Notification
  imports Event_Log "HOL-Library.Char_ord" "HOL-Library.List_Lexorder"
begin

text \<open>
  Routing of events to channels (\<open>monitoring/routing.py\<close>) and the delivery of one event by
  the dispatcher (\<open>monitoring/dispatcher.py\<close>): snapshot of a row, debounce table, bounded
  retry and the record of a failed delivery.  Times are microseconds of the loop clock.
\<close>

section \<open>Routing\<close>

definition never_routed :: "string list" where "never_routed = [''notify.delivery_failed'']"

definition type_matches :: "string \<Rightarrow> pyval \<Rightarrow> bool" where
  "type_matches event_type event_types =
     (case event_types of
        VList ts \<Rightarrow> (if VStr ''all'' \<in> set ts then True else VStr event_type \<in> set ts)
      | _ \<Rightarrow> False)"

definition level_meets :: "string \<Rightarrow> pyval \<Rightarrow> bool" where
  "level_meets level min_level =
     (case min_level of VStr m \<Rightarrow> level \<in> set (levels_at_or_above m) | _ \<Rightarrow> True)"

definition rule_channels :: "(pyval \<Rightarrow> string) \<Rightarrow> string \<Rightarrow> string \<Rightarrow> pyval \<Rightarrow> string list" where
  "rule_channels repr event_type level rule =
     (case rule of
        VDict r \<Rightarrow>
          (if \<not> type_matches event_type (dict_get r ''event_types'' VNone) then []
           else if \<not> level_meets level (dict_get r ''min_level'' VNone) then []
           else (case dict_get r ''channels'' VNone of VList cs \<Rightarrow> map (py_str repr) cs | _ \<Rightarrow> []))
      | _ \<Rightarrow> [])"

definition evaluate_routing_rules :: "(pyval \<Rightarrow> string) \<Rightarrow> string \<Rightarrow> string \<Rightarrow> pyval \<Rightarrow> string set" where
  "evaluate_routing_rules repr event_type level routing_rules =
     (if event_type \<in> set never_routed then {}
      else (case routing_rules of
              VList rules \<Rightarrow> set (concat (map (rule_channels repr event_type level) rules))
            | _ \<Rightarrow> {}))"

section \<open>Messages\<close>

record notification_message =
  nm_event_type :: string
  nm_scope :: string
  nm_scope_id :: "int option"
  nm_level :: string
  nm_message :: string
  nm_timestamp :: int
  nm_metadata :: pyval

definition event_type_of :: "(pyval \<Rightarrow> string) \<Rightarrow> event \<Rightarrow> string" where
  "event_type_of repr e = (case json_get (ev_metadata e) ''type'' of VNone \<Rightarrow> [] | v \<Rightarrow> py_str repr v)"

text \<open>The timestamp column is not null, so the fallback to the present is not reached.\<close>

definition message_from_event :: "(pyval \<Rightarrow> string) \<Rightarrow> event \<Rightarrow> notification_message" where
  "message_from_event repr e =
     \<lparr>nm_event_type = event_type_of repr e, nm_scope = ev_scope e, nm_scope_id = ev_scope_id e,
      nm_level = ev_level e, nm_message = ev_message e, nm_timestamp = ev_timestamp e,
      nm_metadata = ev_metadata e\<rparr>"

definition reason_of_message :: "(pyval \<Rightarrow> string) \<Rightarrow> notification_message \<Rightarrow> string option" where
  "reason_of_message repr m = detail_text repr ''reason'' (nm_metadata m)"

section \<open>Delivery to one channel\<close>

datatype send_outcome = Sent | Send_failed string | Send_cancelled

datatype delivery = Delivered | Gave_up string | Delivery_cancelled

text \<open>
  The retry loop: attempt \<open>n\<close> of the \<open>left\<close> still allowed.  The second component counts the
  calls of \<open>channel.send\<close>.  A timeout or any other fault is a \<open>Send_failed\<close>.
\<close>

fun deliver_attempts :: "(nat \<Rightarrow> send_outcome) \<Rightarrow> nat \<Rightarrow> nat \<Rightarrow> string \<Rightarrow> delivery \<times> nat" where
  "deliver_attempts send 0 n last_error = (Gave_up last_error, n)"
| "deliver_attempts send (Suc left) n last_error =
     (case send n of
        Sent \<Rightarrow> (Delivered, Suc n)
      | Send_cancelled \<Rightarrow> (Delivery_cancelled, Suc n)
      | Send_failed err \<Rightarrow> deliver_attempts send left (Suc n) err)"

definition deliver_with_retry :: "int \<Rightarrow> (nat \<Rightarrow> send_outcome) \<Rightarrow> delivery \<times> nat" where
  "deliver_with_retry max_retries send = deliver_attempts send (nat (max 1 max_retries)) 0 []"

text \<open>The wait before the attempt after number \<open>attempt\<close>; \<open>jitter\<close> is drawn from \<open>[0, base]\<close>.\<close>

definition delivery_backoff :: "rat \<Rightarrow> rat \<Rightarrow> nat \<Rightarrow> rat" where
  "delivery_backoff retry_backoff jitter attempt =
     (let base = max 0 retry_backoff; delay = base * 2 ^ attempt
      in if delay > 0 then delay + jitter else delay)"

definition record_delivery_failure ::
  "bool \<Rightarrow> int \<Rightarrow> string \<Rightarrow> notification_message \<Rightarrow> string \<Rightarrow> event list \<Rightarrow> event list" where
  "record_delivery_failure ok now channel_name m err evs =
     log_event ok now
       \<lparr>la_scope = nm_scope m, la_scope_id = nm_scope_id m, la_level = ''error'',
        la_message = ''Notification delivery to channel '' @ [CHR 0x27] @ channel_name @ [CHR 0x27] @
          '' failed after retries for '' @ nm_event_type m @ ''.'',
        la_type = Some ''notify.delivery_failed'',
        la_metadata = VDict [(''channel'', VStr channel_name), (''failed_event_type'', VStr (nm_event_type m)),
                             (''error'', VStr err)],
        la_actor = None\<rparr> evs"

section \<open>The debounce table\<close>

type_synonym debounce_key = "string \<times> string \<times> int option \<times> string"
type_synonym 'k debounce_table = "'k \<Rightarrow> int option"

definition message_key :: "notification_message \<Rightarrow> string \<Rightarrow> debounce_key" where
  "message_key m channel_name = (nm_event_type m, nm_scope m, nm_scope_id m, channel_name)"

definition is_debounced :: "int \<Rightarrow> 'k debounce_table \<Rightarrow> 'k \<Rightarrow> int \<Rightarrow> bool" where
  "is_debounced window t key now = (case t key of None \<Rightarrow> False | Some ts \<Rightarrow> now - ts < window)"

definition prune_debounce :: "int \<Rightarrow> int \<Rightarrow> 'k debounce_table \<Rightarrow> 'k debounce_table" where
  "prune_debounce window now t =
     (\<lambda>k. case t k of None \<Rightarrow> None | Some ts \<Rightarrow> if now - ts > window * 2 then None else Some ts)"

text \<open>The two halves of one channel's turn in \<open>_dispatch_event\<close>, before and after the send.\<close>

definition dispatch_begin :: "int \<Rightarrow> int \<Rightarrow> 'k \<Rightarrow> 'k debounce_table \<Rightarrow> 'k debounce_table option" where
  "dispatch_begin window now key t =
     (if is_debounced window t key now then None else Some (t(key \<mapsto> now)))"

definition dispatch_end :: "int \<Rightarrow> 'k \<Rightarrow> bool \<Rightarrow> 'k debounce_table \<Rightarrow> 'k debounce_table" where
  "dispatch_end now key delivered t =
     (let t1 = (if \<not> delivered \<and> t key = Some now then t(key := None) else t)
      in if delivered then t1(key \<mapsto> now) else t1)"

text \<open>
  \<open>_dispatch_event\<close> run without interruption: \<open>deliver\<close> gives the outcome per channel.  The
  second component lists the channels a send was started on.
\<close>

fun dispatch_channels ::
  "int \<Rightarrow> int \<Rightarrow> string list \<Rightarrow> (string \<Rightarrow> bool) \<Rightarrow> notification_message \<Rightarrow> string list \<Rightarrow>
   debounce_key debounce_table \<Rightarrow> debounce_key debounce_table \<times> string list" where
  "dispatch_channels window now channels deliver m [] t = (t, [])"
| "dispatch_channels window now channels deliver m (c # cs) t =
     (if c \<notin> set channels then dispatch_channels window now channels deliver m cs t
      else (case dispatch_begin window now (message_key m c) t of
              None \<Rightarrow> dispatch_channels window now channels deliver m cs t
            | Some t' \<Rightarrow>
               (case dispatch_channels window now channels deliver m cs
                       (dispatch_end now (message_key m c) (deliver c) t') of
                  (t'', sent) \<Rightarrow> (t'', c # sent))))"

definition dispatch_event ::
  "(pyval \<Rightarrow> string) \<Rightarrow> int \<Rightarrow> int \<Rightarrow> string list \<Rightarrow> (string \<Rightarrow> bool) \<Rightarrow> notification_message \<Rightarrow> pyval \<Rightarrow>
   debounce_key debounce_table \<Rightarrow> debounce_key debounce_table \<times> string list" where
  "dispatch_event repr window now channels deliver m rules t =
     (let targets = evaluate_routing_rules repr (nm_event_type m) (nm_level m) rules in
      if targets = {} then (t, [])
      else dispatch_channels window now channels deliver m (sorted_list_of_set targets) (prune_debounce window now t))"

section \<open>Facts about one delivery\<close>

lemma deliver_attempts_spec:
  assumes "deliver_attempts send k n err = (r, m)"
  shows "n \<le> m \<and> m \<le> n + k \<and> (\<forall>i. n \<le> i \<and> i < m - 1 \<longrightarrow> (\<exists>e. send i = Send_failed e)) \<and>
    (r = Delivered \<longleftrightarrow> n < m \<and> send (m - 1) = Sent) \<and>
    (\<forall>e. r = Gave_up e \<longrightarrow> m = n + k \<and> (\<forall>i. n \<le> i \<and> i < m \<longrightarrow> (\<exists>e. send i = Send_failed e)))"
  using assms
proof (induction k arbitrary: n err)
  case (Suc k)
  show ?case
  proof (cases "send n")
    case (Send_failed e)
    with Suc.prems have "deliver_attempts send k (Suc n) e = (r, m)" by simp
    note IH = Suc.IH [OF this]
    have "\<exists>e. send i = Send_failed e" if "n \<le> i" "i < m - 1" for i
      using IH that Send_failed by (cases "i = n") auto
    moreover have "\<exists>e. send i = Send_failed e" if "n \<le> i" "i < m" "r = Gave_up e'" for i e'
      using IH that Send_failed by (cases "i = n") auto
    moreover have "r = Delivered \<longleftrightarrow> n < m \<and> send (m - 1) = Sent"
      using IH Send_failed by (cases "m = Suc n") auto
    ultimately show ?thesis using IH by auto
  qed (use Suc.prems in auto)
qed auto



text \<open>
  A failed delivery cannot cause another notification.  The event recorded for a failed
  delivery is snapshotted by the next poll into a message that no routing rule, wildcard
  rules included, sends to any channel, and dispatching it leaves the debounce table alone.
\<close>

theorem delivery_failure_never_routed:
  assumes "e \<in> set (record_delivery_failure ok now c m err evs)" "e \<notin> set evs"
  shows "evaluate_routing_rules repr (nm_event_type (message_from_event repr e)) lvl rules = {} \<and>
    dispatch_event repr window t0 channels deliver (message_from_event repr e) rules t = (t, [])"
proof -
  have "event_type_of repr e = ''notify.delivery_failed''"
    using assms
    by (auto simp: record_delivery_failure_def log_event_def build_details_def event_type_of_def json_get_def
        dict_get_def py_str_def Let_def split: if_splits)
  then show ?thesis
    by (simp add: evaluate_routing_rules_def never_routed_def message_from_event_def dispatch_event_def)
qed

theorem delivery_failure_never_routed_witness:
  "evaluate_routing_rules (\<lambda>_. []) (nm_event_type (message_from_event (\<lambda>_. []) (hd (record_delivery_failure True 5 ''email''
        (message_from_event (\<lambda>_. []) (sample_event 1 ''error'' 0 (VDict [(''type'', VStr ''render.failed'')]))) ''down'' [])))) ''error''
       (VList [VDict [(''event_types'', VList [VStr ''all'']), (''channels'', VList [VStr ''email''])]]) = {}"
proof -
  let ?evs = "record_delivery_failure True 5 ''email''
        (message_from_event (\<lambda>_. []) (sample_event 1 ''error'' 0 (VDict [(''type'', VStr ''render.failed'')]))) ''down'' []"
  have "hd ?evs \<in> set ?evs" by (simp add: record_delivery_failure_def log_event_def)
  from delivery_failure_never_routed [OF this, of "\<lambda>_. []" "''error''"
      "VList [VDict [(''event_types'', VList [VStr ''all'']), (''channels'', VList [VStr ''email''])]]"]
  show ?thesis by simp
qed

section \<open>Debounce under interleaving\<close>

text \<open>
  Concurrent dispatches: the loop clock, the table, the sends in flight and the sends
  delivered so far, newest first.  The \<open>now\<close> of a dispatch is read once at its start, so a
  later channel of the same event uses a stamp up to \<open>age\<close> behind the clock.
\<close>

record 'k debounce_state =
  db_clock :: int
  db_table :: "'k debounce_table"
  db_active :: "('k \<times> int) list"
  db_delivered :: "('k \<times> int) list"

inductive send_step :: "int \<Rightarrow> int \<Rightarrow> 'k debounce_state \<Rightarrow> 'k debounce_state \<Rightarrow> bool" for window age where
  tick: "db_clock st \<le> c \<Longrightarrow> \<forall>k s. (k, s) \<in> set (db_active st) \<longrightarrow> c \<le> s + age \<Longrightarrow>
    send_step window age st (st\<lparr>db_clock := c\<rparr>)"
| prune: "now \<le> db_clock st \<Longrightarrow> db_clock st \<le> now + age \<Longrightarrow>
    send_step window age st (st\<lparr>db_table := prune_debounce window now (db_table st)\<rparr>)"
| begin_send: "now \<le> db_clock st \<Longrightarrow> db_clock st \<le> now + age \<Longrightarrow>
    dispatch_begin window now key (db_table st) = Some t \<Longrightarrow>
    send_step window age st (st\<lparr>db_table := t, db_active := (key, now) # db_active st\<rparr>)"
| end_send: "(key, now) \<in> set (db_active st) \<Longrightarrow>
    send_step window age st (st\<lparr>db_table := dispatch_end now key delivered (db_table st),
      db_active := remove1 (key, now) (db_active st),
      db_delivered := (if delivered then [(key, now)] else []) @ db_delivered st\<rparr>)"

definition debounce_init :: "int \<Rightarrow> 'k debounce_state" where
  "debounce_init c = \<lparr>db_clock = c, db_table = (\<lambda>_. None), db_active = [], db_delivered = []\<rparr>"

definition spaced :: "int \<Rightarrow> ('k \<times> int) list \<Rightarrow> bool" where
  "spaced gap ds \<longleftrightarrow> sorted_wrt (\<lambda>x y. fst x = fst y \<longrightarrow> snd y + gap \<le> snd x) ds"

text \<open>
  At most one send per key is in flight, and it owns the key; a delivered send either still
  holds the key or is a window old; a send in flight started a window after the delivered ones.
\<close>

definition debounce_inv :: "int \<Rightarrow> int \<Rightarrow> 'k debounce_state \<Rightarrow> bool" where
  "debounce_inv window age st \<longleftrightarrow>
     distinct (map fst (db_active st)) \<and>
     (\<forall>k s. (k, s) \<in> set (db_active st) \<longrightarrow> db_table st k = Some s \<and> s \<le> db_clock st \<and> db_clock st \<le> s + age) \<and>
     (\<forall>k s. (k, s) \<in> set (db_delivered st) \<longrightarrow> s + window \<le> db_clock st \<or> (\<exists>t\<ge>s. db_table st k = Some t)) \<and>
     (\<forall>k n s. (k, n) \<in> set (db_active st) \<longrightarrow> (k, s) \<in> set (db_delivered st) \<longrightarrow>
        s + window \<le> db_clock st \<and> s + (window - age) \<le> n) \<and>
     spaced (window - age) (db_delivered st)"

lemma debounce_invD:
  assumes "debounce_inv window age st"
  shows "distinct (map fst (db_active st))"
    and "(k, s) \<in> set (db_active st) \<Longrightarrow> db_table st k = Some s \<and> s \<le> db_clock st \<and> db_clock st \<le> s + age"
    and "(k, s) \<in> set (db_delivered st) \<Longrightarrow> s + window \<le> db_clock st \<or> (\<exists>t\<ge>s. db_table st k = Some t)"
    and "(k, n) \<in> set (db_active st) \<Longrightarrow> (k, s) \<in> set (db_delivered st) \<Longrightarrow>
        s + window \<le> db_clock st \<and> s + (window - age) \<le> n"
    and "spaced (window - age) (db_delivered st)"
  using assms unfolding debounce_inv_def by blast+

lemma debounce_invI:
  assumes "distinct (map fst (db_active st))"
    and "\<And>k s. (k, s) \<in> set (db_active st) \<Longrightarrow> db_table st k = Some s \<and> s \<le> db_clock st \<and> db_clock st \<le> s + age"
    and "\<And>k s. (k, s) \<in> set (db_delivered st) \<Longrightarrow> s + window \<le> db_clock st \<or> (\<exists>t\<ge>s. db_table st k = Some t)"
    and "\<And>k n s. (k, n) \<in> set (db_active st) \<Longrightarrow> (k, s) \<in> set (db_delivered st) \<Longrightarrow>
        s + window \<le> db_clock st \<and> s + (window - age) \<le> n"
    and "spaced (window - age) (db_delivered st)"
  shows "debounce_inv window age st"
  using assms unfolding debounce_inv_def by blast

lemma debounce_inv_init: "debounce_inv window age (debounce_init c)"
  by (simp add: debounce_inv_def debounce_init_def spaced_def)

lemma debounce_inv_tick:
  assumes "debounce_inv window age st" "db_clock st \<le> c" "\<forall>k s. (k, s) \<in> set (db_active st) \<longrightarrow> c \<le> s + age"
  shows "debounce_inv window age (st\<lparr>db_clock := c\<rparr>)"
  using assms(2,3) debounce_invD [OF assms(1)] unfolding debounce_inv_def by simp (meson order_trans)

lemma debounce_inv_prune:
  assumes inv: "debounce_inv window age st" and now: "now \<le> db_clock st" and age: "0 \<le> age" "age < window"
  shows "debounce_inv window age (st\<lparr>db_table := prune_debounce window now (db_table st)\<rparr>)"
proof -
  note I = debounce_invD [OF inv]
  let ?t = "prune_debounce window now (db_table st)"
  have "?t k = Some s" if "(k, s) \<in> set (db_active st)" for k s
    using I(2) [OF that] now age by (simp add: prune_debounce_def)
  moreover have "s + window \<le> db_clock st \<or> (\<exists>t\<ge>s. ?t k = Some t)" if "(k, s) \<in> set (db_delivered st)" for k s
    using I(3) [OF that] now age by (auto simp: prune_debounce_def)
  ultimately show ?thesis using I unfolding debounce_inv_def by simp
qed

lemma debounce_inv_begin:
  assumes inv: "debounce_inv window age st"
    and now: "now \<le> db_clock st" "db_clock st \<le> now + age" and age: "0 \<le> age" "age < window"
    and b: "dispatch_begin window now key (db_table st) = Some t"
  shows "debounce_inv window age (st\<lparr>db_table := t, db_active := (key, now) # db_active st\<rparr>)"
proof -
  note I = debounce_invD [OF inv]
  have t: "t = (db_table st)(key \<mapsto> now)" and nd: "\<not> is_debounced window (db_table st) key now"
    using b by (auto simp: dispatch_begin_def split: if_splits)
  have fresh: "(key, s) \<notin> set (db_active st)" for s
    using I(2) [of key s] now(1) age nd by (auto simp: is_debounced_def)
  have late: "s + window \<le> db_clock st \<and> s + (window - age) \<le> now" if "(key, s) \<in> set (db_delivered st)" for s
    using I(3) [OF that] nd now age by (auto simp: is_debounced_def)
  have "key \<notin> fst ` set (db_active st)" using fresh by force
  moreover have "s + window \<le> db_clock st \<or> (\<exists>u\<ge>s. t k = Some u)" if "(k, s) \<in> set (db_delivered st)" for k s
    using I(3) [OF that] late that by (cases "k = key") (auto simp: t)
  moreover have "t k = Some s" if "(k, s) \<in> set (db_active st)" for k s
    using I(2) [OF that] fresh that by (auto simp: t)
  ultimately show ?thesis
    using I now late unfolding debounce_inv_def by (auto simp: t)
qed

lemma distinct_remove1_fst: "distinct (map fst xs) \<Longrightarrow> distinct (map fst (remove1 x xs))"
  by (induction xs) (auto dest!: notin_set_remove1 [rotated] simp: image_iff dest: set_remove1_subset [THEN subsetD])

lemma dispatch_end_other: "k \<noteq> key \<Longrightarrow> dispatch_end now key delivered t k = t k"
  by (simp add: dispatch_end_def Let_def)

lemma dispatch_end_own: "t key = Some now \<Longrightarrow> dispatch_end now key delivered t key = (if delivered then Some now else None)"
  by (simp add: dispatch_end_def Let_def)

lemma remove1_fst_neq:
  assumes "distinct (map fst xs)" "(key, now) \<in> set xs" "(k, s) \<in> set (remove1 (key, now) xs)"
  shows "k \<noteq> key \<and> (k, s) \<in> set xs"
proof -
  have "distinct xs" "inj_on fst (set xs)" using assms(1) by (simp_all add: distinct_map)
  then have ks: "(k, s) \<in> set xs" "(k, s) \<noteq> (key, now)" using assms(3) by auto
  with inj_onD [OF \<open>inj_on fst (set xs)\<close>, of "(k, s)" "(key, now)"] assms(2) show ?thesis by auto
qed

lemma debounce_inv_end:
  assumes inv: "debounce_inv window age st" and act: "(key, now) \<in> set (db_active st)"
  shows "debounce_inv window age (st\<lparr>db_table := dispatch_end now key delivered (db_table st),
      db_active := remove1 (key, now) (db_active st),
      db_delivered := (if delivered then [(key, now)] else []) @ db_delivered st\<rparr>)"
    (is "debounce_inv window age ?st")
proof -
  note I = debounce_invD [OF inv]
  let ?t = "dispatch_end now key delivered (db_table st)"
  have key: "db_table st key = Some now" using I(2) [OF act] by blast
  note other = remove1_fst_neq [OF I(1) act]
  have old: "s + window \<le> db_clock st \<or> (\<exists>u\<ge>s. ?t k = Some u)" if "(k, s) \<in> set (db_delivered st)" for k s
  proof (cases "k = key")
    case True
    then show ?thesis using I(4) [OF act, of s] that by blast
  next
    case False
    then show ?thesis using I(3) [OF that] dispatch_end_other [OF False, of now delivered "db_table st"] by simp
  qed
  have spaced_now: "\<forall>y\<in>set (db_delivered st). key = fst y \<longrightarrow> snd y + (window - age) \<le> now"
    using I(4) [OF act] by (metis prod.collapse)
  have new: "?t key = Some now" if delivered using dispatch_end_own [of "db_table st" key now, OF key] that by (simp only: if_True)
  show ?thesis
  proof (rule debounce_invI)
    show "distinct (map fst (db_active ?st))" using distinct_remove1_fst [OF I(1)] by simp
  next
    fix k s assume "(k, s) \<in> set (db_active ?st)"
    then have "(k, s) \<in> set (remove1 (key, now) (db_active st))" by simp
    from other [OF this] have own: "k \<noteq> key" "(k, s) \<in> set (db_active st)" by blast+
    then show "db_table ?st k = Some s \<and> s \<le> db_clock ?st \<and> db_clock ?st \<le> s + age"
      using I(2) [OF own(2)] dispatch_end_other [OF own(1), of now delivered "db_table st"] by simp
  next
    fix k s assume "(k, s) \<in> set (db_delivered ?st)"
    then consider "delivered" "k = key" "s = now" | "(k, s) \<in> set (db_delivered st)"
      by (auto split: if_splits)
    then have "s + window \<le> db_clock st \<or> (\<exists>u\<ge>s. ?t k = Some u)"
    proof cases
      case 1
      with new [OF 1(1)] show ?thesis by (intro disjI2 exI [of _ now]) simp
    qed (rule old)
    then show "s + window \<le> db_clock ?st \<or> (\<exists>u\<ge>s. db_table ?st k = Some u)" by simp
  next
    fix k n s assume "(k, n) \<in> set (db_active ?st)" "(k, s) \<in> set (db_delivered ?st)"
    then have r: "(k, n) \<in> set (remove1 (key, now) (db_active st))"
      and d: "(delivered \<and> (k, s) = (key, now)) \<or> (k, s) \<in> set (db_delivered st)"
      by (simp, auto split: if_splits)
    from other [OF r] d have "(k, n) \<in> set (db_active st)" "(k, s) \<in> set (db_delivered st)" by blast+
    from I(4) [OF this] show "s + window \<le> db_clock ?st \<and> s + (window - age) \<le> n" by simp
  next
    show "spaced (window - age) (db_delivered ?st)"
      using I(5) spaced_now by (simp add: spaced_def)
  qed
qed

lemma send_step_inv:
  assumes "send_step window age st st'" "debounce_inv window age st" "0 \<le> age" "age < window"
  shows "debounce_inv window age st'"
  using assms(1)
proof (cases rule: send_step.cases)
  case (tick c)
  then show ?thesis using debounce_inv_tick [OF assms(2)] by blast
next
  case (prune now)
  then show ?thesis using debounce_inv_prune [OF assms(2) _ assms(3,4)] by blast
next
  case (begin_send now key t)
  then show ?thesis using debounce_inv_begin [OF assms(2) _ _ assms(3,4)] by blast
next
  case (end_send key now delivered)
  then show ?thesis using debounce_inv_end [OF assms(2)] by blast
qed

text \<open>
  C15. Debounce.  However the dispatches of concurrent events interleave, as long as each is
  over within \<open>age\<close> of reading its clock and \<open>age\<close> is below the window, two notifications
  delivered for the same key (type, scope, scope id and channel) carry stamps at least
  \<open>window - age\<close> apart: reserving the key before the send excludes a second send, and failed
  sends, releases and prunes never free a key early.
\<close>

theorem debounce_spacing:
  assumes "(send_step window age)\<^sup>*\<^sup>* (debounce_init c) st" "0 \<le> age" "age < window"
  shows "spaced (window - age) (db_delivered st)"
proof -
  from assms(1) have "debounce_inv window age st"
    by (induction rule: rtranclp_induct) (auto intro: debounce_inv_init send_step_inv assms)
  then show ?thesis by (rule debounce_invD)
qed

lemma send_run:
  "send_step w a st st1 \<Longrightarrow> (send_step w a)\<^sup>*\<^sup>* st1 st2 \<Longrightarrow> (send_step w a)\<^sup>*\<^sup>* st st2"
  by (rule converse_rtranclp_into_rtranclp)

text \<open>Two deliveries 60 s apart with a window of 60 s and dispatches of up to 10 s.\<close>

theorem debounce_spacing_witness:
  "spaced (60 - 10) (db_delivered \<lparr>db_clock = 60, db_table = (\<lambda>_. None)(''k'' \<mapsto> 60), db_active = [],
     db_delivered = [(''k'', 60), (''k'', 0)]\<rparr>)"
proof (rule debounce_spacing [of 60 10 0])
  let ?s0 = "debounce_init 0 :: string debounce_state"
  let ?s1 = "?s0\<lparr>db_table := (db_table ?s0)(''k'' \<mapsto> 0), db_active := [(''k'', 0)]\<rparr>"
  let ?s2 = "?s1\<lparr>db_active := [], db_delivered := [(''k'', 0)]\<rparr>"
  let ?s3 = "?s2\<lparr>db_clock := 60\<rparr>"
  let ?s4 = "?s3\<lparr>db_table := (db_table ?s3)(''k'' \<mapsto> 60), db_active := [(''k'', 60)]\<rparr>"
  let ?s5 = "?s4\<lparr>db_active := [], db_delivered := [(''k'', 60), (''k'', 0)]\<rparr>"
  have 1: "send_step 60 10 ?s0 ?s1"
    using begin_send [of 0 ?s0 10 60 "''k''" "(db_table ?s0)(''k'' \<mapsto> 0)"]
    by (simp add: debounce_init_def dispatch_begin_def is_debounced_def)
  have 2: "send_step 60 10 ?s1 ?s2"
    using end_send [of "''k''" 0 ?s1 60 10 True] by (simp add: debounce_init_def dispatch_end_def)
  have 3: "send_step 60 10 ?s2 ?s3" using tick [of ?s2 60 10 60] by (simp add: debounce_init_def)
  have 4: "send_step 60 10 ?s3 ?s4"
    using begin_send [of 60 ?s3 10 60 "''k''" "(db_table ?s3)(''k'' \<mapsto> 60)"]
    by (simp add: debounce_init_def dispatch_begin_def is_debounced_def)
  have 5: "send_step 60 10 ?s4 ?s5"
    using end_send [of "''k''" 60 ?s4 60 10 True] by (simp add: debounce_init_def dispatch_end_def)
  have "(send_step 60 10)\<^sup>*\<^sup>* ?s0 ?s5"
    by (rule send_run [OF 1 send_run [OF 2 send_run [OF 3 send_run [OF 4 r_into_rtranclp [of "send_step 60 10", OF 5]]]]])
  then show "(send_step 60 10)\<^sup>*\<^sup>* (debounce_init 0) \<lparr>db_clock = 60, db_table = (\<lambda>_. None)(''k'' \<mapsto> 60), db_active = [],
     db_delivered = [(''k'', 60), (''k'', 0)]\<rparr>"
    by (simp add: debounce_init_def)
qed simp_all

text \<open>
  A send that outlives the window moves the stamp of the key back when it succeeds: the send
  of 0 ends after the one of 60 was delivered, and a third one at 61 is not debounced.
\<close>

lemma slow_send_moves_stamp_back:
  "is_debounced 60 (dispatch_end 60 ''k'' True ((\<lambda>_. None)(''k'' \<mapsto> 60))) ''k'' 61 \<and>
   \<not> is_debounced 60 (dispatch_end 0 ''k'' True (dispatch_end 60 ''k'' True ((\<lambda>_. None)(''k'' \<mapsto> 60)))) ''k'' 61"
  by (simp add: is_debounced_def dispatch_end_def)

end
