(* ===== verification/Dispatcher.thy ===== *)
theory Dispatcher
  imports Notification
begin

text \<open>
  The notification dispatcher's poll loop and its persisted cursor
  (\<open>monitoring/dispatcher.py\<close>): start position, poll, registration of dispatches, settling,
  the two marks and their storage, stop, and the auto-clear pass over a polled batch.  Each
  stretch between two awaits is one definition; the step relation interleaves them with the
  rest of the program.  A dispatch is its event id: what it sends is in theory Notification.
\<close>

section \<open>State\<close>

definition poll_batch_size :: nat where "poll_batch_size = 200"

record polled_event =
  pe_id :: int
  pe_message :: notification_message
  pe_deliver :: bool

record start_position =
  sp_delivery :: int
  sp_read :: int
  sp_until :: int
  sp_cutoff :: "int option"
  sp_persisted :: bool

type_synonym cursor = "(int \<times> int) option"

record dispatcher =
  d_high_water_mark :: int
  d_auto_clear_floor :: int
  d_catchup_until :: int
  d_catchup_cutoff :: "int option"
  d_position_known :: bool
  d_persisted_marks :: cursor
  d_in_flight :: "int list"
  d_started :: bool
  d_stopped :: bool

definition new_dispatcher :: dispatcher where
  "new_dispatcher = \<lparr>d_high_water_mark = 0, d_auto_clear_floor = 0, d_catchup_until = 0, d_catchup_cutoff = None,
     d_position_known = False, d_persisted_marks = None, d_in_flight = [], d_started = False, d_stopped = False\<rparr>"

section \<open>Start\<close>

text \<open>Which of the four database accesses of a start succeed.\<close>

record start_access =
  sa_newest :: bool
  sa_cursor :: bool
  sa_reset :: bool
  sa_count :: bool

definition at_newest :: "int \<Rightarrow> bool \<Rightarrow> start_position" where
  "at_newest n p = \<lparr>sp_delivery = n, sp_read = n, sp_until = n, sp_cutoff = None, sp_persisted = p\<rparr>"

definition set_cursor :: "int \<Rightarrow> int \<Rightarrow> cursor \<Rightarrow> cursor" where
  "set_cursor delivery_mark read_mark cur = Some (delivery_mark, read_mark)"

definition load_start_position ::
  "start_access \<Rightarrow> int \<Rightarrow> int \<Rightarrow> event list \<Rightarrow> cursor \<Rightarrow> (start_position \<times> cursor) res" where
  "load_start_position acc now max_age evs cur =
     (if \<not> sa_newest acc then Inl (RuntimeError ''event table unreadable'')
      else
       (let newest = newest_id evs;
            reset = (if sa_reset acc then (at_newest newest True, set_cursor newest newest cur)
                     else (at_newest newest False, cur))
        in if \<not> sa_cursor acc then Inr (at_newest newest False, cur)
           else (case cur of
                   None \<Rightarrow> Inr reset
                 | Some (delivery_mark, read_mark) \<Rightarrow>
                    (if delivery_mark > newest then Inr reset
                     else
                      (let read_mark' = min (max read_mark delivery_mark) newest in
                       if delivery_mark \<ge> newest
                       then Inr (\<lparr>sp_delivery = delivery_mark, sp_read = read_mark', sp_until = delivery_mark,
                                  sp_cutoff = None, sp_persisted = True\<rparr>, cur)
                       else if \<not> sa_count acc then Inl (RuntimeError ''catch-up range unreadable'')
                       else Inr (\<lparr>sp_delivery = delivery_mark, sp_read = read_mark', sp_until = newest,
                                  sp_cutoff = Some (now - max_age), sp_persisted = True\<rparr>, cur))))))"

definition start_at :: "start_position \<Rightarrow> dispatcher \<Rightarrow> dispatcher" where
  "start_at p d =
     (let d1 = d\<lparr>d_started := True, d_high_water_mark := sp_delivery p, d_auto_clear_floor := sp_read p,
                 d_catchup_until := sp_until p, d_catchup_cutoff := sp_cutoff p\<rparr>
      in if sp_persisted p
         then d1\<lparr>d_position_known := True, d_persisted_marks := Some (sp_delivery p, sp_read p)\<rparr> else d1)"

definition start_dispatcher ::
  "start_access \<Rightarrow> int \<Rightarrow> int \<Rightarrow> event list \<Rightarrow> cursor \<Rightarrow> dispatcher \<Rightarrow> dispatcher \<times> cursor" where
  "start_dispatcher acc now max_age evs cur d =
     (if d_started d then (d, cur)
      else (case load_start_position acc now max_age evs cur of
              Inl _ \<Rightarrow> (start_at \<lparr>sp_delivery = 0, sp_read = 0, sp_until = 0, sp_cutoff = None, sp_persisted = False\<rparr> d, cur)
            | Inr (p, cur') \<Rightarrow> (start_at p d, cur')))"

definition is_running :: "bool \<Rightarrow> dispatcher \<Rightarrow> bool" where
  "is_running loop_alive d \<longleftrightarrow> d_started d \<and> \<not> d_stopped d \<and> loop_alive"

definition last_poll_age_seconds :: "rat option \<Rightarrow> rat option \<Rightarrow> rat \<Rightarrow> rat option" where
  "last_poll_age_seconds started last_poll_at now =
     (case (case last_poll_at of Some t \<Rightarrow> Some t | None \<Rightarrow> started) of
        None \<Rightarrow> None
      | Some reference \<Rightarrow> Some (max 0 (now - reference)))"

text \<open>
  The channels and their version token.  A provider, if there is one, is a pair of its version
  and its build in the current database, either of which may raise.
\<close>

record 'c channel_set =
  cs_channels :: "(string \<times> 'c) list"
  cs_version :: "string option"

definition refresh_channels ::
  "(string res \<times> (string \<times> 'c) list res) option \<Rightarrow> 'c channel_set \<Rightarrow> (string \<times> (string \<times> 'c) list) option" where
  "refresh_channels provider cs =
     (case provider of
        None \<Rightarrow> None
      | Some (version, build) \<Rightarrow>
         (case version of
            Inl _ \<Rightarrow> None
          | Inr v \<Rightarrow>
             (if Some v = cs_version cs then None
              else (case build of Inl _ \<Rightarrow> None | Inr channels \<Rightarrow> Some (v, channels)))))"

definition apply_channels ::
  "(string \<times> (string \<times> 'c) list) option \<Rightarrow> 'c channel_set \<Rightarrow> 'c channel_set" where
  "apply_channels upd cs =
     (case upd of
        None \<Rightarrow> cs
      | Some (v, channels) \<Rightarrow>
         cs\<lparr>cs_channels := foldl (\<lambda>d (n, c). dict_set d n c) [] channels, cs_version := Some v\<rparr>)"

text \<open>A poll installs the provider's channels, last of a name, exactly when it can build them.\<close>

lemma map_of_dict_fold:
  "map_of (foldl (\<lambda>d (n, c). dict_set d n c) acc cs) k =
     (case map_of (rev cs) k of Some c \<Rightarrow> Some c | None \<Rightarrow> map_of acc k)"
  by (induction cs arbitrary: acc) (auto simp: map_of_dict_set map_add_def split: option.splits)

lemma channels_follow_provider:
  "map_of (cs_channels (apply_channels (refresh_channels (Some (Inr v, Inr channels)) cs) cs)) k =
     (if cs_version cs = Some v then map_of (cs_channels cs) k else map_of (rev channels) k)"
  by (auto simp: refresh_channels_def apply_channels_def map_of_dict_fold split: option.splits)

section \<open>Poll\<close>

definition is_stale_catchup :: "dispatcher \<Rightarrow> int \<Rightarrow> notification_message \<Rightarrow> bool" where
  "is_stale_catchup d event_id m =
     (case d_catchup_cutoff d of
        None \<Rightarrow> False
      | Some cutoff \<Rightarrow> if event_id > d_catchup_until d then False else nm_timestamp m < cutoff)"

definition poll_new_events :: "(pyval \<Rightarrow> string) \<Rightarrow> dispatcher \<Rightarrow> event list \<Rightarrow> polled_event list" where
  "poll_new_events repr d evs =
     map (\<lambda>e. let m = message_from_event repr e in
              \<lparr>pe_id = ev_id e, pe_message = m, pe_deliver = \<not> is_stale_catchup d (ev_id e) m\<rparr>)
       (take poll_batch_size (filter (\<lambda>e. ev_id e > d_high_water_mark d) evs))"

definition end_catchup_if_passed :: "dispatcher \<Rightarrow> dispatcher" where
  "end_catchup_if_passed d =
     (if d_catchup_cutoff d \<noteq> None \<and> d_high_water_mark d \<ge> d_catchup_until d
      then d\<lparr>d_catchup_cutoff := None\<rparr> else d)"

definition auto_clear_alerts_sync ::
  "(pyval \<Rightarrow> string) \<Rightarrow> int \<Rightarrow> (int \<times> notification_message) list \<Rightarrow> event list \<Rightarrow> event list" where
  "auto_clear_alerts_sync repr now batch evs =
     foldl (\<lambda>t (event_id, m).
        fst (auto_clear_for_event now (nm_scope m) (nm_scope_id m) (reason_of_message repr m) (Some event_id) t))
       evs batch"

text \<open>What a poll hands to the auto-clear pass: the events above the floor.\<close>

definition auto_clear_batch :: "dispatcher \<Rightarrow> polled_event list \<Rightarrow> (int \<times> notification_message) list" where
  "auto_clear_batch d es = map (\<lambda>e. (pe_id e, pe_message e)) (filter (\<lambda>e. pe_id e > d_auto_clear_floor d) es)"

text \<open>The end of \<open>_poll_and_launch\<close>: register the dispatches, then advance the read mark.\<close>

definition poll_commit :: "dispatcher \<Rightarrow> polled_event list \<Rightarrow> dispatcher" where
  "poll_commit d es =
     (let d1 = d\<lparr>d_position_known := True\<rparr> in
      if es = [] then end_catchup_if_passed d1
      else
       (let ids = map pe_id (filter pe_deliver es) in
        end_catchup_if_passed
          (d1\<lparr>d_in_flight := d_in_flight d @ filter (\<lambda>i. i \<notin> set (d_in_flight d)) ids,
              d_high_water_mark := max (d_high_water_mark d) (pe_id (last es))\<rparr>)))"

definition can_poll :: "dispatcher \<Rightarrow> bool" where
  "can_poll d \<longleftrightarrow> \<not> length (d_in_flight d) \<ge> poll_batch_size"

section \<open>Settling and the cursor\<close>

definition settled_callback :: "int \<Rightarrow> bool \<Rightarrow> dispatcher \<Rightarrow> dispatcher" where
  "settled_callback event_id cancelled d =
     (if cancelled then d else d\<lparr>d_in_flight := filter (\<lambda>i. i \<noteq> event_id) (d_in_flight d)\<rparr>)"

definition delivery_mark :: "dispatcher \<Rightarrow> int" where
  "delivery_mark d =
     (if d_in_flight d \<noteq> [] then Min (set (d_in_flight d)) - 1 else d_high_water_mark d)"

text \<open>The marks \<open>_persist_cursor\<close> writes, if any, and the outcome of the write.\<close>

definition persist_marks :: "dispatcher \<Rightarrow> cursor" where
  "persist_marks d =
     (if \<not> d_position_known d then None
      else (let marks = (delivery_mark d, d_high_water_mark d)
            in if Some marks = d_persisted_marks d then None else Some marks))"

definition write_cursor :: "int \<times> int \<Rightarrow> cursor \<Rightarrow> cursor" where
  "write_cursor marks cur =
     (case cur of
        None \<Rightarrow> Some marks
      | Some (a, b) \<Rightarrow> Some (max a (fst marks), max b (snd marks)))"

definition stop_dispatcher :: "dispatcher \<Rightarrow> dispatcher" where
  "stop_dispatcher d = d\<lparr>d_stopped := True\<rparr>"

section \<open>The system\<close>

text \<open>
  The event table, the stored cursor, the running dispatcher, a batch read but not yet
  registered, a cursor write under way, and two histories: the events whose dispatch settled,
  and those deliberately not sent (older than the cursor's first position, or stale at a
  restart).
\<close>

record dsys =
  sy_events :: "event list"
  sy_cursor :: cursor
  sy_disp :: "dispatcher option"
  sy_batch :: "polled_event list option"
  sy_write :: cursor
  sy_settled :: "int set"
  sy_skipped :: "int set"

definition dsys_init :: "event list \<Rightarrow> dsys" where
  "dsys_init evs = \<lparr>sy_events = evs, sy_cursor = None, sy_disp = None, sy_batch = None, sy_write = None,
     sy_settled = {}, sy_skipped = {}\<rparr>"

abbreviation event_ids :: "event list \<Rightarrow> int set" where "event_ids evs \<equiv> ev_id ` set evs"

text \<open>A start that takes up the stored cursor skips nothing.\<close>

definition resumes :: "start_access \<Rightarrow> event list \<Rightarrow> cursor \<Rightarrow> bool" where
  "resumes acc evs cur \<longleftrightarrow> sa_newest acc \<and> sa_cursor acc \<and>
     (case cur of None \<Rightarrow> False | Some (dm, rm) \<Rightarrow> dm \<le> newest_id evs)"

inductive dstep :: "(pyval \<Rightarrow> string) \<Rightarrow> dsys \<Rightarrow> dsys \<Rightarrow> bool" for repr where
  log: "dstep repr s (s\<lparr>sy_events := log_event ok now a (sy_events s)\<rparr>)"
| clear: "dstep repr s (s\<lparr>sy_events := fst (clear_alert now i u (sy_events s))\<rparr>)"
| clear_all: "dstep repr s (s\<lparr>sy_events := fst (clear_all_alerts now u (sy_events s))\<rparr>)"
| prune: "prune_events r now mb (sy_events s) = Inr (evs', n) \<Longrightarrow> dstep repr s (s\<lparr>sy_events := evs'\<rparr>)"
| start: "sy_disp s = None \<Longrightarrow>
    start_dispatcher acc now max_age (sy_events s) (sy_cursor s) new_dispatcher = (d, cur) \<Longrightarrow>
    dstep repr s (s\<lparr>sy_disp := Some d, sy_cursor := cur, sy_batch := None,
      sy_skipped := sy_skipped s \<union>
        (if resumes acc (sy_events s) (sy_cursor s) then {}
         else {i \<in> event_ids (sy_events s). i \<le> d_high_water_mark d})\<rparr>)"
| read: "sy_disp s = Some d \<Longrightarrow> \<not> d_stopped d \<Longrightarrow> can_poll d \<Longrightarrow> sy_batch s = None \<Longrightarrow>
    es = poll_new_events repr d (sy_events s) \<or> es = [] \<Longrightarrow>
    dstep repr s (s\<lparr>sy_batch := Some es\<rparr>)"
| launch: "sy_disp s = Some d \<Longrightarrow> \<not> d_stopped d \<Longrightarrow> sy_batch s = Some es \<Longrightarrow>
    evs' = auto_clear_alerts_sync repr now (auto_clear_batch d es) (sy_events s) \<or> evs' = sy_events s \<Longrightarrow>
    dstep repr s (s\<lparr>sy_events := evs', sy_disp := Some (poll_commit d es), sy_batch := None,
      sy_skipped := sy_skipped s \<union> pe_id ` {e \<in> set es. \<not> pe_deliver e}\<rparr>)"
| poll_failed: "sy_disp s = Some d \<Longrightarrow> sy_batch s = Some es \<Longrightarrow>
    evs' = auto_clear_alerts_sync repr now (auto_clear_batch d es) (sy_events s) \<or> evs' = sy_events s \<Longrightarrow>
    dstep repr s (s\<lparr>sy_events := evs', sy_batch := None\<rparr>)"
| settle: "sy_disp s = Some d \<Longrightarrow> i \<in> set (d_in_flight d) \<Longrightarrow>
    dstep repr s (s\<lparr>sy_disp := Some (settled_callback i False d), sy_settled := insert i (sy_settled s)\<rparr>)"
| persist: "sy_disp s = Some d \<Longrightarrow> persist_marks d = Some marks \<Longrightarrow> dstep repr s (s\<lparr>sy_write := Some marks\<rparr>)"
| written: "sy_write s = Some marks \<Longrightarrow>
    dstep repr s (s\<lparr>sy_cursor := write_cursor marks (sy_cursor s), sy_write := None,
      sy_disp := map_option (\<lambda>d. d\<lparr>d_persisted_marks := Some marks\<rparr>) (sy_disp s)\<rparr>)"
| write_failed: "dstep repr s (s\<lparr>sy_write := None\<rparr>)"
| stop: "sy_disp s = Some d \<Longrightarrow> dstep repr s (s\<lparr>sy_disp := Some (stop_dispatcher d), sy_batch := None\<rparr>)"
| exit: "dstep repr s (s\<lparr>sy_disp := None, sy_batch := None\<rparr>)"

section \<open>What each operation does to the table\<close>

lemma update_where_ids:
  assumes "\<And>e. ev_id (u e) = ev_id e"
  shows "map ev_id (fst (update_where p u evs)) = map ev_id evs"
  using assms by (simp add: update_where_def comp_def)

lemma clear_event_id [simp]: "ev_id (clear_event now u why e) = ev_id e"
  by (simp add: clear_event_def)

lemma auto_clear_for_event_ids [simp]:
  "map ev_id (fst (auto_clear_for_event now sc si r i evs)) = map ev_id evs"
  by (simp add: auto_clear_for_event_def update_where_ids split: option.splits)

lemma auto_clear_sync_ids [simp]: "map ev_id (auto_clear_alerts_sync repr now b evs) = map ev_id evs"
  unfolding auto_clear_alerts_sync_def
  by (induction b arbitrary: evs) auto

lemma newest_id_map: "newest_id evs = foldr max (map ev_id evs) 0"
  by (simp add: newest_id_def foldr_map comp_def)

text \<open>Two tables with the same ids, in the same order, look the same to the cursor.\<close>

lemma same_ids:
  assumes "map ev_id evs' = map ev_id evs"
  shows "newest_id evs' = newest_id evs" "event_ids evs' = event_ids evs" "wf_events evs' = wf_events evs"
proof -
  show "newest_id evs' = newest_id evs" by (simp only: newest_id_map assms)
  have "set (map ev_id evs') = set (map ev_id evs)" by (simp only: assms)
  then show *: "event_ids evs' = event_ids evs" by simp
  have "(\<forall>e\<in>set evs. 0 < ev_id e) \<longleftrightarrow> (\<forall>i\<in>event_ids evs. 0 < i)" for evs by auto
  then show "wf_events evs' = wf_events evs" by (simp only: wf_events_def assms *)
qed

lemma newest_id_append: "newest_id (evs @ [e]) = max (newest_id evs) (ev_id e)"
  if "0 < ev_id e"
  using that by (induction evs) (auto simp: newest_id_def)

lemma log_event_table:
  assumes "wf_events evs"
  shows "wf_events (log_event ok now a evs)"
    and "newest_id evs \<le> newest_id (log_event ok now a evs)"
    and "event_ids (log_event ok now a evs) \<subseteq> insert (newest_id evs + 1) (event_ids evs)"
proof -
  have pos: "0 < newest_id evs + 1" using newest_id_nonneg [of evs] by simp
  show "wf_events (log_event ok now a evs)"
    using assms pos newest_id_ge [of _ evs]
    by (auto simp: wf_events_def log_event_def sorted_wrt_append)
  show "newest_id evs \<le> newest_id (log_event ok now a evs)"
    using pos by (simp add: log_event_def newest_id_append)
  show "event_ids (log_event ok now a evs) \<subseteq> insert (newest_id evs + 1) (event_ids evs)"
    by (auto simp: log_event_def)
qed

section \<open>The invariant\<close>

text \<open>Every event up to a mark is accounted for by a set of ids.\<close>

definition covered_upto :: "event list \<Rightarrow> int \<Rightarrow> int set \<Rightarrow> bool" where
  "covered_upto evs m S \<longleftrightarrow> m \<le> newest_id evs \<and> (\<forall>i\<in>event_ids evs. i \<le> m \<longrightarrow> i \<in> S)"

definition disp_ok :: "event list \<Rightarrow> int set \<Rightarrow> dispatcher \<Rightarrow> bool" where
  "disp_ok evs S d \<longleftrightarrow>
     covered_upto evs (d_high_water_mark d) (S \<union> set (d_in_flight d)) \<and>
     (\<forall>i\<in>set (d_in_flight d). i \<le> d_high_water_mark d)"

definition batch_ok :: "event list \<Rightarrow> dispatcher \<Rightarrow> polled_event list \<Rightarrow> bool" where
  "batch_ok evs d es \<longleftrightarrow>
     (\<forall>e\<in>set es. pe_id e \<le> pe_id (last es)) \<and>
     (es \<noteq> [] \<longrightarrow> pe_id (last es) \<le> newest_id evs \<and>
        (\<forall>i\<in>event_ids evs. d_high_water_mark d < i \<longrightarrow> i \<le> pe_id (last es) \<longrightarrow> i \<in> pe_id ` set es))"

definition dsys_inv :: "dsys \<Rightarrow> bool" where
  "dsys_inv s \<longleftrightarrow>
     wf_events (sy_events s) \<and>
     (\<forall>m. sy_cursor s = Some m \<longrightarrow> covered_upto (sy_events s) (fst m) (sy_settled s \<union> sy_skipped s)) \<and>
     (\<forall>m. sy_write s = Some m \<longrightarrow> covered_upto (sy_events s) (fst m) (sy_settled s \<union> sy_skipped s)) \<and>
     (\<forall>d. sy_disp s = Some d \<longrightarrow> disp_ok (sy_events s) (sy_settled s \<union> sy_skipped s) d \<and>
        (\<forall>es. sy_batch s = Some es \<longrightarrow> batch_ok (sy_events s) d es))"

lemma dsys_invD:
  assumes "dsys_inv s"
  shows "wf_events (sy_events s)"
    and "sy_cursor s = Some m \<Longrightarrow> covered_upto (sy_events s) (fst m) (sy_settled s \<union> sy_skipped s)"
    and "sy_write s = Some m \<Longrightarrow> covered_upto (sy_events s) (fst m) (sy_settled s \<union> sy_skipped s)"
    and "sy_disp s = Some d \<Longrightarrow> disp_ok (sy_events s) (sy_settled s \<union> sy_skipped s) d"
    and "sy_disp s = Some d \<Longrightarrow> sy_batch s = Some es \<Longrightarrow> batch_ok (sy_events s) d es"
  using assms unfolding dsys_inv_def by blast+

lemma covered_mono: "covered_upto evs m S \<Longrightarrow> S \<subseteq> S' \<Longrightarrow> covered_upto evs m S'"
  by (auto simp: covered_upto_def)

text \<open>A change of the table that only adds the next id, or removes rows, keeps the invariant.\<close>

definition table_step :: "event list \<Rightarrow> event list \<Rightarrow> bool" where
  "table_step evs evs' \<longleftrightarrow> (wf_events evs \<longrightarrow> wf_events evs') \<and> newest_id evs \<le> newest_id evs' \<and>
     event_ids evs' \<subseteq> insert (newest_id evs + 1) (event_ids evs)"

lemma covered_table: "covered_upto evs m S \<Longrightarrow> table_step evs evs' \<Longrightarrow> covered_upto evs' m S"
  unfolding covered_upto_def table_step_def by fastforce

lemma disp_ok_table: "disp_ok evs S d \<Longrightarrow> table_step evs evs' \<Longrightarrow> disp_ok evs' S d"
  unfolding disp_ok_def using covered_table by blast

lemma batch_ok_table:
  assumes b: "batch_ok evs d es" and st: "table_step evs evs'"
  shows "batch_ok evs' d es"
proof -
  have "i \<in> pe_id ` set es" if "es \<noteq> []" "i \<in> event_ids evs'" "d_high_water_mark d < i" "i \<le> pe_id (last es)" for i
  proof -
    have "i \<noteq> newest_id evs + 1" using that(1,4) b by (simp add: batch_ok_def)
    then have "i \<in> event_ids evs" using that(2) st unfolding table_step_def by blast
    with that b show ?thesis unfolding batch_ok_def by blast
  qed
  moreover have "newest_id evs \<le> newest_id evs'" using st by (simp add: table_step_def)
  ultimately show ?thesis using b unfolding batch_ok_def by (meson order_trans)
qed

lemma dsys_invI:
  assumes "wf_events (sy_events s)"
    and "\<And>m. sy_cursor s = Some m \<Longrightarrow> covered_upto (sy_events s) (fst m) (sy_settled s \<union> sy_skipped s)"
    and "\<And>m. sy_write s = Some m \<Longrightarrow> covered_upto (sy_events s) (fst m) (sy_settled s \<union> sy_skipped s)"
    and "\<And>d. sy_disp s = Some d \<Longrightarrow> disp_ok (sy_events s) (sy_settled s \<union> sy_skipped s) d"
    and "\<And>d es. sy_disp s = Some d \<Longrightarrow> sy_batch s = Some es \<Longrightarrow> batch_ok (sy_events s) d es"
  shows "dsys_inv s"
  using assms unfolding dsys_inv_def by blast

lemma dsys_inv_table:
  assumes "dsys_inv s" and st: "table_step (sy_events s) evs'"
  shows "dsys_inv (s\<lparr>sy_events := evs'\<rparr>)"
proof -
  note I = dsys_invD [OF assms(1)]
  show ?thesis
  proof (rule dsys_invI, goal_cases)
    case 1
    show ?case using I(1) st by (simp add: table_step_def)
  next
    case (2 m)
    then show ?case using covered_table [OF I(2) st] by simp
  next
    case (3 m)
    then show ?case using covered_table [OF I(3) st] by simp
  next
    case (4 d)
    then show ?case using disp_ok_table [OF I(4) st] by simp
  next
    case (5 d es)
    then show ?case using batch_ok_table [OF I(5) st] by simp
  qed
qed

lemma table_step_same: "map ev_id evs' = map ev_id evs \<Longrightarrow> table_step evs evs'"
  using same_ids [of evs' evs] by (auto simp: table_step_def)

lemma table_step_log: "wf_events evs \<Longrightarrow> table_step evs (log_event ok now a evs)"
  using log_event_table [of evs ok now a] by (simp add: table_step_def)

lemma table_step_prune:
  assumes "wf_events evs" "prune_events r now mb evs = Inr (evs', n)"
  shows "table_step evs evs'"
  using prune_events_pruned [OF assms] by (auto simp: table_step_def pruned_to_def)

lemma new_dispatcher_simps [simp]:
  "d_started new_dispatcher = False" "d_in_flight new_dispatcher = []"
  by (simp_all add: new_dispatcher_def)

lemma start_at_simps [simp]:
  "d_high_water_mark (start_at p d) = sp_delivery p" "d_in_flight (start_at p d) = d_in_flight d"
  by (simp_all add: start_at_def Let_def)

lemma start_ok:
  assumes wf: "wf_events evs" and cur: "\<And>m. cur = Some m \<Longrightarrow> covered_upto evs (fst m) S"
    and st: "start_dispatcher acc now ma evs cur new_dispatcher = (d, cur')"
    and S': "S' = S \<union> (if resumes acc evs cur then {} else {i \<in> event_ids evs. i \<le> d_high_water_mark d})"
  shows "disp_ok evs S' d \<and> (\<forall>m. cur' = Some m \<longrightarrow> covered_upto evs (fst m) S')"
proof -
  have sub: "S \<subseteq> S'" by (simp add: S')
  have nn: "0 \<le> newest_id evs" by (rule newest_id_nonneg)
  have old: "covered_upto evs (fst m) S'" if "cur = Some m" for m by (rule covered_mono [OF cur [OF that] sub])
  consider (unreadable) "d_high_water_mark d = 0" "cur' = cur"
    | (newest) "\<not> resumes acc evs cur" "d_high_water_mark d = newest_id evs" "cur' = cur \<or> cur' = Some (newest_id evs, newest_id evs)"
    | (resume) dm rm where "resumes acc evs cur" "cur = Some (dm, rm)" "d_high_water_mark d = dm" "cur' = cur"
    using st
    by (cases "sa_newest acc"; cases "sa_cursor acc"; cases cur)
      (auto simp: start_dispatcher_def load_start_position_def at_newest_def set_cursor_def resumes_def Let_def
        split: if_splits)
  then have "covered_upto evs (d_high_water_mark d) S' \<and> (\<forall>m. cur' = Some m \<longrightarrow> covered_upto evs (fst m) S')"
  proof cases
    case unreadable
    then show ?thesis using old wf nn by (auto simp: covered_upto_def wf_events_def)
  next
    case newest
    then have "covered_upto evs (newest_id evs) S'" by (auto simp: covered_upto_def S')
    with newest old show ?thesis by auto
  next
    case resume
    then show ?thesis using old by auto
  qed
  moreover have "d_in_flight d = []"
    using st by (auto simp: start_dispatcher_def split: sum.splits prod.splits if_splits)
  ultimately show ?thesis by (simp add: disp_ok_def)
qed

lemma end_catchup_simps [simp]:
  "d_high_water_mark (end_catchup_if_passed d) = d_high_water_mark d"
  "d_in_flight (end_catchup_if_passed d) = d_in_flight d"
  by (simp_all add: end_catchup_if_passed_def)

lemma poll_commit_ok:
  assumes d: "disp_ok evs S d" and b: "batch_ok evs d es"
  shows "disp_ok evs (S \<union> pe_id ` {e \<in> set es. \<not> pe_deliver e}) (poll_commit d es)"
proof (cases "es = []")
  case True
  with d show ?thesis by (simp add: poll_commit_def disp_ok_def)
next
  case False
  let ?d = "poll_commit d es" and ?l = "pe_id (last es)"
  have hwm: "d_high_water_mark ?d = max (d_high_water_mark d) ?l"
    and inf: "set (d_in_flight ?d) = set (d_in_flight d) \<union> pe_id ` {e \<in> set es. pe_deliver e}"
    using False by (auto simp: poll_commit_def Let_def)
  have "i \<in> S \<union> pe_id ` {e \<in> set es. \<not> pe_deliver e} \<union> set (d_in_flight ?d)"
    if i: "i \<in> event_ids evs" "i \<le> d_high_water_mark ?d" for i
  proof (cases "i \<le> d_high_water_mark d")
    case True
    with d i(1) show ?thesis unfolding inf disp_ok_def covered_upto_def by blast
  next
    case n: False
    with i hwm have "i \<le> ?l" by simp
    with b False i(1) n have "i \<in> pe_id ` set es" unfolding batch_ok_def by auto
    then show ?thesis unfolding inf by blast
  qed
  moreover have "d_high_water_mark ?d \<le> newest_id evs"
    using d b False by (auto simp: hwm disp_ok_def covered_upto_def batch_ok_def)
  moreover have "\<forall>i\<in>set (d_in_flight ?d). i \<le> d_high_water_mark ?d"
    using d b unfolding inf hwm disp_ok_def batch_ok_def by fastforce
  ultimately show ?thesis unfolding disp_ok_def covered_upto_def by blast
qed

lemma poll_new_events_ids:
  "map pe_id (poll_new_events repr d evs) =
   map ev_id (take poll_batch_size (filter (\<lambda>e. ev_id e > d_high_water_mark d) evs))"
  by (simp add: poll_new_events_def Let_def comp_def)

lemma sorted_wrt_le_last: "sorted_wrt (<) (xs::int list) \<Longrightarrow> x \<in> set xs \<Longrightarrow> x \<le> last xs"
  by (induction xs) (auto simp: less_imp_le)

lemma poll_read_ok:
  assumes "wf_events evs"
  shows "batch_ok evs d (poll_new_events repr d evs)"
proof -
  let ?h = "d_high_water_mark d" and ?es = "poll_new_events repr d evs"
  let ?u = "map ev_id (filter (\<lambda>e. ev_id e > ?h) evs)"
  have su: "sorted_wrt (<) ?u" using wf_events_filter [OF assms] by (simp add: wf_events_def)
  have ids: "map pe_id ?es = take poll_batch_size ?u" by (simp add: poll_new_events_ids take_map)
  have last: "pe_id (last ?es) = last (take poll_batch_size ?u)" if "?es \<noteq> []"
    using that ids by (metis last_map)
  have st: "sorted_wrt (<) (take poll_batch_size ?u)" by (rule sorted_wrt_take [OF su])
  have "i \<in> pe_id ` set ?es" if i: "?es \<noteq> []" "i \<in> event_ids evs" "?h < i" "i \<le> pe_id (last ?es)" for i
  proof -
    have "i \<in> set ?u" using i by auto
    then have "i \<in> set (take poll_batch_size ?u) \<or> i \<in> set (drop poll_batch_size ?u)"
      by (metis append_take_drop_id Un_iff set_append)
    moreover have "i \<notin> set (drop poll_batch_size ?u)"
    proof
      assume dr: "i \<in> set (drop poll_batch_size ?u)"
      have ne: "take poll_batch_size ?u \<noteq> []" using i(1) ids by (metis map_is_Nil_conv)
      have "sorted_wrt (<) (take poll_batch_size ?u @ drop poll_batch_size ?u)" using su by simp
      then have "last (take poll_batch_size ?u) < i"
        using dr last_in_set [OF ne] unfolding sorted_wrt_append by blast
      with last [OF i(1)] i(4) show False by simp
    qed
    ultimately show ?thesis using ids by (metis list.set_map)
  qed
  moreover have "pe_id e \<le> pe_id (last ?es)" if "e \<in> set ?es" for e
  proof -
    have "pe_id e \<in> set (take poll_batch_size ?u)" using that ids by (metis image_eqI list.set_map)
    with sorted_wrt_le_last [OF st] last that show ?thesis by fastforce
  qed
  moreover have "pe_id (last ?es) \<le> newest_id evs" if "?es \<noteq> []"
  proof -
    have "pe_id (last ?es) \<in> pe_id ` set ?es" using that by simp
    then have "pe_id (last ?es) \<in> event_ids evs"
      using ids by (metis (no_types, lifting) image_mono filter_is_subset in_set_takeD list.set_map subsetD)
    with newest_id_ge show ?thesis by auto
  qed
  ultimately show ?thesis unfolding batch_ok_def by blast
qed

lemma settle_ok:
  assumes "disp_ok evs S d"
  shows "disp_ok evs (insert i S) (settled_callback i False d)"
  using assms by (auto simp: disp_ok_def covered_upto_def settled_callback_def)

lemma delivery_mark_covered:
  assumes "disp_ok evs S d"
  shows "covered_upto evs (delivery_mark d) S"
proof (cases "d_in_flight d = []")
  case True
  with assms show ?thesis by (simp add: disp_ok_def delivery_mark_def)
next
  case False
  let ?m = "Min (set (d_in_flight d))"
  have "?m \<in> set (d_in_flight d)" using False by simp
  then have m: "?m \<le> d_high_water_mark d" using assms by (auto simp: disp_ok_def)
  have low: "i \<notin> set (d_in_flight d)" if "i \<le> ?m - 1" for i
    using that Min_le [of "set (d_in_flight d)" i] by fastforce
  have "i \<in> S" if "i \<in> event_ids evs" "i \<le> ?m - 1" for i
    using that low [OF that(2)] m assms unfolding disp_ok_def covered_upto_def by (meson Un_iff order_trans zle_diff1_eq less_imp_le)
  moreover have "?m - 1 \<le> newest_id evs"
    using m assms by (simp add: disp_ok_def covered_upto_def)
  ultimately show ?thesis using False by (simp add: covered_upto_def delivery_mark_def)
qed

lemma persist_covered:
  assumes "disp_ok evs S d" "persist_marks d = Some m"
  shows "covered_upto evs (fst m) S"
  using delivery_mark_covered [OF assms(1)] assms(2) by (auto simp: persist_marks_def Let_def split: if_splits)

lemma write_covered:
  assumes "covered_upto evs (fst m) S" "\<And>m. cur = Some m \<Longrightarrow> covered_upto evs (fst m) S" "write_cursor m cur = Some m'"
  shows "covered_upto evs (fst m') S"
  using assms by (cases cur) (auto simp: write_cursor_def max_def split: if_splits)

lemma poll_commit_table_ok:
  assumes "disp_ok evs S d" "batch_ok evs d es" "table_step evs evs'"
  shows "disp_ok evs' (S \<union> pe_id ` {e \<in> set es. \<not> pe_deliver e}) (poll_commit d es)"
  by (rule disp_ok_table [OF poll_commit_ok [OF assms(1,2)] assms(3)])

lemma disp_ok_other_fields:
  "d_high_water_mark d' = d_high_water_mark d \<Longrightarrow> d_in_flight d' = d_in_flight d \<Longrightarrow> disp_ok evs S d' = disp_ok evs S d"
  by (simp add: disp_ok_def)

lemma dsys_inv_start:
  assumes inv: "dsys_inv s"
    and st: "start_dispatcher acc now ma (sy_events s) (sy_cursor s) new_dispatcher = (d, cur)"
  shows "dsys_inv (s\<lparr>sy_disp := Some d, sy_cursor := cur, sy_batch := None,
      sy_skipped := sy_skipped s \<union>
        (if resumes acc (sy_events s) (sy_cursor s) then {}
         else {i \<in> event_ids (sy_events s). i \<le> d_high_water_mark d})\<rparr>)"
proof -
  note I = dsys_invD [OF inv]
  define k where "k = (if resumes acc (sy_events s) (sy_cursor s) then {}
    else {i \<in> event_ids (sy_events s). i \<le> d_high_water_mark d})"
  let ?S = "sy_settled s \<union> (sy_skipped s \<union> k)"
  have "disp_ok (sy_events s) (sy_settled s \<union> sy_skipped s \<union> k) d \<and>
      (\<forall>m. cur = Some m \<longrightarrow> covered_upto (sy_events s) (fst m) (sy_settled s \<union> sy_skipped s \<union> k))"
    by (rule start_ok [OF I(1) I(2) st]) (simp_all only: k_def)
  then have ok: "disp_ok (sy_events s) ?S d" "\<And>m. cur = Some m \<Longrightarrow> covered_upto (sy_events s) (fst m) ?S"
    by (simp_all add: Un_assoc)
  have "sy_settled s \<union> sy_skipped s \<subseteq> ?S" by blast
  note w = covered_mono [OF I(3) this]
  have "dsys_inv (s\<lparr>sy_disp := Some d, sy_cursor := cur, sy_batch := None, sy_skipped := sy_skipped s \<union> k\<rparr>)"
    using ok I(1) w by (intro dsys_invI) simp_all
  then show ?thesis by (simp only: k_def)
qed

lemma dsys_inv_launch:
  assumes inv: "dsys_inv s" and d: "sy_disp s = Some d" and b: "sy_batch s = Some es"
    and t: "table_step (sy_events s) evs'"
  shows "dsys_inv (s\<lparr>sy_events := evs', sy_disp := Some (poll_commit d es), sy_batch := None,
      sy_skipped := sy_skipped s \<union> pe_id ` {e \<in> set es. \<not> pe_deliver e}\<rparr>)"
proof -
  note I = dsys_invD [OF inv]
  let ?S = "sy_settled s \<union> sy_skipped s \<union> pe_id ` {e \<in> set es. \<not> pe_deliver e}"
  have sub: "sy_settled s \<union> sy_skipped s \<subseteq> ?S" by blast
  have "disp_ok evs' ?S (poll_commit d es)" by (rule poll_commit_table_ok [OF I(4) [OF d] I(5) [OF d b] t])
  moreover have "covered_upto evs' (fst m) ?S" if "sy_cursor s = Some m \<or> sy_write s = Some m" for m
    using that covered_mono [OF covered_table [OF I(2) t] sub] covered_mono [OF covered_table [OF I(3) t] sub] by blast
  ultimately show ?thesis
    using I(1) t by (intro dsys_invI) (simp_all add: Un_assoc table_step_def)
qed

lemma dsys_inv_settle:
  assumes inv: "dsys_inv s" and d: "sy_disp s = Some d"
  shows "dsys_inv (s\<lparr>sy_disp := Some (settled_callback i False d), sy_settled := insert i (sy_settled s)\<rparr>)"
proof -
  note I = dsys_invD [OF inv]
  let ?S = "insert i (sy_settled s \<union> sy_skipped s)"
  have sub: "sy_settled s \<union> sy_skipped s \<subseteq> ?S" by blast
  have "d_high_water_mark (settled_callback i False d) = d_high_water_mark d" by (simp add: settled_callback_def)
  then have "batch_ok (sy_events s) (settled_callback i False d) es" if "sy_batch s = Some es" for es
    using I(5) [OF d that] by (simp add: batch_ok_def)
  then show ?thesis
    using I(1) settle_ok [OF I(4) [OF d], of i] covered_mono [OF I(2) sub] covered_mono [OF I(3) sub]
    by (intro dsys_invI) simp_all
qed

lemma dsys_inv_written:
  assumes inv: "dsys_inv s" and w: "sy_write s = Some marks"
  shows "dsys_inv (s\<lparr>sy_cursor := write_cursor marks (sy_cursor s), sy_write := None,
      sy_disp := map_option (\<lambda>d. d\<lparr>d_persisted_marks := Some marks\<rparr>) (sy_disp s)\<rparr>)"
proof -
  note I = dsys_invD [OF inv]
  have "disp_ok (sy_events s) (sy_settled s \<union> sy_skipped s) (d\<lparr>d_persisted_marks := Some marks\<rparr>)"
    if "sy_disp s = Some d" for d
    using I(4) [OF that] by (simp add: disp_ok_def)
  moreover have "batch_ok (sy_events s) (d\<lparr>d_persisted_marks := Some marks\<rparr>) es"
    if "sy_disp s = Some d" "sy_batch s = Some es" for d es
    using I(5) [OF that] by (simp add: batch_ok_def)
  ultimately show ?thesis
    using I(1) write_covered [OF I(3) [OF w] I(2)] by (intro dsys_invI) auto
qed

lemma dsys_inv_step:
  assumes "dstep repr s s'" "dsys_inv s"
  shows "dsys_inv s'"
  using assms(1)
proof (cases rule: dstep.cases)
  case (log ok now a)
  then show ?thesis using dsys_inv_table [OF assms(2)] table_step_log dsys_invD(1) [OF assms(2)] by blast
next
  case (clear now i u)
  then show ?thesis using dsys_inv_table [OF assms(2)] table_step_same
    by (simp add: clear_alert_def update_where_ids)
next
  case (clear_all now u)
  then show ?thesis using dsys_inv_table [OF assms(2)] table_step_same
    by (simp add: clear_all_alerts_def update_where_ids)
next
  case (prune r now mb evs' n)
  then show ?thesis using dsys_inv_table [OF assms(2)] table_step_prune dsys_invD(1) [OF assms(2)] by blast
next
  case (start acc now ma d cur)
  then show ?thesis using dsys_inv_start [OF assms(2)] by blast
next
  case (read d es)
  note I = dsys_invD [OF assms(2)]
  have "batch_ok (sy_events s) d es"
    using read poll_read_ok [OF I(1)] by (auto simp: batch_ok_def [of _ _ "[]"])
  with read I show ?thesis by (intro dsys_invI) auto
next
  case (launch d es evs' now)
  then have "table_step (sy_events s) evs'" using table_step_same auto_clear_sync_ids by blast
  with launch show ?thesis using dsys_inv_launch [OF assms(2)] by blast
next
  case (poll_failed d es evs' now)
  then have "table_step (sy_events s) evs'" using table_step_same auto_clear_sync_ids by blast
  from dsys_invD [OF dsys_inv_table [OF assms(2) this]] poll_failed show ?thesis by (intro dsys_invI) auto
next
  case (settle d i)
  then show ?thesis using dsys_inv_settle [OF assms(2)] by blast
next
  case (persist d marks)
  note I = dsys_invD [OF assms(2)]
  from persist I persist_covered [OF I(4)] show ?thesis by (intro dsys_invI) auto
next
  case (written marks)
  then show ?thesis using dsys_inv_written [OF assms(2)] by blast
next
  case write_failed
  then show ?thesis using dsys_invD [OF assms(2)] by (intro dsys_invI) auto
next
  case (stop d)
  note I = dsys_invD [OF assms(2)]
  from stop I(4) [of d] have "disp_ok (sy_events s) (sy_settled s \<union> sy_skipped s) (stop_dispatcher d)"
    by (simp add: disp_ok_def stop_dispatcher_def)
  with stop I show ?thesis by (intro dsys_invI) auto
next
  case exit
  then show ?thesis using dsys_invD [OF assms(2)] by (intro dsys_invI) auto
qed

section \<open>At least once\<close>

lemma dsys_inv_init: "wf_events evs \<Longrightarrow> dsys_inv (dsys_init evs)"
  by (simp add: dsys_inv_def dsys_init_def)

lemma dsys_inv_reachable:
  assumes "(dstep repr)\<^sup>*\<^sup>* (dsys_init evs) s" "wf_events evs"
  shows "dsys_inv s"
  using assms(1) by (induction rule: rtranclp_induct) (auto intro: dsys_inv_init [OF assms(2)] dsys_inv_step)

text \<open>
  A cursor that can be read but whose catch-up range cannot be counted restarts from event zero,
  with no age limit, although the newest id was readable.
\<close>

lemma uncounted_catchup_replays:
  assumes "dm < newest_id evs" "sa_newest acc" "sa_cursor acc" "\<not> sa_count acc"
  shows "d_high_water_mark (fst (start_dispatcher acc now ma evs (Some (dm, rm)) new_dispatcher)) = 0"
    and "d_catchup_cutoff (fst (start_dispatcher acc now ma evs (Some (dm, rm)) new_dispatcher)) = None"
  using assms by (simp_all add: start_dispatcher_def load_start_position_def start_at_def Let_def new_dispatcher_def)

text \<open>
  C16.  However the poll loop, settling dispatches, cursor writes, event logging, clearing,
  pruning, crashes and restarts interleave, no event of the table is lost: an event at or below
  the stored delivery mark has settled or was deliberately skipped, and with a dispatcher
  running every other event is either in flight or still above the mark the next poll reads
  from.  Hence a restart from the stored cursor reads every event not yet settled or skipped.
\<close>

theorem dispatch_at_least_once:
  assumes "wf_events evs" "(dstep repr)\<^sup>*\<^sup>* (dsys_init evs) s" "i \<in> event_ids (sy_events s)"
  shows "(\<forall>m. sy_cursor s = Some m \<longrightarrow> i \<le> fst m \<longrightarrow> i \<in> sy_settled s \<union> sy_skipped s) \<and>
         (\<forall>d. sy_disp s = Some d \<longrightarrow>
            i \<in> sy_settled s \<union> sy_skipped s \<or> i \<in> set (d_in_flight d) \<or> d_high_water_mark d < i)"
proof -
  note I = dsys_invD [OF dsys_inv_reachable [OF assms(2,1)]]
  have "i \<in> sy_settled s \<union> sy_skipped s" if "sy_cursor s = Some m" "i \<le> fst m" for m
    using I(2) [OF that(1)] that(2) assms(3) by (auto simp: covered_upto_def)
  moreover have "i \<in> sy_settled s \<union> sy_skipped s \<or> i \<in> set (d_in_flight d) \<or> d_high_water_mark d < i"
    if "sy_disp s = Some d" for d
    using I(4) [OF that] assms(3) unfolding disp_ok_def covered_upto_def by force
  ultimately show ?thesis by blast
qed

text \<open>
  A run: the first start cannot read the table, the first poll takes its event, the dispatch
  settles, and the cursor is written.
\<close>

definition sample_started :: dispatcher where
  "sample_started = fst (start_dispatcher \<lparr>sa_newest = False, sa_cursor = False, sa_reset = False, sa_count = True\<rparr> 0 0
     [sample_event 1 ''error'' 5 VNone] None new_dispatcher)"

definition sample_batch :: "polled_event list" where
  "sample_batch = poll_new_events (\<lambda>_. []) sample_started [sample_event 1 ''error'' 5 VNone]"

definition sample_settled :: dispatcher where
  "sample_settled = settled_callback 1 False (poll_commit sample_started sample_batch)"

definition sample_run_end :: dsys where
  "sample_run_end = \<lparr>sy_events = [sample_event 1 ''error'' 5 VNone], sy_cursor = Some (1, 1),
     sy_disp = Some (sample_settled\<lparr>d_persisted_marks := Some (1, 1)\<rparr>), sy_batch = None, sy_write = None,
     sy_settled = {1}, sy_skipped = {}\<rparr>"

lemma sample_run: "(dstep (\<lambda>_. []))\<^sup>*\<^sup>* (dsys_init [sample_event 1 ''error'' 5 VNone]) sample_run_end"
proof -
  let ?evs = "[sample_event 1 ''error'' 5 VNone]"
  let ?st = "\<lambda>cur d b w st. \<lparr>sy_events = ?evs, sy_cursor = cur, sy_disp = d, sy_batch = b, sy_write = w,
    sy_settled = st, sy_skipped = {}\<rparr>"
  have d: "\<not> d_stopped sample_started" "can_poll sample_started" by code_simp+
  have start: "start_dispatcher \<lparr>sa_newest = False, sa_cursor = False, sa_reset = False, sa_count = True\<rparr> 0 0 ?evs None new_dispatcher =
    (sample_started, None)" by code_simp
  have "\<not> ev_id (sample_event 1 ''error'' 5 VNone) \<le> d_high_water_mark sample_started" by code_simp
  then have hw: "{i. i = ev_id (sample_event 1 ''error'' 5 VNone) \<and> i \<le> d_high_water_mark sample_started} = {}" by blast
  have "dstep (\<lambda>_. []) (?st None None None None {}) (?st None (Some sample_started) None None {})"
    using dstep.start [of "?st None None None None {}", simplified, OF start] by (simp add: resumes_def hw del: Collect_empty_eq)
  moreover have "dstep (\<lambda>_. []) (?st None (Some sample_started) None None {})
      (?st None (Some sample_started) (Some sample_batch) None {})"
    using dstep.read [of "?st None (Some sample_started) None None {}" sample_started sample_batch "\<lambda>_. []"] d
    by (simp add: sample_batch_def)
  moreover have skip: "pe_id ` {e \<in> set sample_batch. \<not> pe_deliver e} = {}" by code_simp
  have "dstep (\<lambda>_. []) (?st None (Some sample_started) (Some sample_batch) None {})
      (?st None (Some (poll_commit sample_started sample_batch)) None None {})"
    using dstep.launch [of "?st None (Some sample_started) (Some sample_batch) None {}" sample_started sample_batch ?evs "\<lambda>_. []"]
      d by (simp add: skip del: Collect_empty_eq image_is_empty)
  moreover have fl: "1 \<in> set (d_in_flight (poll_commit sample_started sample_batch))" by code_simp
  have "dstep (\<lambda>_. []) (?st None (Some (poll_commit sample_started sample_batch)) None None {})
      (?st None (Some sample_settled) None None {1})"
    using dstep.settle [of "?st None (Some (poll_commit sample_started sample_batch)) None None {}" _ 1] fl
    by (simp add: sample_settled_def)
  moreover have pm: "persist_marks sample_settled = Some (1, 1)" by code_simp
  have "dstep (\<lambda>_. []) (?st None (Some sample_settled) None None {1}) (?st None (Some sample_settled) None (Some (1, 1)) {1})"
    using dstep.persist [of "?st None (Some sample_settled) None None {1}" sample_settled] pm by simp
  moreover have "dstep (\<lambda>_. []) (?st None (Some sample_settled) None (Some (1, 1)) {1}) sample_run_end"
    using dstep.written [of "?st None (Some sample_settled) None (Some (1, 1)) {1}" "(1, 1)"]
    by (simp add: sample_run_end_def write_cursor_def)
  ultimately show ?thesis
    unfolding dsys_init_def by (meson converse_rtranclp_into_rtranclp rtranclp.rtrancl_refl)
qed

theorem dispatch_at_least_once_witness:
  "sy_cursor sample_run_end = Some (1, 1) \<and> 1 \<in> event_ids (sy_events sample_run_end) \<and>
   1 \<in> sy_settled sample_run_end \<union> sy_skipped sample_run_end"
proof -
  have "wf_events [sample_event 1 ''error'' 5 VNone]" by code_simp
  moreover have e: "sy_cursor sample_run_end = Some (1, 1)" "1 \<in> event_ids (sy_events sample_run_end)"
    by (simp_all add: sample_run_end_def sample_event_def)
  ultimately show ?thesis using dispatch_at_least_once [OF _ sample_run e(2)] by simp
qed

section \<open>Progress\<close>

definition unread :: "dispatcher \<Rightarrow> event list \<Rightarrow> event list" where
  "unread d evs = filter (\<lambda>e. d_high_water_mark d < ev_id e) evs"

text \<open>
  The loop of \<open>_poll_loop\<close> over a fixed table: each turn polls unless the in-flight limit holds it
  back, then some dispatches settle.  The result is the dispatcher and the ids launched.
\<close>

fun poll_turns :: "(pyval \<Rightarrow> string) \<Rightarrow> event list \<Rightarrow> int list list \<Rightarrow> dispatcher \<Rightarrow> dispatcher \<times> int list" where
  "poll_turns repr evs [] d = (d, [])"
| "poll_turns repr evs (settling # turns) d =
     (let es = (if can_poll d then poll_new_events repr d evs else []);
          d1 = (if can_poll d then poll_commit d es else d);
          d2 = foldl (\<lambda>d i. settled_callback i False d) d1 settling;
          (d3, launched) = poll_turns repr evs turns d2
      in (d3, map pe_id (filter pe_deliver es) @ launched))"

lemma settling_simps [simp]:
  "d_high_water_mark (foldl (\<lambda>d i. settled_callback i False d) d settling) = d_high_water_mark d"
  "d_catchup_cutoff (foldl (\<lambda>d i. settled_callback i False d) d settling) = d_catchup_cutoff d"
  "d_catchup_until (foldl (\<lambda>d i. settled_callback i False d) d settling) = d_catchup_until d"
  "d_in_flight (foldl (\<lambda>d i. settled_callback i False d) d settling) =
     filter (\<lambda>i. i \<notin> set settling) (d_in_flight d)"
  by (induction settling arbitrary: d) (auto simp: settled_callback_def intro!: filter_cong)

definition stale :: "(pyval \<Rightarrow> string) \<Rightarrow> dispatcher \<Rightarrow> event \<Rightarrow> bool" where
  "stale repr d e \<longleftrightarrow> is_stale_catchup d (ev_id e) (message_from_event repr e)"

lemma stale_settling [simp]:
  "stale repr (foldl (\<lambda>d i. settled_callback i False d) d settling) e = stale repr d e"
  by (simp add: stale_def is_stale_catchup_def split: option.splits)

lemma poll_new_events_unread:
  "map pe_id (poll_new_events repr d evs) = map ev_id (take poll_batch_size (unread d evs))"
  "map pe_id (filter pe_deliver (poll_new_events repr d evs)) =
     map ev_id (filter (\<lambda>e. \<not> stale repr d e) (take poll_batch_size (unread d evs)))"
  "length (poll_new_events repr d evs) \<le> poll_batch_size"
  by (simp_all add: poll_new_events_def unread_def stale_def Let_def filter_map comp_def)

lemma poll_commit_mark:
  "d_high_water_mark (poll_commit d es) = (if es = [] then d_high_water_mark d else max (d_high_water_mark d) (last (map pe_id es)))"
  by (simp add: poll_commit_def Let_def last_map)

lemma sorted_above_last_take:
  assumes "sorted_wrt (<) (map f xs)" "xs \<noteq> []" "0 < n"
  shows "filter (\<lambda>x. (f (last (take n xs)) :: int) < f x) xs = drop n xs"
proof -
  have ne: "take n xs \<noteq> []" using assms(2,3) by (cases xs; cases n) auto
  have s: "sorted_wrt (<) (map f (take n xs) @ map f (drop n xs))" using assms(1)
    by (metis append_take_drop_id map_append)
  have low: "f x \<le> f (last (take n xs))" if "x \<in> set (take n xs)" for x
    using sorted_wrt_le_last [of "map f (take n xs)" "f x"] s that ne
    by (simp add: sorted_wrt_append last_map)
  have high: "f (last (take n xs)) < f x" if "x \<in> set (drop n xs)" for x
    using s that last_in_set [OF ne] by (simp add: sorted_wrt_append)
  have "filter (\<lambda>x. f (last (take n xs)) < f x) (take n xs @ drop n xs) = drop n xs"
    unfolding filter_append using low high by (auto simp: filter_empty_conv not_less intro!: filter_True)
  then show ?thesis by simp
qed

lemma unread_poll:
  assumes "wf_events evs"
  shows "unread (poll_commit d (poll_new_events repr d evs)) evs = drop poll_batch_size (unread d evs)"
proof (cases "unread d evs = []")
  case True
  then show ?thesis by (simp add: poll_commit_mark poll_new_events_def unread_def)
next
  case False
  let ?xs = "unread d evs" and ?es = "poll_new_events repr d evs"
  have ne: "take poll_batch_size ?xs \<noteq> []" using False by (simp add: poll_batch_size_def)
  then have es: "?es \<noteq> []" using poll_new_events_unread(1) [of repr d evs] by fastforce
  have l: "last (map pe_id ?es) = ev_id (last (take poll_batch_size ?xs))"
    unfolding poll_new_events_unread(1) using ne by (rule last_map)
  have "last (take poll_batch_size ?xs) \<in> set ?xs" using last_in_set [OF ne] in_set_takeD by metis
  then have gt: "d_high_water_mark d < ev_id (last (take poll_batch_size ?xs))" by (simp add: unread_def)
  have srt: "sorted_wrt (<) (map ev_id ?xs)"
    using wf_events_filter [OF assms] unfolding unread_def by (simp add: wf_events_def)
  have "unread (poll_commit d ?es) evs = filter (\<lambda>e. ev_id (last (take poll_batch_size ?xs)) < ev_id e) evs"
    using gt es l by (simp add: unread_def [of "poll_commit d ?es"] poll_commit_mark)
  also have "\<dots> = filter (\<lambda>e. ev_id (last (take poll_batch_size ?xs)) < ev_id e) ?xs"
    using gt unfolding unread_def filter_filter by (intro filter_cong) auto
  also have "\<dots> = drop poll_batch_size ?xs"
    by (rule sorted_above_last_take [OF srt False]) (simp add: poll_batch_size_def)
  finally show ?thesis .
qed

lemma stale_poll:
  assumes "d_high_water_mark (poll_commit d es) < ev_id e"
  shows "stale repr (poll_commit d es) e = stale repr d e"
  using assms
  by (auto simp: stale_def poll_commit_def Let_def is_stale_catchup_def end_catchup_if_passed_def split: option.splits if_splits)

lemma in_flight_poll:
  assumes "can_poll d"
  shows "length (d_in_flight (poll_commit d (poll_new_events repr d evs))) < 2 * poll_batch_size"
    and "set (d_in_flight (poll_commit d (poll_new_events repr d evs))) \<subseteq> set (d_in_flight d) \<union> event_ids evs"
proof -
  let ?es = "poll_new_events repr d evs"
  have "length (filter P (map pe_id (filter pe_deliver ?es))) \<le> poll_batch_size" for P
    by (rule order_trans [OF length_filter_le]) (simp add: poll_new_events_unread(3) order_trans [OF length_filter_le])
  from this [of "\<lambda>i. i \<notin> set (d_in_flight d)"]
  show "length (d_in_flight (poll_commit d ?es)) < 2 * poll_batch_size"
    using assms by (simp add: can_poll_def poll_commit_def Let_def)
  have "set (map pe_id (filter pe_deliver ?es)) \<subseteq> event_ids evs"
    unfolding poll_new_events_unread(2) by (auto simp: unread_def dest: in_set_takeD)
  then show "set (d_in_flight (poll_commit d ?es)) \<subseteq> set (d_in_flight d) \<union> event_ids evs"
    by (auto simp: poll_commit_def Let_def)
qed

lemma settled_turn:
  assumes "can_poll d" "set (d_in_flight d) \<subseteq> event_ids evs" "event_ids evs \<subseteq> set settling"
  shows "d_in_flight (foldl (\<lambda>d i. settled_callback i False d) (poll_commit d (poll_new_events repr d evs)) settling) = []"
  using in_flight_poll(2) [OF assms(1), of repr evs] assms(2,3) by (auto simp: filter_empty_conv)

lemma poll_turns_launched:
  assumes "wf_events evs" "poll_turns repr evs turns d = (d', launched)"
  shows "\<exists>n \<le> poll_batch_size * length turns.
    unread d' evs = drop n (unread d evs) \<and>
    launched = map ev_id (filter (\<lambda>e. \<not> stale repr d e) (take n (unread d evs)))"
  using assms(2)
proof (induction turns arbitrary: d launched)
  case Nil
  then show ?case by (intro exI [of _ 0]) simp
next
  case (Cons settling turns)
  define d1 where "d1 = (if can_poll d then poll_commit d (poll_new_events repr d evs) else d)"
  define k where "k = (if can_poll d then poll_batch_size else 0)"
  define d2 where "d2 = foldl (\<lambda>d i. settled_callback i False d) d1 settling"
  obtain l where l: "poll_turns repr evs turns d2 = (d', l)"
    and launched: "launched = map pe_id (filter pe_deliver (if can_poll d then poll_new_events repr d evs else [])) @ l"
    using Cons.prems by (auto simp: d1_def d2_def Let_def split: prod.splits if_splits)
  have u: "unread d2 evs = drop k (unread d evs)"
    using unread_poll [OF assms(1), of d repr] by (auto simp: d2_def d1_def k_def unread_def)
  have "stale repr d2 e = stale repr d e" if "e \<in> set (unread d2 evs)" for e
    using that stale_poll [of d _ e repr] by (auto simp: d2_def d1_def unread_def)
  then have st: "filter (\<lambda>e. \<not> stale repr d2 e) (take m (unread d2 evs)) =
      filter (\<lambda>e. \<not> stale repr d e) (take m (drop k (unread d evs)))" for m
    unfolding u [symmetric] by (intro filter_cong) (auto dest: in_set_takeD)
  from Cons.IH [OF l] obtain n where n: "n \<le> poll_batch_size * length turns" "unread d' evs = drop n (unread d2 evs)"
    "l = map ev_id (filter (\<lambda>e. \<not> stale repr d2 e) (take n (unread d2 evs)))" by blast
  have "map pe_id (filter pe_deliver (if can_poll d then poll_new_events repr d evs else [])) =
      map ev_id (filter (\<lambda>e. \<not> stale repr d e) (take k (unread d evs)))"
    using poll_new_events_unread(2) [of repr d evs] by (simp add: k_def)
  then have "launched = map ev_id (filter (\<lambda>e. \<not> stale repr d e) (take (k + n) (unread d evs)))"
    using launched n(3) st [of n] by (simp add: take_add)
  moreover have "unread d' evs = drop (k + n) (unread d evs)" using n(2) u by (simp add: add.commute)
  moreover have "k + n \<le> poll_batch_size * length (settling # turns)" using n(1) by (simp add: k_def)
  ultimately show ?case by blast
qed

lemma poll_turns_all_settled:
  assumes "wf_events evs" "poll_turns repr evs turns d = (d', launched)" "d_in_flight d = []"
    "\<forall>settling\<in>set turns. event_ids evs \<subseteq> set settling"
  shows "unread d' evs = drop (poll_batch_size * length turns) (unread d evs)"
  using assms(2-4)
proof (induction turns arbitrary: d launched)
  case (Cons settling turns)
  have can: "can_poll d" using Cons.prems(2) by (simp add: can_poll_def poll_batch_size_def)
  let ?d2 = "foldl (\<lambda>d i. settled_callback i False d) (poll_commit d (poll_new_events repr d evs)) settling"
  obtain l where "poll_turns repr evs turns ?d2 = (d', l)"
    using Cons.prems(1) can by (auto simp: Let_def split: prod.splits)
  moreover have "d_in_flight ?d2 = []"
    using settled_turn [OF can, of evs settling repr] Cons.prems(2,3) by simp
  ultimately have "unread d' evs = drop (poll_batch_size * length turns) (unread ?d2 evs)"
    using Cons.IH Cons.prems(3) by simp
  also have "unread ?d2 evs = drop poll_batch_size (unread d evs)"
    using unread_poll [OF assms(1), of d repr] by (simp add: unread_def)
  finally show ?case by (simp add: algebra_simps)
qed simp

lemma poll_turns_in_flight:
  assumes "poll_turns repr evs turns d = (d', launched)" "length (d_in_flight d) < 2 * poll_batch_size"
  shows "length (d_in_flight d') < 2 * poll_batch_size"
  using assms
proof (induction turns arbitrary: d launched)
  case (Cons settling turns)
  define d1 where "d1 = (if can_poll d then poll_commit d (poll_new_events repr d evs) else d)"
  have "length (d_in_flight d1) < 2 * poll_batch_size"
    using in_flight_poll(1) [of d repr evs] Cons.prems(2) by (simp add: d1_def)
  then have "length (d_in_flight (foldl (\<lambda>d i. settled_callback i False d) d1 settling)) < 2 * poll_batch_size"
    by (simp add: le_less_trans [OF length_filter_le])
  with Cons show ?case by (auto simp: d1_def Let_def split: prod.splits if_splits)
qed simp

text \<open>
  C17.  Progress of the poll loop.  Over any turns, whatever dispatches settle in between, the
  ids launched are those of a prefix of the unread events, in id order, each exactly once, the
  stale ones left out; never more than twice the batch size are in flight; and if dispatches
  settle between turns, enough turns launch every unread event that is not stale.
\<close>

theorem poll_loop_progress:
  assumes "wf_events evs" "d_in_flight d = []" "poll_turns repr evs turns d = (d', launched)"
  shows "(\<exists>n \<le> 200 * length turns. unread d' evs = drop n (unread d evs) \<and>
            launched = map ev_id (filter (\<lambda>e. \<not> stale repr d e) (take n (unread d evs)))) \<and>
         length (d_in_flight d') < 400 \<and>
         ((\<forall>settling\<in>set turns. event_ids evs \<subseteq> set settling) \<and> length (unread d evs) \<le> 200 * length turns \<longrightarrow>
            unread d' evs = [] \<and> launched = map ev_id (filter (\<lambda>e. \<not> stale repr d e) (unread d evs)))"
proof -
  obtain n where n: "n \<le> 200 * length turns" "unread d' evs = drop n (unread d evs)"
    "launched = map ev_id (filter (\<lambda>e. \<not> stale repr d e) (take n (unread d evs)))"
    using poll_turns_launched [OF assms(1,3)] by (auto simp: poll_batch_size_def)
  have b: "length (d_in_flight d') < 400"
    using poll_turns_in_flight [OF assms(3)] assms(2) by (simp add: poll_batch_size_def)
  have "unread d' evs = [] \<and> launched = map ev_id (filter (\<lambda>e. \<not> stale repr d e) (unread d evs))"
    if "\<forall>settling\<in>set turns. event_ids evs \<subseteq> set settling" "length (unread d evs) \<le> 200 * length turns"
  proof -
    have "unread d' evs = []"
      using poll_turns_all_settled [OF assms(1,3,2) that(1)] that(2) by (simp add: poll_batch_size_def)
    then have "length (unread d evs) \<le> n" using n(2) by simp
    with n(3) \<open>unread d' evs = []\<close> show ?thesis by simp
  qed
  with n b show ?thesis by blast
qed

theorem poll_loop_progress_witness:
  "unread (fst (poll_turns (\<lambda>_. []) [sample_event 1 ''info'' 5 VNone, sample_event 2 ''error'' 6 VNone] [[1, 2]]
     sample_started)) [sample_event 1 ''info'' 5 VNone, sample_event 2 ''error'' 6 VNone] = [] \<and>
   snd (poll_turns (\<lambda>_. []) [sample_event 1 ''info'' 5 VNone, sample_event 2 ''error'' 6 VNone] [[1, 2]] sample_started) = [1, 2]"
proof -
  let ?evs = "[sample_event 1 ''info'' 5 VNone, sample_event 2 ''error'' 6 VNone]"
  have "wf_events ?evs" "d_in_flight sample_started = []" by code_simp+
  from poll_loop_progress [OF this prod.collapse [symmetric, of "poll_turns (\<lambda>_. []) ?evs [[1, 2]] sample_started"]]
  have "(\<forall>settling\<in>set [[1, 2]]. event_ids ?evs \<subseteq> set settling) \<and> length (unread sample_started ?evs) \<le> 200 * length [[1::int, 2]] \<longrightarrow>
      unread (fst (poll_turns (\<lambda>_. []) ?evs [[1, 2]] sample_started)) ?evs = [] \<and>
      snd (poll_turns (\<lambda>_. []) ?evs [[1, 2]] sample_started) =
        map ev_id (filter (\<lambda>e. \<not> stale (\<lambda>_. []) sample_started e) (unread sample_started ?evs))" by blast
  moreover have "unread sample_started ?evs = ?evs" "map ev_id (filter (\<lambda>e. \<not> stale (\<lambda>_. []) sample_started e) ?evs) = [1, 2]"
    by code_simp+
  ultimately show ?thesis by (simp add: sample_event_def)
qed

section \<open>Auto-clear\<close>

text \<open>What it means that a polled event resolves an alert.\<close>

definition resolves :: "(pyval \<Rightarrow> string) \<Rightarrow> int \<times> notification_message \<Rightarrow> event \<Rightarrow> bool" where
  "resolves repr x e \<longleftrightarrow>
     (case reason_of_message repr (snd x) of
        None \<Rightarrow> False
      | Some r \<Rightarrow>
         (case map_of resolve_to_raise_reasons r of
            None \<Rightarrow> False
          | Some raised \<Rightarrow> json_in (ev_metadata e) ''reason'' raised \<and> ev_scope e = nm_scope (snd x) \<and>
              ev_scope_id e = nm_scope_id (snd x) \<and> ev_id e < fst x))"

lemma resolve_reasons_nonempty: "map_of resolve_to_raise_reasons r = Some raised \<Longrightarrow> raised \<noteq> []"
  by (auto simp: resolve_to_raise_reasons_def split: if_splits)

lemma auto_clear_one:
  "fst (auto_clear_for_event now (nm_scope m) (nm_scope_id m) (reason_of_message repr m) (Some i) evs) =
   map (\<lambda>e. if ev_cleared_at e = None \<and> resolves repr (i, m) e then clear_event now None ''auto'' e else e) evs"
  by (auto simp: auto_clear_for_event_def resolves_def update_where_def auto_clear_matches_def
      dest: resolve_reasons_nonempty split: option.splits)

lemma cleared_simps [simp]:
  "ev_cleared_at (clear_event now u why e) = Some now"
  by (simp add: clear_event_def)

text \<open>
  C18.  The auto-clear pass over a polled batch closes exactly the open alerts some event of the
  batch resolves: same scope and target, a raise reason that event's reason answers, and logged
  before it.  Every other row is untouched, and the order of the batch does not matter.
\<close>

theorem auto_clear_exact:
  "auto_clear_alerts_sync repr now batch evs =
   map (\<lambda>e. if ev_cleared_at e = None \<and> (\<exists>x\<in>set batch. resolves repr x e) then clear_event now None ''auto'' e else e) evs"
proof (induction batch arbitrary: evs)
  case Nil
  then show ?case by (simp add: auto_clear_alerts_sync_def)
next
  case (Cons x batch)
  obtain i m where x: "x = (i, m)" by (cases x)
  have "auto_clear_alerts_sync repr now (x # batch) evs =
      auto_clear_alerts_sync repr now batch
        (map (\<lambda>e. if ev_cleared_at e = None \<and> resolves repr (i, m) e then clear_event now None ''auto'' e else e) evs)"
    by (simp add: auto_clear_alerts_sync_def x auto_clear_one)
  then show ?case unfolding Cons.IH by (auto simp: x)
qed

end
