(* ===== verification/Sliding_Budget.thy ===== *)
theory Sliding_Budget
  imports Prelude
begin

text \<open>
  The contract of a limiter with a sliding window, and what it gives: over any run, at most the
  budget of attempts against a key is granted in any window.  The login throttle and the
  attempt limiter are its two interpretations.
\<close>

text \<open>A run of timed operations: those granted, and the final state.\<close>

fun run_steps :: "('t \<Rightarrow> 'op \<Rightarrow> 's \<Rightarrow> bool \<times> 's) \<Rightarrow> ('t \<times> 'op) list \<Rightarrow> 's \<Rightarrow> ('t \<times> 'op) list \<times> 's" where
  "run_steps step [] s = ([], s)"
| "run_steps step ((now, op) # ops) s =
     (let (granted, s1) = step now op s; (gs, s2) = run_steps step ops s1
      in (if granted then (now, op) # gs else gs, s2))"

lemma run_steps_snoc:
  "run_steps step (ops @ [(now, op)]) s =
     (let (gs, s1) = run_steps step ops s; (granted, s2) = step now op s1
      in (if granted then gs @ [(now, op)] else gs, s2))"
  by (induction ops arbitrary: s) (auto split: prod.splits)

lemma length_filter_imp: "(\<And>x. P x \<Longrightarrow> Q x) \<Longrightarrow> length (filter P xs) \<le> length (filter Q xs)"
  by (induction xs) (auto simp: le_Suc_eq)

text \<open>
  \<open>hits s k\<close> are the times of the attempts counted against \<open>k\<close>, \<open>alive now t\<close> says that one of
  time \<open>t\<close> still counts, and \<open>inv now s\<close> is what holds of the state at time \<open>now\<close>.
\<close>

locale sliding_budget =
  fixes step :: "'t::linorder \<Rightarrow> 'op \<Rightarrow> 's \<Rightarrow> bool \<times> 's"
    and keys :: "'op \<Rightarrow> 'k set"
    and hits :: "'s \<Rightarrow> 'k \<Rightarrow> 't list"
    and alive :: "'t \<Rightarrow> 't \<Rightarrow> bool"
    and budget :: nat
    and inv :: "'t \<Rightarrow> 's \<Rightarrow> bool"
  assumes alive_antimono: "now \<le> now' \<Longrightarrow> alive now' t \<Longrightarrow> alive now t"
    and inv_mono: "inv now s \<Longrightarrow> now \<le> now' \<Longrightarrow> inv now' s"
    and inv_step: "inv now s \<Longrightarrow> step now op s = (granted, s') \<Longrightarrow> inv now s'"
    and counted: "inv now s \<Longrightarrow> step now op s = (True, s') \<Longrightarrow> k \<in> keys op \<Longrightarrow>
      length (filter (alive now) (hits s k)) < budget \<and>
      filter (alive now) (hits s' k) = filter (alive now) (hits s k @ [now])"
    and uncounted: "inv now s \<Longrightarrow> step now op s = (granted, s') \<Longrightarrow> \<not> (granted \<and> k \<in> keys op) \<Longrightarrow>
      filter (alive now) (hits s' k) = filter (alive now) (hits s k)"
begin

lemma filter_alive_later:
  assumes "filter (alive now) xs = filter (alive now) ys" "now \<le> now'"
  shows "filter (alive now') xs = filter (alive now') ys"
proof -
  have "filter (alive now') zs = filter (alive now') (filter (alive now) zs)" for zs
    using alive_antimono [OF assms(2)] by (induction zs) auto
  then show ?thesis using assms(1) by metis
qed

definition against :: "'k \<Rightarrow> ('t \<times> 'op) list \<Rightarrow> 't list" where
  "against k gs = map fst (filter (\<lambda>g. k \<in> keys (snd g)) gs)"

lemma against_append [simp]: "against k (gs @ hs) = against k gs @ against k hs"
  by (simp add: against_def)

lemma against_set: "t \<in> set (against k gs) \<Longrightarrow> \<exists>g\<in>set gs. fst g = t"
  by (auto simp: against_def)

lemma run_invariant:
  assumes "run_steps step ops s = (gs, s')" "sorted (map fst ops)" "\<forall>x\<in>set ops. t0 \<le> fst x" "inv t0 s" "hits s k = []"
    "\<forall>x\<in>set ops. fst x \<le> now" "t0 \<le> now"
  shows "inv now s' \<and> filter (alive now) (hits s' k) = filter (alive now) (against k gs) \<and>
    (\<forall>t. length (filter (\<lambda>u. u \<le> t \<and> alive t u) (against k gs)) \<le> budget)"
  using assms
proof (induction ops arbitrary: gs s' now rule: rev_induct)
  case Nil
  then show ?case using inv_mono by (auto simp: against_def)
next
  case (snoc x ops)
  obtain m op where x: "x = (m, op)" by (cases x)
  obtain hs s1 where r1: "run_steps step ops s = (hs, s1)" by (cases "run_steps step ops s")
  obtain g s2 where r2: "step m op s1 = (g, s2)" by (cases "step m op s1")
  have gs: "gs = (if g then hs @ [(m, op)] else hs)" "s' = s2"
    using snoc.prems(1) by (simp_all add: x run_steps_snoc r1 r2)
  have le: "\<forall>y\<in>set ops. fst y \<le> m" using snoc.prems(2) by (auto simp: x sorted_wrt_append)
  have srt: "sorted (map fst ops)" using snoc.prems(2) by (simp add: sorted_wrt_append)
  have mnow: "m \<le> now" and t0m: "t0 \<le> m" using snoc.prems(3,6) by (simp_all add: x)
  have IH: "inv m s1" "filter (alive m) (hits s1 k) = filter (alive m) (against k hs)"
    "length (filter (\<lambda>u. u \<le> t \<and> alive t u) (against k hs)) \<le> budget" for t
    using snoc.IH [OF r1 srt _ snoc.prems(4,5) le t0m] snoc.prems(3) by auto
  have inv: "inv now s'" using inv_mono [OF inv_step [OF IH(1) r2] mnow] gs(2) by simp
  show ?case
  proof (cases "g \<and> k \<in> keys op")
    case True
    then have r: "step m op s1 = (True, s2)" using r2 by simp
    note c = counted [OF IH(1) r, of k]
    have ag: "against k gs = against k hs @ [m]" using True gs(1) by (simp add: against_def)
    have eq: "filter (alive m) (hits s2 k) = filter (alive m) (against k gs)"
      using c True IH(2) by (simp add: ag)
    have "length (filter (\<lambda>u. u \<le> t \<and> alive t u) (against k gs)) \<le> budget" for t
    proof (cases "t < m")
      case lt: True
      then show ?thesis using IH(3) [of t] by (auto simp: ag)
    next
      case False
      then have "length (filter (\<lambda>u. u \<le> t \<and> alive t u) (against k hs)) \<le> length (filter (alive m) (against k hs))"
        using alive_antimono [of m t] by (intro length_filter_imp) auto
      also have "\<dots> < budget" using c True IH(2) by simp
      finally show ?thesis by (simp add: ag)
    qed
    with eq inv show ?thesis using filter_alive_later [OF eq mnow] gs(2) by blast
  next
    case False
    note u = uncounted [OF IH(1) r2 False]
    have ag: "against k gs = against k hs" using False gs(1) by (auto simp: against_def)
    have "filter (alive m) (hits s2 k) = filter (alive m) (against k gs)" using u IH(2) by (simp add: ag)
    from filter_alive_later [OF this mnow] inv IH(3) gs(2) show ?thesis by (simp add: ag)
  qed
qed

lemma window_budget:
  assumes "run_steps step ops s = (gs, s')" "sorted (map fst ops)" "\<forall>x\<in>set ops. t0 \<le> fst x" "inv t0 s" "hits s k = []"
  shows "length (filter (\<lambda>g. fst g \<le> t \<and> alive t (fst g) \<and> k \<in> keys (snd g)) gs) \<le> budget"
proof -
  let ?now = "foldr max (map fst ops) t0"
  have "\<forall>x\<in>set ops. fst x \<le> ?now" "t0 \<le> ?now" by (induction ops) (auto simp: le_max_iff_disj)
  from run_invariant [OF assms this]
  have "length (filter (\<lambda>u. u \<le> t \<and> alive t u) (against k gs)) \<le> budget" by blast
  then show ?thesis by (simp add: against_def filter_map comp_def conj_ac)
qed

end

end
