(* ===== verification/Login_Throttle.thy ===== *)
theory Login_Throttle
  imports Sliding_Budget
begin

text \<open>
  The brute-force login throttle (\<open>security/throttle.py\<close>): the table of attempts, the counts
  over the sliding window, reservation before the password check, release, and the delay per
  username.  The table is a list of rows in insertion order; times are in microseconds.
  \<open>ukey\<close> stands for \<open>username_key\<close>, which calls the Unicode library.
\<close>

section \<open>State and counts\<close>

record login_attempt =
  lt_id :: int
  lt_ip :: string
  lt_username :: string
  lt_attempted_at :: int
  lt_succeeded :: bool

record auth_settings =
  throttle_max_failures :: int
  throttle_window :: int
  throttle_global_max_failures :: int
  local_backoff_after_failures :: int

record login_reservation =
  lr_attempt_id :: int
  lr_ip :: string
  lr_username :: string
  lr_delay_seconds :: rat

definition local_backoff_max_seconds :: rat where "local_backoff_max_seconds = 30"

definition password_change_prefix :: string where "password_change_prefix = ''account:''"

definition password_change_key :: "int \<Rightarrow> string" where
  "password_change_key user_id = password_change_prefix @ show_int user_id"

text \<open>SQLite's \<open>LIKE\<close> ignores the case of ASCII letters.\<close>

definition is_password_change :: "string \<Rightarrow> bool" where
  "is_password_change ip \<longleftrightarrow>
     take (length password_change_prefix) (map ascii_lower ip) = password_change_prefix"

definition backoff_seconds :: "int \<Rightarrow> int \<Rightarrow> rat" where
  "backoff_seconds prior_failures after =
     (if prior_failures < after then 0
      else (let exponent = min (prior_failures - after) 16
            in min (2 ^ nat exponent) local_backoff_max_seconds))"

definition next_attempt_id :: "login_attempt list \<Rightarrow> int" where
  "next_attempt_id rows = foldr (\<lambda>r m. max (lt_id r) m) rows 0 + 1"

text \<open>A later success of the same source and username.\<close>

definition later_success :: "login_attempt list \<Rightarrow> login_attempt \<Rightarrow> bool" where
  "later_success rows f \<longleftrightarrow>
     (\<exists>r\<in>set rows. lt_ip r = lt_ip f \<and> lt_username r = lt_username f \<and> lt_succeeded r \<and>
        lt_attempted_at r > lt_attempted_at f)"

definition recent_ip_failures :: "string \<Rightarrow> int \<Rightarrow> login_attempt list \<Rightarrow> int" where
  "recent_ip_failures ip cutoff rows =
     int (length (filter (\<lambda>f. lt_ip f = ip \<and> \<not> lt_succeeded f \<and> lt_attempted_at f \<ge> cutoff \<and>
        \<not> later_success rows f) rows))"

definition recent_username_failures :: "string \<Rightarrow> int \<Rightarrow> login_attempt list \<Rightarrow> int" where
  "recent_username_failures username cutoff rows =
     int (length (filter (\<lambda>f. lt_username f = username \<and> \<not> lt_succeeded f \<and> lt_attempted_at f \<ge> cutoff \<and>
        \<not> is_password_change (lt_ip f) \<and>
        \<not> (later_success (filter (\<lambda>r. \<not> is_password_change (lt_ip r)) rows) f)) rows))"

definition recent_login_failures :: "int \<Rightarrow> login_attempt list \<Rightarrow> int" where
  "recent_login_failures cutoff rows =
     int (length (filter (\<lambda>f. \<not> lt_succeeded f \<and> lt_attempted_at f \<ge> cutoff \<and> \<not> is_password_change (lt_ip f)) rows))"

section \<open>Operations\<close>

definition prune_attempts :: "int \<Rightarrow> login_attempt list \<Rightarrow> login_attempt list" where
  "prune_attempts cutoff rows = filter (\<lambda>r. \<not> lt_attempted_at r < cutoff) rows"

definition backoff_delay :: "auth_settings \<Rightarrow> string \<Rightarrow> int \<Rightarrow> login_attempt list \<Rightarrow> rat" where
  "backoff_delay cfg username cutoff rows =
     (let prior = recent_username_failures username cutoff rows;
          prior' = (if recent_login_failures cutoff rows \<ge> throttle_global_max_failures cfg
                    then max prior (local_backoff_after_failures cfg) else prior)
      in backoff_seconds prior' (local_backoff_after_failures cfg))"

definition is_throttled :: "auth_settings \<Rightarrow> int \<Rightarrow> string \<Rightarrow> string \<Rightarrow> login_attempt list \<Rightarrow> bool" where
  "is_throttled cfg now ip username rows \<longleftrightarrow>
     recent_ip_failures ip (now - throttle_window cfg) rows \<ge> throttle_max_failures cfg"

definition attempt_row :: "login_attempt list \<Rightarrow> string \<Rightarrow> string \<Rightarrow> int \<Rightarrow> bool \<Rightarrow> login_attempt" where
  "attempt_row rows ip username now succeeded =
     \<lparr>lt_id = next_attempt_id rows, lt_ip = ip, lt_username = username, lt_attempted_at = now, lt_succeeded = succeeded\<rparr>"

definition try_reserve ::
  "(string \<Rightarrow> string) \<Rightarrow> auth_settings \<Rightarrow> int \<Rightarrow> string \<Rightarrow> string \<Rightarrow> bool \<Rightarrow> login_attempt list \<Rightarrow>
   login_reservation option \<times> login_attempt list" where
  "try_reserve ukey cfg now ip username backoff rows =
     (let key = ukey username;
          cutoff = now - throttle_window cfg;
          rows1 = prune_attempts cutoff rows
      in if recent_ip_failures ip cutoff rows1 \<ge> throttle_max_failures cfg then (None, rows1)
         else
          (let delay = (if backoff then backoff_delay cfg key cutoff rows1 else 0);
               row = attempt_row rows1 ip key now False
           in (Some \<lparr>lr_attempt_id = lt_id row, lr_ip = ip, lr_username = key, lr_delay_seconds = delay\<rparr>,
               rows1 @ [row])))"

definition record_failure :: "auth_settings \<Rightarrow> int \<Rightarrow> string \<Rightarrow> string \<Rightarrow> login_attempt list \<Rightarrow> login_attempt list" where
  "record_failure cfg now ip username rows =
     prune_attempts (now - throttle_window cfg) (rows @ [attempt_row rows ip username now False])"

definition record_success :: "auth_settings \<Rightarrow> int \<Rightarrow> string \<Rightarrow> string \<Rightarrow> login_attempt list \<Rightarrow> login_attempt list" where
  "record_success cfg now ip username rows =
     prune_attempts (now - throttle_window cfg) (rows @ [attempt_row rows ip username now True])"

definition release_attempt :: "auth_settings \<Rightarrow> int \<Rightarrow> login_reservation \<Rightarrow> bool \<Rightarrow> login_attempt list \<Rightarrow> login_attempt list" where
  "release_attempt cfg now r succeeded rows =
     (let rows1 = filter (\<lambda>row. lt_id row \<noteq> lr_attempt_id r) rows
      in if succeeded then record_success cfg now (lr_ip r) (lr_username r) rows1 else rows1)"

section \<open>The table\<close>

text \<open>Distinct positive ids, and no row of the future.\<close>

definition wf_attempts :: "int \<Rightarrow> login_attempt list \<Rightarrow> bool" where
  "wf_attempts now rows \<longleftrightarrow>
     distinct (map lt_id rows) \<and> (\<forall>r\<in>set rows. 0 < lt_id r \<and> lt_attempted_at r \<le> now)"

lemma next_attempt_id_gt: "r \<in> set rows \<Longrightarrow> lt_id r < next_attempt_id rows"
  by (induction rows) (auto simp: next_attempt_id_def)

lemma next_attempt_id_pos: "0 < next_attempt_id rows"
  by (induction rows) (auto simp: next_attempt_id_def)

lemma wf_attempts_filter: "wf_attempts now rows \<Longrightarrow> wf_attempts now (filter p rows)"
  by (auto simp: wf_attempts_def distinct_map_filter)

lemma wf_attempts_insert:
  "wf_attempts now rows \<Longrightarrow> wf_attempts now (rows @ [attempt_row rows ip u now ok])"
  using next_attempt_id_gt [of _ rows] next_attempt_id_pos [of rows]
  by (force simp: wf_attempts_def attempt_row_def)

lemma wf_attempts_prune: "wf_attempts now rows \<Longrightarrow> wf_attempts now (prune_attempts cutoff rows)"
  by (simp add: prune_attempts_def wf_attempts_filter)

lemma wf_attempts_reserve:
  "wf_attempts now rows \<Longrightarrow> wf_attempts now (snd (try_reserve ukey cfg now ip u b rows))"
  by (simp add: try_reserve_def Let_def wf_attempts_prune wf_attempts_insert)

lemma wf_attempts_release:
  "wf_attempts now rows \<Longrightarrow> wf_attempts now (release_attempt cfg now r ok rows)"
  unfolding release_attempt_def record_success_def Let_def
  by (simp add: wf_attempts_prune wf_attempts_filter wf_attempts_insert del: filter_append)

text \<open>Pruning removes no row that counts, and no success that forgives one that counts.\<close>

lemma later_success_prune:
  "cutoff \<le> lt_attempted_at f \<Longrightarrow> later_success (prune_attempts cutoff rows) f = later_success rows f"
  by (auto simp: later_success_def prune_attempts_def)

lemma filter_prune:
  "(\<And>f. P f \<Longrightarrow> cutoff \<le> lt_attempted_at f) \<Longrightarrow> filter P (prune_attempts cutoff rows) = filter P rows"
  unfolding prune_attempts_def filter_filter by (rule filter_cong) force+

lemma recent_ip_failures_prune [simp]:
  "recent_ip_failures ip cutoff (prune_attempts cutoff rows) = recent_ip_failures ip cutoff rows"
proof -
  have "filter (\<lambda>f. lt_ip f = ip \<and> \<not> lt_succeeded f \<and> cutoff \<le> lt_attempted_at f \<and>
       \<not> later_success (prune_attempts cutoff rows) f) (prune_attempts cutoff rows) =
     filter (\<lambda>f. lt_ip f = ip \<and> \<not> lt_succeeded f \<and> cutoff \<le> lt_attempted_at f \<and> \<not> later_success rows f)
       (prune_attempts cutoff rows)"
    by (rule filter_cong) (auto simp: later_success_prune)
  also have "\<dots> = filter (\<lambda>f. lt_ip f = ip \<and> \<not> lt_succeeded f \<and> cutoff \<le> lt_attempted_at f \<and> \<not> later_success rows f) rows"
    by (rule filter_prune) simp
  finally show ?thesis by (simp add: recent_ip_failures_def)
qed

lemma recent_ip_failures_own_rows:
  "recent_ip_failures ip cutoff (filter (\<lambda>r. lt_ip r = ip) rows) = recent_ip_failures ip cutoff rows"
proof -
  have "later_success (filter (\<lambda>r. lt_ip r = ip) rows) f = later_success rows f" if "lt_ip f = ip" for f
    using that by (auto simp: later_success_def)
  then show ?thesis unfolding recent_ip_failures_def filter_filter
    by (intro arg_cong [where f = int] arg_cong [where f = length] filter_cong) auto
qed

section \<open>Refusals and delays\<close>

lemma backoff_seconds_bounds: "0 \<le> backoff_seconds p a \<and> backoff_seconds p a \<le> 30"
  by (simp add: backoff_seconds_def local_backoff_max_seconds_def Let_def)

lemma backoff_seconds_zero: "p < a \<Longrightarrow> backoff_seconds p a = 0"
  by (simp add: backoff_seconds_def)

text \<open>The delay doubles with each further failure until it reaches the cap.\<close>

lemma backoff_seconds_mono: "p \<le> q \<Longrightarrow> backoff_seconds p a \<le> backoff_seconds q a"
proof -
  assume pq: "p \<le> q"
  show ?thesis
  proof (cases "p < a")
    case True
    then show ?thesis using backoff_seconds_bounds [of q a] by (simp add: backoff_seconds_zero)
  next
    case False
    then have "nat (min (p - a) 16) \<le> nat (min (q - a) 16)" using pq by simp
    then have "(2::rat) ^ nat (min (p - a) 16) \<le> 2 ^ nat (min (q - a) 16)" by (rule power_increasing) simp
    then show ?thesis using False pq unfolding backoff_seconds_def Let_def by (auto simp: min_le_iff_disj)
  qed
qed

lemma backoff_delay_bounds: "0 \<le> backoff_delay cfg u c rows \<and> backoff_delay cfg u c rows \<le> 30"
  by (simp add: backoff_delay_def Let_def backoff_seconds_bounds)

text \<open>
  A login is refused exactly when the live failures of its own source reach the maximum:
  the decision reads no row of another source, so no third party can lock a user out, and a
  refusal records nothing.  A granted attempt is recorded as a failure before the password is
  checked, and its delay is at most thirty seconds.
\<close>

theorem throttle_refusal_own_source:
  "(case try_reserve ukey cfg now ip username backoff rows of
      (None, rows') \<Rightarrow>
        recent_ip_failures ip (now - throttle_window cfg) (filter (\<lambda>r. lt_ip r = ip) rows) \<ge> throttle_max_failures cfg \<and>
        rows' = prune_attempts (now - throttle_window cfg) rows
    | (Some r, rows') \<Rightarrow>
        recent_ip_failures ip (now - throttle_window cfg) (filter (\<lambda>r. lt_ip r = ip) rows) < throttle_max_failures cfg \<and>
        0 \<le> lr_delay_seconds r \<and> lr_delay_seconds r \<le> 30 \<and>
        rows' = prune_attempts (now - throttle_window cfg) rows @
          [\<lparr>lt_id = lr_attempt_id r, lt_ip = ip, lt_username = ukey username, lt_attempted_at = now, lt_succeeded = False\<rparr>])"
  by (simp add: try_reserve_def Let_def recent_ip_failures_own_rows backoff_delay_bounds attempt_row_def)

section \<open>Release\<close>

lemma prune_insert_keep:
  "0 \<le> w \<Longrightarrow> prune_attempts (now - w) (rows @ [attempt_row rows ip u now ok]) =
     prune_attempts (now - w) rows @ [attempt_row rows ip u now ok]"
  by (simp add: prune_attempts_def attempt_row_def)


definition sample_auth :: auth_settings where
  "sample_auth = \<lparr>throttle_max_failures = 2, throttle_window = 300000000, throttle_global_max_failures = 100,
     local_backoff_after_failures = 3\<rparr>"

definition sample_failure :: login_attempt where
  "sample_failure = \<lparr>lt_id = 1, lt_ip = ''10.0.0.1'', lt_username = ''ann'', lt_attempted_at = 5, lt_succeeded = False\<rparr>"


section \<open>A spray from one source\<close>

text \<open>
  The moves of a source that holds a valid credential for the account \<open>own\<close> only: it can try
  any username, and sign in to its own account on a reservation it got for it.
\<close>

datatype spray = Guess string string | Sign_in login_reservation

definition spray_step ::
  "(string \<Rightarrow> string) \<Rightarrow> auth_settings \<Rightarrow> string \<Rightarrow> int \<Rightarrow> spray \<Rightarrow> login_attempt list \<Rightarrow> bool \<times> login_attempt list" where
  "spray_step ukey cfg own now op rows =
     (case op of
        Guess ip username \<Rightarrow>
          (case try_reserve ukey cfg now ip username True rows of
             (None, rows') \<Rightarrow> (False, rows')
           | (Some r, rows') \<Rightarrow> (True, rows'))
      | Sign_in r \<Rightarrow>
          (False, if lr_username r = own \<and> (\<forall>row\<in>set rows. lt_id row = lr_attempt_id r \<longrightarrow> lt_username row = own)
                  then release_attempt cfg now r True rows else rows))"

definition sprayed :: "(string \<Rightarrow> string) \<Rightarrow> string \<Rightarrow> spray \<Rightarrow> string set" where
  "sprayed ukey own op =
     (case op of Guess ip username \<Rightarrow> (if ukey username \<noteq> own then {ip} else {}) | Sign_in r \<Rightarrow> {})"

definition counts_against :: "string \<Rightarrow> login_attempt list \<Rightarrow> string \<Rightarrow> login_attempt \<Rightarrow> bool" where
  "counts_against own rows ip f \<longleftrightarrow> lt_ip f = ip \<and> \<not> lt_succeeded f \<and> lt_username f \<noteq> own \<and> \<not> later_success rows f"

definition spray_hits :: "string \<Rightarrow> login_attempt list \<Rightarrow> string \<Rightarrow> int list" where
  "spray_hits own rows ip = map lt_attempted_at (filter (counts_against own rows ip) rows)"

definition in_window :: "auth_settings \<Rightarrow> int \<Rightarrow> int \<Rightarrow> bool" where
  "in_window cfg now t \<longleftrightarrow> now - throttle_window cfg \<le> t"

lemma spray_hits_alive:
  "filter (in_window cfg now) (spray_hits own rows ip) =
     map lt_attempted_at (filter (\<lambda>f. in_window cfg now (lt_attempted_at f) \<and> counts_against own rows ip f) rows)"
  by (simp add: spray_hits_def filter_map comp_def conj_commute)

lemma spray_hits_prune:
  "filter (in_window cfg now) (spray_hits own (prune_attempts (now - throttle_window cfg) rows) ip) =
     filter (in_window cfg now) (spray_hits own rows ip)"
proof -
  let ?p = "prune_attempts (now - throttle_window cfg) rows"
  have "filter (\<lambda>f. in_window cfg now (lt_attempted_at f) \<and> counts_against own ?p ip f) ?p =
      filter (\<lambda>f. in_window cfg now (lt_attempted_at f) \<and> counts_against own rows ip f) ?p"
    by (rule filter_cong) (auto simp: counts_against_def in_window_def later_success_prune)
  also have "\<dots> = filter (\<lambda>f. in_window cfg now (lt_attempted_at f) \<and> counts_against own rows ip f) rows"
    by (rule filter_prune) (simp add: in_window_def)
  finally show ?thesis by (simp only: spray_hits_alive)
qed

lemma later_success_failure [simp]: "later_success (rows @ [attempt_row rows ip u now False]) f = later_success rows f"
  by (auto simp: later_success_def attempt_row_def)

lemma spray_hits_failure:
  assumes "wf_attempts now rows"
  shows "spray_hits own (rows @ [attempt_row rows ip' u now False]) ip =
     spray_hits own rows ip @ (if ip = ip' \<and> u \<noteq> own then [now] else [])"
proof -
  have "\<not> later_success rows (attempt_row rows ip' u now False)"
    using assms by (auto simp: later_success_def attempt_row_def wf_attempts_def)
  moreover have "counts_against own (rows @ [attempt_row rows ip' u now False]) ip = counts_against own rows ip"
    by (rule ext) (simp add: counts_against_def)
  ultimately show ?thesis
    by (auto simp: spray_hits_def) (auto simp: counts_against_def attempt_row_def)
qed

lemma spray_hits_success:
  "spray_hits u (rows @ [attempt_row rows ip' u now True]) ip = spray_hits u rows ip"
proof -
  have "later_success (rows @ [attempt_row rows ip' u now True]) f = later_success rows f" if "lt_username f \<noteq> u" for f
    using that by (auto simp: later_success_def attempt_row_def)
  then have "counts_against u (rows @ [attempt_row rows ip' u now True]) ip = counts_against u rows ip"
    by (intro ext) (auto simp: counts_against_def)
  moreover have "\<not> counts_against u rows ip (attempt_row rows ip' u now True)"
    by (simp add: counts_against_def attempt_row_def)
  ultimately show ?thesis by (simp add: spray_hits_def)
qed

lemma spray_hits_delete_own:
  assumes "\<forall>row\<in>set rows. \<not> p row \<longrightarrow> lt_username row = own"
  shows "spray_hits own (filter p rows) ip = spray_hits own rows ip"
proof -
  have "later_success (filter p rows) f = later_success rows f" if "lt_username f \<noteq> own" for f
    using that assms by (auto simp: later_success_def)
  then have "counts_against own (filter p rows) ip = counts_against own rows ip"
    by (intro ext) (auto simp: counts_against_def)
  then show ?thesis unfolding spray_hits_def filter_filter
    using assms by (auto simp: counts_against_def intro!: arg_cong [where f = "map lt_attempted_at"] filter_cong)
qed

lemma spray_hits_le:
  "int (length (filter (in_window cfg now) (spray_hits own rows ip))) \<le> recent_ip_failures ip (now - throttle_window cfg) rows"
  unfolding spray_hits_alive recent_ip_failures_def
  by (simp, rule length_filter_imp) (simp add: counts_against_def in_window_def)

lemma spray_step_inv: "wf_attempts now rows \<Longrightarrow> spray_step ukey cfg own now op rows = (g, rows') \<Longrightarrow> wf_attempts now rows'"
  using wf_attempts_reserve [of now rows ukey cfg]  wf_attempts_release [of now rows cfg]
  by (auto simp: spray_step_def split: spray.splits prod.splits option.splits if_splits) (metis snd_conv)+

interpretation spray: sliding_budget "spray_step ukey cfg own" "sprayed ukey own" "spray_hits own" "in_window cfg"
  "nat (throttle_max_failures cfg)" wf_attempts for ukey cfg own
proof (unfold_locales, goal_cases)
  case (1 now now' t)
  then show ?case by (simp add: in_window_def)
next
  case (2 now s now')
  then show ?case by (auto simp: wf_attempts_def)
next
  case (3 now s op granted s')
  then show ?case by (rule spray_step_inv)
next
  case (4 now s op s' k)
  let ?p = "prune_attempts (now - throttle_window cfg) s"
  from 4 obtain u where u: "op = Guess k u" "ukey u \<noteq> own"
    by (auto simp: sprayed_def split: spray.splits if_splits)
  with 4 have s': "s' = ?p @ [attempt_row ?p k (ukey u) now False]"
    and lt: "recent_ip_failures k (now - throttle_window cfg) s < throttle_max_failures cfg"
    by (auto simp: spray_step_def try_reserve_def Let_def split: if_splits)
  have "length (filter (in_window cfg now) (spray_hits own s k)) < nat (throttle_max_failures cfg)"
    using spray_hits_le [of cfg now own s k] lt by linarith
  moreover have "filter (in_window cfg now) (spray_hits own s' k) = filter (in_window cfg now) (spray_hits own s k @ [now])"
    using spray_hits_failure [OF wf_attempts_prune [OF 4(1)], of own _ k "ukey u" k] u(2) by (simp add: s' spray_hits_prune)
  ultimately show ?case by blast
next
  case (5 now s op granted s' k)
  let ?p = "prune_attempts (now - throttle_window cfg) s"
  show ?case
  proof (cases op)
    case (Guess ip u)
    have "s' = ?p \<or> s' = ?p @ [attempt_row ?p ip (ukey u) now False] \<and> granted"
      using 5(2) by (auto simp: Guess spray_step_def try_reserve_def Let_def split: if_splits)
    moreover have "ip \<noteq> k \<or> ukey u = own" if granted using that 5(3) by (auto simp: Guess sprayed_def split: if_splits)
    ultimately show ?thesis
      using spray_hits_failure [OF wf_attempts_prune [OF 5(1)], of own _ ip "ukey u" k] by (auto simp: spray_hits_prune)
  next
    case (Sign_in r)
    let ?d = "filter (\<lambda>row. lt_id row \<noteq> lr_attempt_id r) s"
    have "s' = s \<or> lr_username r = own \<and> (\<forall>row\<in>set s. lt_id row = lr_attempt_id r \<longrightarrow> lt_username row = own) \<and>
        s' = prune_attempts (now - throttle_window cfg) (?d @ [attempt_row ?d (lr_ip r) own now True])"
      using 5(2) by (auto simp: Sign_in spray_step_def release_attempt_def record_success_def Let_def split: if_splits)
    then show ?thesis
      using spray_hits_delete_own [of s "\<lambda>row. lt_id row \<noteq> lr_attempt_id r" own k]
      by (auto simp: spray_hits_prune spray_hits_success)
  qed
qed

text \<open>
  C20.  A spray is bounded.  Whatever usernames a source tries, in whatever order, and however
  often it signs in to an account it owns in between, at most \<open>throttle_max_failures\<close> of its
  attempts on other accounts are granted within any window.
\<close>

theorem spray_bounded:
  assumes "sorted (map fst ops)" "run_steps (spray_step ukey cfg own) ops [] = (granted, rows)"
  shows "length (filter (\<lambda>g. now - throttle_window cfg \<le> fst g \<and> fst g \<le> now \<and> ip \<in> sprayed ukey own (snd g)) granted)
    \<le> nat (throttle_max_failures cfg)"
proof (cases ops)
  case Nil
  then show ?thesis using assms(2) by simp
next
  case (Cons x xs)
  have "\<forall>y\<in>set ops. fst x \<le> fst y" using assms(1) Cons by auto
  moreover have "wf_attempts (fst x) []" "spray_hits own [] ip = []" by (simp_all add: wf_attempts_def spray_hits_def)
  ultimately have "length (filter (\<lambda>g. fst g \<le> now \<and> in_window cfg now (fst g) \<and> ip \<in> sprayed ukey own (snd g)) granted)
    \<le> nat (throttle_max_failures cfg)"
    by (rule spray.window_budget [OF assms(2,1)])
  then show ?thesis by (simp add: in_window_def conj_left_commute)
qed

definition sample_spray :: "(int \<times> spray) list" where
  "sample_spray =
     [(1, Guess ''10.0.0.1'' ''ann''), (2, Guess ''10.0.0.1'' ''own''),
      (3, Sign_in \<lparr>lr_attempt_id = 2, lr_ip = ''10.0.0.1'', lr_username = ''own'', lr_delay_seconds = 0\<rparr>),
      (4, Guess ''10.0.0.1'' ''bob''), (5, Guess ''10.0.0.1'' ''eve'')]"

theorem spray_bounded_witness:
  "fst (run_steps (spray_step id sample_auth ''own'') sample_spray []) =
     [(1, Guess ''10.0.0.1'' ''ann''), (2, Guess ''10.0.0.1'' ''own''), (4, Guess ''10.0.0.1'' ''bob'')] \<and>
   length (filter (\<lambda>g. 5 - throttle_window sample_auth \<le> fst g \<and> fst g \<le> 5 \<and> ''10.0.0.1'' \<in> sprayed id ''own'' (snd g))
     (fst (run_steps (spray_step id sample_auth ''own'') sample_spray []))) \<le> nat (throttle_max_failures sample_auth)"
proof
  show "fst (run_steps (spray_step id sample_auth ''own'') sample_spray []) =
     [(1, Guess ''10.0.0.1'' ''ann''), (2, Guess ''10.0.0.1'' ''own''), (4, Guess ''10.0.0.1'' ''bob'')]" by code_simp
  have "sorted (map fst sample_spray)" by code_simp
  from spray_bounded [OF this prod.collapse [symmetric]]
  show "length (filter (\<lambda>g. 5 - throttle_window sample_auth \<le> fst g \<and> fst g \<le> 5 \<and> ''10.0.0.1'' \<in> sprayed id ''own'' (snd g))
     (fst (run_steps (spray_step id sample_auth ''own'') sample_spray []))) \<le> nat (throttle_max_failures sample_auth)" .
qed

end
