(* ===== verification/Attempt_Limiter.thy ===== *)
theory Attempt_Limiter
  imports Sliding_Budget
begin

text \<open>
  The in-memory attempt limiter (\<open>security/attempt_limiter.py\<close>): reservation against several
  keys at once, release, sweep and count.  Its clock is in seconds.
\<close>

section \<open>Operations\<close>

record 'k attempt_limiter =
  al_max_attempts :: int
  al_window :: rat
  al_next_token :: nat
  al_hits :: "('k \<times> (rat \<times> nat) list) list"

record 'k reservation =
  rv_keys :: "'k list"
  rv_token :: nat

definition new_limiter :: "int \<Rightarrow> rat \<Rightarrow> 'k attempt_limiter res" where
  "new_limiter max_attempts window_seconds =
     (if max_attempts < 1 then Inl (ValueError ''max_attempts'' ''must be at least 1'')
      else if window_seconds \<le> 0 then Inl (ValueError ''window_seconds'' ''must be positive'')
      else Inr \<lparr>al_max_attempts = max_attempts, al_window = window_seconds, al_next_token = 1, al_hits = []\<rparr>)"

definition hits_of :: "'k attempt_limiter \<Rightarrow> 'k \<Rightarrow> (rat \<times> nat) list" where
  "hits_of lm key = (case map_of (al_hits lm) key of None \<Rightarrow> [] | Some hits \<Rightarrow> hits)"

definition set_hits :: "'k \<Rightarrow> (rat \<times> nat) list \<Rightarrow> 'k attempt_limiter \<Rightarrow> 'k attempt_limiter" where
  "set_hits key hits lm =
     lm\<lparr>al_hits := (if hits \<noteq> [] then dict_set (al_hits lm) key hits else dict_del (al_hits lm) key)\<rparr>"

definition prune_key :: "rat \<Rightarrow> 'k attempt_limiter \<Rightarrow> 'k \<Rightarrow> 'k attempt_limiter" where
  "prune_key now lm key =
     (case map_of (al_hits lm) key of
        None \<Rightarrow> lm
      | Some hits \<Rightarrow> (let cutoff = now - al_window lm in set_hits key (filter (\<lambda>hit. fst hit > cutoff) hits) lm))"

definition append_hit :: "rat \<times> nat \<Rightarrow> 'k attempt_limiter \<Rightarrow> 'k \<Rightarrow> 'k attempt_limiter" where
  "append_hit hit lm key = lm\<lparr>al_hits := dict_set (al_hits lm) key (hits_of lm key @ [hit])\<rparr>"

definition reserve_attempt ::
  "rat \<Rightarrow> 'k list \<Rightarrow> 'k attempt_limiter \<Rightarrow> ('k reservation option \<times> 'k attempt_limiter) res" where
  "reserve_attempt now keys lm =
     (let unique = unique_first keys in
      if unique = [] then Inl (ValueError ''keys'' ''at least one key is required'')
      else
       (let lm1 = foldl (prune_key now) lm (map fst (al_hits lm)) in
        if \<exists>key\<in>set unique. int (length (hits_of lm1 key)) \<ge> al_max_attempts lm1 then Inr (None, lm1)
        else
         (let token = al_next_token lm1;
              lm2 = foldl (append_hit (now, token)) (lm1\<lparr>al_next_token := token + 1\<rparr>) unique
          in Inr (Some \<lparr>rv_keys = unique, rv_token = token\<rparr>, lm2))))"

definition release_key :: "nat \<Rightarrow> 'k attempt_limiter \<Rightarrow> 'k \<Rightarrow> 'k attempt_limiter" where
  "release_key token lm key =
     (case map_of (al_hits lm) key of
        None \<Rightarrow> lm
      | Some hits \<Rightarrow> set_hits key (filter (\<lambda>hit. snd hit \<noteq> token) hits) lm)"

definition release_reservation :: "'k reservation \<Rightarrow> 'k attempt_limiter \<Rightarrow> 'k attempt_limiter" where
  "release_reservation r lm = foldl (release_key (rv_token r)) lm (rv_keys r)"

definition count_attempts :: "rat \<Rightarrow> 'k \<Rightarrow> 'k attempt_limiter \<Rightarrow> nat \<times> 'k attempt_limiter" where
  "count_attempts now key lm = (let lm1 = prune_key now lm key in (length (hits_of lm1 key), lm1))"

definition clear_attempts :: "'k attempt_limiter \<Rightarrow> 'k attempt_limiter" where
  "clear_attempts lm = lm\<lparr>al_hits := []\<rparr>"

section \<open>What the operations do to the hits of a key\<close>

lemma hits_of_set_hits [simp]: "hits_of (set_hits key hits lm) k = (if k = key then hits else hits_of lm k)"
  by (simp add: hits_of_def set_hits_def)

lemma set_hits_fields [simp]:
  "al_max_attempts (set_hits key hits lm) = al_max_attempts lm" "al_window (set_hits key hits lm) = al_window lm"
  "al_next_token (set_hits key hits lm) = al_next_token lm"
  by (simp_all add: set_hits_def)

lemma prune_key_fields [simp]:
  "al_max_attempts (prune_key now lm key) = al_max_attempts lm" "al_window (prune_key now lm key) = al_window lm"
  "al_next_token (prune_key now lm key) = al_next_token lm"
  by (simp_all add: prune_key_def Let_def split: option.splits)

lemma prune_key_hits [simp]:
  "hits_of (prune_key now lm key) k =
     (if k = key then filter (\<lambda>hit. now - al_window lm < fst hit) (hits_of lm k) else hits_of lm k)"
  by (auto simp: prune_key_def Let_def hits_of_def [of lm] split: option.splits)

lemma sweep_fields [simp]:
  "al_max_attempts (foldl (prune_key now) lm ks) = al_max_attempts lm" "al_window (foldl (prune_key now) lm ks) = al_window lm"
  "al_next_token (foldl (prune_key now) lm ks) = al_next_token lm"
  by (induction ks arbitrary: lm) auto

lemma sweep_hits:
  "hits_of (foldl (prune_key now) lm ks) k =
     (if k \<in> set ks then filter (\<lambda>hit. now - al_window lm < fst hit) (hits_of lm k) else hits_of lm k)"
  by (induction ks arbitrary: lm) auto

lemma hits_of_absent: "k \<notin> fst ` set (al_hits lm) \<Longrightarrow> hits_of lm k = []"
  by (simp add: hits_of_def map_of_eq_None_iff [THEN iffD2])

lemma sweep_all_hits:
  "hits_of (foldl (prune_key now) lm (map fst (al_hits lm))) k = filter (\<lambda>hit. now - al_window lm < fst hit) (hits_of lm k)"
  using hits_of_absent [of k lm] by (auto simp: sweep_hits)

lemma append_hit_hits [simp]:
  "hits_of (append_hit hit lm key) k = (if k = key then hits_of lm k @ [hit] else hits_of lm k)"
  by (simp add: append_hit_def hits_of_def [of "lm\<lparr>al_hits := _\<rparr>"]) (simp add: hits_of_def)

lemma append_hits:
  "distinct ks \<Longrightarrow> hits_of (foldl (append_hit hit) lm ks) k = (if k \<in> set ks then hits_of lm k @ [hit] else hits_of lm k)"
  by (induction ks arbitrary: lm) auto

lemma append_hit_fields [simp]:
  "al_max_attempts (foldl (append_hit hit) lm ks) = al_max_attempts lm" "al_window (foldl (append_hit hit) lm ks) = al_window lm"
  "al_next_token (foldl (append_hit hit) lm ks) = al_next_token lm"
  by (induction ks arbitrary: lm) (simp_all add: append_hit_def)

lemma release_key_hits [simp]:
  "hits_of (release_key token lm key) k =
     (if k = key then filter (\<lambda>hit. snd hit \<noteq> token) (hits_of lm k) else hits_of lm k)"
  by (auto simp: release_key_def hits_of_def [of lm] split: option.splits)

lemma release_keys_hits:
  "hits_of (foldl (release_key token) lm ks) k =
     (if k \<in> set ks then filter (\<lambda>hit. snd hit \<noteq> token) (hits_of lm k) else hits_of lm k)"
  by (induction ks arbitrary: lm) auto

lemma release_hits:
  "hits_of (release_reservation r lm) k =
     (if k \<in> set (rv_keys r) then filter (\<lambda>hit. snd hit \<noteq> rv_token r) (hits_of lm k) else hits_of lm k)"
  by (simp add: release_reservation_def release_keys_hits)

text \<open>What a reservation does, on each of its branches.\<close>

lemma reserve_refused:
  assumes "reserve_attempt now keys lm = Inr (None, lm')"
  shows "hits_of lm' k = filter (\<lambda>hit. now - al_window lm < fst hit) (hits_of lm k)"
    and "al_max_attempts lm' = al_max_attempts lm" "al_window lm' = al_window lm" "al_next_token lm' = al_next_token lm"
proof -
  have "lm' = foldl (prune_key now) lm (map fst (al_hits lm))"
    using assms by (auto simp: reserve_attempt_def Let_def split: if_splits)
  then show "hits_of lm' k = filter (\<lambda>hit. now - al_window lm < fst hit) (hits_of lm k)"
    "al_max_attempts lm' = al_max_attempts lm" "al_window lm' = al_window lm" "al_next_token lm' = al_next_token lm"
    by (simp_all add: sweep_all_hits)
qed

lemma reserve_granted:
  assumes "reserve_attempt now keys lm = Inr (Some r, lm')"
  shows "hits_of lm' k = filter (\<lambda>hit. now - al_window lm < fst hit) (hits_of lm k) @
      (if k \<in> set keys then [(now, al_next_token lm)] else [])"
    and "k \<in> set keys \<Longrightarrow> int (length (filter (\<lambda>hit. now - al_window lm < fst hit) (hits_of lm k))) < al_max_attempts lm"
    and "al_max_attempts lm' = al_max_attempts lm" "al_window lm' = al_window lm" "al_next_token lm' = al_next_token lm + 1"
    and "rv_token r = al_next_token lm" "rv_keys r = unique_first keys"
proof -
  let ?lm1 = "foldl (prune_key now) lm (map fst (al_hits lm))"
  have lm': "lm' = foldl (append_hit (now, al_next_token lm)) (?lm1\<lparr>al_next_token := al_next_token lm + 1\<rparr>) (unique_first keys)"
    and r: "r = \<lparr>rv_keys = unique_first keys, rv_token = al_next_token lm\<rparr>"
    and ok: "\<And>key. key \<in> set keys \<Longrightarrow> int (length (hits_of ?lm1 key)) < al_max_attempts lm"
    using assms by (auto simp: reserve_attempt_def Let_def split: if_splits)
  have "hits_of (?lm1\<lparr>al_next_token := t\<rparr>) k = hits_of ?lm1 k" for t by (simp add: hits_of_def)
  then show "hits_of lm' k = filter (\<lambda>hit. now - al_window lm < fst hit) (hits_of lm k) @
      (if k \<in> set keys then [(now, al_next_token lm)] else [])"
    using sweep_all_hits [of now lm k] by (simp add: lm' append_hits)
  show "k \<in> set keys \<Longrightarrow> int (length (filter (\<lambda>hit. now - al_window lm < fst hit) (hits_of lm k))) < al_max_attempts lm"
    using ok [of k] sweep_all_hits [of now lm k] by simp
  show "al_max_attempts lm' = al_max_attempts lm" "al_window lm' = al_window lm" "al_next_token lm' = al_next_token lm + 1"
    by (simp_all add: lm')
  show "rv_token r = al_next_token lm" "rv_keys r = unique_first keys" by (simp_all add: r)
qed

section \<open>The budget\<close>

datatype 'k limiter_op = Attempt "'k list" | Count 'k

definition limiter_step :: "rat \<Rightarrow> 'k limiter_op \<Rightarrow> 'k attempt_limiter \<Rightarrow> bool \<times> 'k attempt_limiter" where
  "limiter_step now op lm =
     (case op of
        Attempt keys \<Rightarrow>
          (case reserve_attempt now keys lm of
             Inl e \<Rightarrow> (False, lm)
           | Inr (None, lm') \<Rightarrow> (False, lm')
           | Inr (Some r, lm') \<Rightarrow> (True, lm'))
      | Count key \<Rightarrow> (False, snd (count_attempts now key lm)))"

definition op_keys :: "'k limiter_op \<Rightarrow> 'k set" where
  "op_keys op = (case op of Attempt keys \<Rightarrow> set keys | Count key \<Rightarrow> {})"

definition hit_times :: "'k attempt_limiter \<Rightarrow> 'k \<Rightarrow> rat list" where
  "hit_times lm k = map fst (hits_of lm k)"

definition configured :: "int \<Rightarrow> rat \<Rightarrow> rat \<Rightarrow> 'k attempt_limiter \<Rightarrow> bool" where
  "configured m w now lm \<longleftrightarrow> al_max_attempts lm = m \<and> al_window lm = w \<and>
     (\<forall>k. \<forall>hit\<in>set (hits_of lm k). snd hit < al_next_token lm)"

lemma limiter_step_cases:
  assumes "limiter_step now op lm = (g, lm')"
  obtains (granted) keys r where "op = Attempt keys" g "reserve_attempt now keys lm = Inr (Some r, lm')"
  | (refused) keys where "op = Attempt keys" "\<not> g" "reserve_attempt now keys lm = Inr (None, lm')"
  | (raised) keys e where "op = Attempt keys" "\<not> g" "lm' = lm"
  | (counted) key where "op = Count key" "\<not> g" "lm' = prune_key now lm key"
  using assms
  by (auto simp: limiter_step_def count_attempts_def Let_def split: limiter_op.splits sum.splits option.splits prod.splits)

lemma filter_alive_twice:
  "filter (\<lambda>t. now - w < t) (map fst (filter (\<lambda>hit. now - w < fst hit) xs)) = filter (\<lambda>t. now - w < t) (map fst xs)" for w :: rat
  by (simp add: filter_map comp_def)

interpretation limiter: sliding_budget limiter_step op_keys hit_times "\<lambda>now t. now - w < t" "nat m" "configured m w"
  for m :: int and w :: rat
proof (unfold_locales, goal_cases)
  case (1 now now' t)
  then show ?case by linarith
next
  case (2 now s now')
  then show ?case by (simp add: configured_def)
next
  case (3 now s op granted s')
  from 3(2) show ?case
  proof (cases rule: limiter_step_cases)
    case (granted keys r)
    note g = reserve_granted [OF granted(3)]
    have "snd hit < al_next_token s'" if "hit \<in> set (hits_of s' k)" for k hit
      using that 3(1) unfolding g(1) g(5) configured_def by (fastforce split: if_splits)
    then show ?thesis using 3(1) g(3,4) by (simp add: configured_def)
  next
    case (refused keys)
    note g = reserve_refused [OF refused(3)]
    have "snd hit < al_next_token s'" if "hit \<in> set (hits_of s' k)" for k hit
      using that 3(1) unfolding g(1) g(4) configured_def by fastforce
    then show ?thesis using 3(1) g(2,3) by (simp add: configured_def)
  next
    case (counted key)
    have "snd hit < al_next_token s" if "hit \<in> set (hits_of s' k)" for k hit
      using that 3(1) unfolding counted(3) configured_def by (fastforce split: if_splits)
    then show ?thesis using 3(1) counted(3) by (simp add: configured_def)
  qed (use 3(1) in \<open>auto simp: configured_def\<close>)
next
  case (4 now s op s' k)
  from 4(2) show ?case
  proof (cases rule: limiter_step_cases)
    case (granted keys r)
    have k: "k \<in> set keys" and mw: "al_max_attempts s = m" "al_window s = w"
      using 4(1,3) granted by (simp_all add: op_keys_def configured_def)
    note g = reserve_granted [OF granted(3)]
    have "length (filter (\<lambda>t. now - w < t) (hit_times s k)) < nat m"
      using g(2) [OF k] by (simp add: hit_times_def mw filter_map comp_def)
    moreover have "hit_times s' k = map fst (filter (\<lambda>hit. now - w < fst hit) (hits_of s k)) @ [now]"
      using g(1) [of k] k by (simp add: hit_times_def mw)
    ultimately show ?thesis by (simp only: filter_append filter_alive_twice hit_times_def simp_thms)
  qed simp_all
next
  case (5 now s op granted s' k)
  have w: "al_window s = w" using 5(1) by (simp add: configured_def)
  from 5(2) show ?case
  proof (cases rule: limiter_step_cases)
    case (granted keys r)
    then have "k \<notin> set keys" using 5(3) by (simp add: op_keys_def)
    then show ?thesis using reserve_granted(1) [OF granted(3), of k] by (simp add: hit_times_def w filter_alive_twice)
  next
    case (refused keys)
    then show ?thesis using reserve_refused(1) [OF refused(3), of k] by (simp add: hit_times_def w filter_alive_twice)
  next
    case (counted key)
    then show ?thesis by (simp add: hit_times_def w filter_alive_twice)
  qed simp
qed

lemma release_restores:
  assumes "configured m w now lm" "reserve_attempt t keys lm = Inr (Some r, lm')"
  shows "hits_of (release_reservation r lm') k = filter (\<lambda>hit. t - w < fst hit) (hits_of lm k)"
proof -
  have "\<forall>hit\<in>set (hits_of lm k). snd hit \<noteq> al_next_token lm" "al_window lm = w"
    using assms(1) by (fastforce simp: configured_def)+
  then show ?thesis using reserve_granted(1) [OF assms(2), of k] reserve_granted(6,7) [OF assms(2)]
    by (auto simp: release_hits intro!: filter_cong)
qed


definition sample_limiter :: "string attempt_limiter" where
  "sample_limiter = \<lparr>al_max_attempts = 1, al_window = 60, al_next_token = 1, al_hits = []\<rparr>"


end
