(* ===== verification/Idempotency.thy ===== *)
theory Idempotency
  imports Prelude "HOL-Library.List_Lexorder" "HOL-Library.Char_ord"
begin

text \<open>
  Replay-safe mutations (\<open>web/idempotency.py\<close>): the bounded cache of keys, the fingerprint of
  a form, and \<open>run_idempotent\<close> around a handler.  The cache is an association list in the order
  of \<open>OrderedDict\<close>, oldest use first.  \<open>sha\<close> stands for the SHA-256 hex digest.
\<close>

section \<open>The cache\<close>

record stored_response =
  st_status_code :: int
  st_media_type :: "string option"
  st_body :: string

datatype outcome = RESERVED | IN_PROGRESS | REPLAY | MISMATCH

record entry =
  en_fingerprint :: string
  en_expires_at :: rat
  en_response :: "stored_response option"

type_synonym cache_key = "int \<times> string \<times> string"

record idempotency_cache =
  ic_ttl :: rat
  ic_max :: nat
  ic_entries :: "(cache_key \<times> entry) list"

definition default_ttl_seconds :: rat where "default_ttl_seconds = 600"

definition default_max_entries :: nat where "default_max_entries = 1000"

definition new_cache :: "rat \<Rightarrow> int \<Rightarrow> idempotency_cache res" where
  "new_cache ttl_seconds max_entries =
     (if ttl_seconds \<le> 0 then Inl (ValueError ''ttl_seconds'' ''must be positive'')
      else if max_entries < 1 then Inl (ValueError ''max_entries'' ''must be at least 1'')
      else Inr \<lparr>ic_ttl = ttl_seconds, ic_max = nat max_entries, ic_entries = []\<rparr>)"

definition purge_expired :: "rat \<Rightarrow> idempotency_cache \<Rightarrow> idempotency_cache" where
  "purge_expired now c = c\<lparr>ic_entries := filter (\<lambda>e. \<not> en_expires_at (snd e) \<le> now) (ic_entries c)\<rparr>"

definition move_to_end :: "'k \<Rightarrow> ('k \<times> 'v) list \<Rightarrow> ('k \<times> 'v) list" where
  "move_to_end k d = (case map_of d k of None \<Rightarrow> d | Some v \<Rightarrow> dict_del d k @ [(k, v)])"

text \<open>\<open>popitem(last=False)\<close> while there are too many: the oldest go.\<close>

definition evict :: "nat \<Rightarrow> 'a list \<Rightarrow> 'a list" where
  "evict m d = drop (length d - m) d"

definition reserve :: "rat \<Rightarrow> cache_key \<Rightarrow> string \<Rightarrow> idempotency_cache \<Rightarrow>
    (outcome \<times> stored_response option) \<times> idempotency_cache" where
  "reserve now key fingerprint c0 =
     (let c = purge_expired now c0 in
      case map_of (ic_entries c) key of
        Some entry \<Rightarrow>
          (let c1 = c\<lparr>ic_entries := move_to_end key (ic_entries c)\<rparr> in
           if en_fingerprint entry \<noteq> fingerprint then ((MISMATCH, None), c1)
           else (case en_response entry of
                   None \<Rightarrow> ((IN_PROGRESS, None), c1)
                 | Some r \<Rightarrow> ((REPLAY, Some r), c1)))
      | None \<Rightarrow>
          ((RESERVED, None),
           c\<lparr>ic_entries := evict (ic_max c) (dict_set (ic_entries c) key
               \<lparr>en_fingerprint = fingerprint, en_expires_at = now + ic_ttl c, en_response = None\<rparr>)\<rparr>))"

definition complete :: "rat \<Rightarrow> cache_key \<Rightarrow> stored_response \<Rightarrow> idempotency_cache \<Rightarrow> idempotency_cache" where
  "complete now key response c =
     (case map_of (ic_entries c) key of
        None \<Rightarrow> c
      | Some entry \<Rightarrow>
          c\<lparr>ic_entries := move_to_end key (dict_set (ic_entries c) key
              (entry\<lparr>en_response := Some response, en_expires_at := now + ic_ttl c\<rparr>))\<rparr>)"

definition release :: "cache_key \<Rightarrow> idempotency_cache \<Rightarrow> idempotency_cache" where
  "release key c =
     (case map_of (ic_entries c) key of
        None \<Rightarrow> c
      | Some entry \<Rightarrow> if en_response entry = None then c\<lparr>ic_entries := dict_del (ic_entries c) key\<rparr> else c)"

section \<open>The request\<close>

definition fingerprint_excluded :: "string list" where "fingerprint_excluded = [''csrf_token'']"

text \<open>What is hashed: the fields in the order of their names, each name and value ended by a NUL.\<close>

definition fingerprint_payload :: "(string \<times> string) list \<Rightarrow> string" where
  "fingerprint_payload form =
     concat (map (\<lambda>name. name @ [CHR 0x00] @ the (map_of form name) @ [CHR 0x00])
       (filter (\<lambda>name. name \<notin> set fingerprint_excluded) (sorted_list_of_set (fst ` set form))))"

definition fingerprint_form :: "(string \<Rightarrow> string) \<Rightarrow> (string \<times> string) list \<Rightarrow> string" where
  "fingerprint_form sha form = sha (fingerprint_payload form)"

definition key_re :: "string \<Rightarrow> bool" where
  "key_re s \<longleftrightarrow> 8 \<le> length s \<and> length s \<le> 128 \<and>
     (\<forall>c\<in>set s. (let n = (of_char c :: nat) in 48 \<le> n \<and> n \<le> 57 \<or> 65 \<le> n \<and> n \<le> 90 \<or> 97 \<le> n \<and> n \<le> 122) \<or>
        c = CHR ''_'' \<or> c = CHR ''-'')"

record response =
  rsp_status_code :: int
  rsp_media_type :: "string option"
  rsp_body :: string
  rsp_replayed :: bool

definition json_response :: "int \<Rightarrow> string \<Rightarrow> response" where
  "json_response status detail =
     \<lparr>rsp_status_code = status, rsp_media_type = Some ''application/json'', rsp_body = detail, rsp_replayed = False\<rparr>"

text \<open>
  The two halves of \<open>run_idempotent\<close> around the handler: either an answer at once, or the
  handler is to run for the key.
\<close>

definition begin_request ::
  "rat \<Rightarrow> cache_key \<Rightarrow> string \<Rightarrow> idempotency_cache \<Rightarrow> response option \<times> idempotency_cache" where
  "begin_request now key fp c =
     (let ((outcome, stored), c1) = reserve now key fp c in
      (case outcome of
         REPLAY \<Rightarrow> (case stored of
            None \<Rightarrow> None
          | Some r \<Rightarrow> Some \<lparr>rsp_status_code = st_status_code r, rsp_media_type = st_media_type r, rsp_body = st_body r,
                       rsp_replayed = True\<rparr>)
       | IN_PROGRESS \<Rightarrow> Some (json_response 409 ''duplicate request in progress'')
       | MISMATCH \<Rightarrow> Some (json_response 422 ''Idempotency-Key was already used for another request.'')
       | RESERVED \<Rightarrow> None, c1))"

definition finish_request ::
  "rat \<Rightarrow> cache_key \<Rightarrow> response res \<Rightarrow> idempotency_cache \<Rightarrow> idempotency_cache" where
  "finish_request now key result c =
     (case result of
        Inl e \<Rightarrow> release key c
      | Inr r \<Rightarrow>
         (if 200 \<le> rsp_status_code r \<and> rsp_status_code r < 300
          then complete now key
                 \<lparr>st_status_code = rsp_status_code r, st_media_type = rsp_media_type r, st_body = rsp_body r\<rparr> c
          else release key c))"

text \<open>
  A request alone: \<open>t0\<close> is the time of the reservation, \<open>t1\<close> of the end of the handler.  The
  second component says whether the handler ran.
\<close>

definition run_idempotent ::
  "(string \<Rightarrow> string) \<Rightarrow> rat \<Rightarrow> rat \<Rightarrow> string option \<Rightarrow> int \<Rightarrow> string \<Rightarrow> (string \<times> string) list \<Rightarrow> response res \<Rightarrow>
   idempotency_cache \<Rightarrow> response res \<times> bool \<times> idempotency_cache" where
  "run_idempotent sha t0 t1 header user_id route form handler c =
     (case header of
        None \<Rightarrow> (handler, True, c)
      | Some raw_key \<Rightarrow>
         (if \<not> key_re raw_key then (Inr (json_response 400 ''Invalid Idempotency-Key header.''), False, c)
          else
           (let key = (user_id, route, raw_key) in
            case begin_request t0 key (fingerprint_form sha form) c of
              (Some r, c1) \<Rightarrow> (Inr r, False, c1)
            | (None, c1) \<Rightarrow> (handler, True, finish_request t1 key handler c1))))"

section \<open>What the operations do to one key\<close>

definition entry_of :: "idempotency_cache \<Rightarrow> cache_key \<Rightarrow> entry option" where
  "entry_of c k = map_of (ic_entries c) k"

definition keys_distinct :: "idempotency_cache \<Rightarrow> bool" where
  "keys_distinct c \<longleftrightarrow> distinct (map fst (ic_entries c))"

lemma map_of_filter_distinct:
  "distinct (map fst d) \<Longrightarrow> map_of (filter p d) k = (case map_of d k of Some v \<Rightarrow> if p (k, v) then Some v else None | None \<Rightarrow> None)"
  by (induction d) (auto split: option.splits simp: map_of_eq_None_iff)

lemma map_of_move_to_end [simp]: "map_of (move_to_end k d) = map_of d"
  by (rule ext) (auto simp: move_to_end_def map_add_def split: option.splits)

lemma distinct_move_to_end [simp]: "distinct (map fst d) \<Longrightarrow> distinct (map fst (move_to_end k d))"
  by (auto simp: move_to_end_def dict_del_def distinct_map_filter split: option.splits)

lemma map_of_drop: "distinct (map fst d) \<Longrightarrow> map_of (drop n d) k = Some v \<Longrightarrow> map_of d k = Some v"
  by (metis in_set_dropD map_of_eq_Some_iff map_of_SomeD)

lemma purge_fields [simp]:
  "ic_ttl (purge_expired now c) = ic_ttl c" "ic_max (purge_expired now c) = ic_max c"
  by (simp_all add: purge_expired_def)

lemma purge_entry:
  "keys_distinct c \<Longrightarrow> entry_of (purge_expired now c) k =
     (case entry_of c k of Some e \<Rightarrow> if now < en_expires_at e then Some e else None | None \<Rightarrow> None)"
  by (auto simp: entry_of_def keys_distinct_def purge_expired_def map_of_filter_distinct split: option.splits)

lemma keys_distinct_purge [simp]: "keys_distinct c \<Longrightarrow> keys_distinct (purge_expired now c)"
  by (simp add: keys_distinct_def purge_expired_def distinct_map_filter)

lemma keys_distinct_reserve: "keys_distinct c \<Longrightarrow> keys_distinct (snd (reserve now k fp c))"
  using keys_distinct_purge [of c now]
  by (auto simp: reserve_def Let_def keys_distinct_def evict_def drop_map [symmetric] split: option.splits)

lemma keys_distinct_complete: "keys_distinct c \<Longrightarrow> keys_distinct (complete now k r c)"
  by (auto simp: complete_def keys_distinct_def split: option.splits)

lemma keys_distinct_release: "keys_distinct c \<Longrightarrow> keys_distinct (release k c)"
  by (auto simp: release_def keys_distinct_def split: option.splits)

text \<open>A reservation, as seen by any key.\<close>

lemma reserve_taken:
  assumes "entry_of (purge_expired now c) k = Some e"
  shows "fst (reserve now k fp c) =
      (if en_fingerprint e \<noteq> fp then (MISMATCH, None)
       else case en_response e of None \<Rightarrow> (IN_PROGRESS, None) | Some r \<Rightarrow> (REPLAY, Some r))"
    and "entry_of (snd (reserve now k fp c)) k' = entry_of (purge_expired now c) k'"
  using assms by (auto simp: reserve_def Let_def entry_of_def split: option.splits)

lemma reserve_free:
  assumes "entry_of (purge_expired now c) k = None"
  shows "fst (reserve now k fp c) = (RESERVED, None)"
  using assms by (simp add: reserve_def Let_def entry_of_def)

lemma reserve_fields [simp]:
  "ic_ttl (snd (reserve now k fp c)) = ic_ttl c" "ic_max (snd (reserve now k fp c)) = ic_max c"
  by (auto simp: reserve_def Let_def split: option.splits)

lemma complete_fields [simp]: "ic_ttl (complete now k r c) = ic_ttl c" "ic_max (complete now k r c) = ic_max c"
  by (auto simp: complete_def split: option.splits)

lemma release_fields [simp]: "ic_ttl (release k c) = ic_ttl c" "ic_max (release k c) = ic_max c"
  by (auto simp: release_def split: option.splits)

lemma complete_entry:
  "entry_of (complete now k r c) k' =
     (if k' = k then map_option (\<lambda>e. e\<lparr>en_response := Some r, en_expires_at := now + ic_ttl c\<rparr>) (entry_of c k)
      else entry_of c k')"
  by (auto simp: complete_def entry_of_def split: option.splits)

lemma release_entry:
  "entry_of (release k c) k' =
     (if k' = k \<and> (\<exists>e. entry_of c k = Some e \<and> en_response e = None) then None else entry_of c k')"
  by (auto simp: release_def entry_of_def split: option.splits)

text \<open>The keys a reservation pushes out.\<close>

definition evicted_by :: "rat \<Rightarrow> cache_key \<Rightarrow> string \<Rightarrow> idempotency_cache \<Rightarrow> cache_key set" where
  "evicted_by now k fp c =
     (insert k (fst ` set (ic_entries (purge_expired now c)))) - fst ` set (ic_entries (snd (reserve now k fp c)))"

lemma dict_set_entry_keys: "map_of d k = None \<Longrightarrow> dict_set d k v = d @ [(k, v)]"
  by (induction d k v rule: dict_set.induct) (auto split: if_splits)

lemma reserve_free_entry:
  assumes "keys_distinct c" "entry_of (purge_expired now c) k = None" "k' \<notin> evicted_by now k fp c"
  shows "entry_of (snd (reserve now k fp c)) k' =
     (if k' = k then Some \<lparr>en_fingerprint = fp, en_expires_at = now + ic_ttl c, en_response = None\<rparr>
      else entry_of (purge_expired now c) k')"
proof -
  let ?d = "ic_entries (purge_expired now c)"
  let ?e = "\<lparr>en_fingerprint = fp, en_expires_at = now + ic_ttl c, en_response = None\<rparr>"
  let ?d' = "?d @ [(k, ?e)]"
  have none: "map_of ?d k = None" using assms(2) by (simp add: entry_of_def)
  have out: "ic_entries (snd (reserve now k fp c)) = drop (length ?d' - ic_max c) ?d'"
    using none by (simp add: reserve_def Let_def evict_def dict_set_entry_keys)
  have dist: "distinct (map fst ?d')"
    using keys_distinct_purge [OF assms(1), of now] none by (auto simp: keys_distinct_def map_of_eq_None_iff)
  show ?thesis
  proof (cases "k' \<in> insert k (fst ` set ?d)")
    case True
    then have "k' \<in> fst ` set (drop (length ?d' - ic_max c) ?d')"
      using assms(3) by (auto simp: evicted_by_def out)
    then obtain v where v: "map_of (drop (length ?d' - ic_max c) ?d') k' = Some v"
      by (metis map_of_eq_None_iff option.exhaust)
    then have "map_of ?d' k' = Some v" by (rule map_of_drop [OF dist])
    then have "Some v = (if k' = k then Some ?e else map_of ?d k')" using none by (auto simp: map_add_def split: option.splits if_splits)
    then show ?thesis using v by (simp add: entry_of_def out del: drop_append length_append)
  next
    case False
    then have "map_of ?d' k' = None" "map_of ?d k' = None" by (auto simp: map_of_eq_None_iff)
    then have "map_of (drop (length ?d' - ic_max c) ?d') k' = None" using map_of_drop [OF dist] by (metis not_None_eq)
    then show ?thesis using False \<open>map_of ?d k' = None\<close> by (simp add: entry_of_def out del: drop_append length_append)
  qed
qed

lemma own_key_kept:
  assumes "0 < ic_max c" "entry_of (purge_expired now c) k = None"
  shows "k \<notin> evicted_by now k fp c"
proof -
  let ?d = "ic_entries (purge_expired now c)"
  let ?x = "(k, \<lparr>en_fingerprint = fp, en_expires_at = now + ic_ttl c, en_response = None\<rparr>)"
  have "ic_entries (snd (reserve now k fp c)) = drop (Suc (length ?d) - ic_max c) (?d @ [?x])"
    using assms(2) by (simp add: reserve_def Let_def evict_def dict_set_entry_keys entry_of_def)
  moreover have "Suc (length ?d) - ic_max c \<le> length ?d" using assms(1) by simp
  ultimately show ?thesis by (simp add: evicted_by_def)
qed

section \<open>One request after another\<close>

lemma begin_request_reserved:
  "fst (begin_request now k fp c) = None \<longleftrightarrow> entry_of (purge_expired now c) k = None"
proof (cases "entry_of (purge_expired now c) k")
  case None
  then show ?thesis using reserve_free [OF None, of fp] by (simp add: begin_request_def Let_def split_def)
next
  case (Some e)
  then show ?thesis using reserve_taken(1) [OF Some, of fp]
    by (simp add: begin_request_def Let_def split_def split: option.splits)
qed

lemma begin_request_cache [simp]: "snd (begin_request now k fp c) = snd (reserve now k fp c)"
  by (simp add: begin_request_def Let_def split_def)

definition replayed :: "response \<Rightarrow> response" where
  "replayed r = r\<lparr>rsp_replayed := True\<rparr>"


definition sample_cache :: idempotency_cache where
  "sample_cache = \<lparr>ic_ttl = 600, ic_max = 1000, ic_entries = []\<rparr>"

definition sample_response :: response where
  "sample_response = \<lparr>rsp_status_code = 200, rsp_media_type = Some ''application/json'', rsp_body = ''{}'', rsp_replayed = False\<rparr>"


section \<open>Concurrent requests\<close>

text \<open>
  Requests run in threads.  The state is the clock, the cache, the handlers running with the
  time of their reservation, the 2xx responses so far (newest first) and the keys ever pushed
  out by the size bound.
\<close>

record isys =
  iy_now :: rat
  iy_cache :: idempotency_cache
  iy_running :: "(cache_key \<times> rat) list"
  iy_commits :: "(cache_key \<times> rat) list"
  iy_evicted :: "cache_key set"

definition isys_init :: "idempotency_cache \<Rightarrow> isys" where
  "isys_init c = \<lparr>iy_now = 0, iy_cache = c, iy_running = [], iy_commits = [], iy_evicted = {}\<rparr>"

text \<open>The clock advances only while every handler is within the time to live of its key.\<close>

inductive istep :: "isys \<Rightarrow> isys \<Rightarrow> bool" where
  tick: "iy_now s \<le> t \<Longrightarrow> (\<And>k u. (k, u) \<in> set (iy_running s) \<Longrightarrow> t < u + ic_ttl (iy_cache s)) \<Longrightarrow>
    istep s (s\<lparr>iy_now := t\<rparr>)"
| answer: "begin_request (iy_now s) k fp (iy_cache s) = (Some r, c) \<Longrightarrow> istep s (s\<lparr>iy_cache := c\<rparr>)"
| handle: "begin_request (iy_now s) k fp (iy_cache s) = (None, c) \<Longrightarrow>
    istep s (s\<lparr>iy_cache := c, iy_running := (k, iy_now s) # iy_running s,
      iy_evicted := iy_evicted s \<union> evicted_by (iy_now s) k fp (iy_cache s)\<rparr>)"
| finish: "(k, u) \<in> set (iy_running s) \<Longrightarrow>
    istep s (s\<lparr>iy_cache := finish_request (iy_now s) k result (iy_cache s), iy_running := remove1 (k, u) (iy_running s),
      iy_commits := (case result of
          Inr r \<Rightarrow> if 200 \<le> rsp_status_code r \<and> rsp_status_code r < 300 then [(k, iy_now s)] else []
        | Inl e \<Rightarrow> []) @ iy_commits s\<rparr>)"

text \<open>What holds of one key that was never pushed out, at a time, in a cache.\<close>

definition key_ok :: "rat \<Rightarrow> entry option \<Rightarrow> rat \<Rightarrow> rat list \<Rightarrow> rat list \<Rightarrow> bool" where
  "key_ok now en ttl starts commits \<longleftrightarrow>
     length starts \<le> 1 \<and>
     (\<forall>u\<in>set starts. u \<le> now \<and> now < u + ttl \<and> (\<forall>c\<in>set commits. c + ttl \<le> u) \<and>
        (\<exists>e. en = Some e \<and> en_response e = None \<and> en_expires_at e = u + ttl)) \<and>
     (\<forall>c\<in>set commits. c \<le> now \<and> (now < c + ttl \<longrightarrow> (\<exists>e. en = Some e \<and> en_response e \<noteq> None \<and> c + ttl \<le> en_expires_at e))) \<and>
     sorted_wrt (\<lambda>later earlier. earlier + ttl \<le> later) commits"

definition times_of :: "cache_key \<Rightarrow> (cache_key \<times> rat) list \<Rightarrow> rat list" where
  "times_of k xs = map snd (filter (\<lambda>x. fst x = k) xs)"

definition isys_inv :: "rat \<Rightarrow> isys \<Rightarrow> bool" where
  "isys_inv ttl s \<longleftrightarrow> 0 < ttl \<and> ic_ttl (iy_cache s) = ttl \<and> keys_distinct (iy_cache s) \<and>
     (\<forall>k. k \<notin> iy_evicted s \<longrightarrow>
        key_ok (iy_now s) (entry_of (iy_cache s) k) ttl (times_of k (iy_running s)) (times_of k (iy_commits s)))"

lemma isys_invD:
  assumes "isys_inv ttl s"
  shows "0 < ttl" "ic_ttl (iy_cache s) = ttl" "keys_distinct (iy_cache s)"
    and "k \<notin> iy_evicted s \<Longrightarrow>
      key_ok (iy_now s) (entry_of (iy_cache s) k) ttl (times_of k (iy_running s)) (times_of k (iy_commits s))"
  using assms unfolding isys_inv_def by blast+

lemma isys_invI:
  assumes "0 < ttl" "ic_ttl (iy_cache s) = ttl" "keys_distinct (iy_cache s)"
    and "\<And>k. k \<notin> iy_evicted s \<Longrightarrow>
      key_ok (iy_now s) (entry_of (iy_cache s) k) ttl (times_of k (iy_running s)) (times_of k (iy_commits s))"
  shows "isys_inv ttl s"
  using assms unfolding isys_inv_def by blast

lemma times_of_simps [simp]:
  "times_of k [] = []" "times_of k (x # xs) = (if fst x = k then snd x # times_of k xs else times_of k xs)"
  "times_of k (xs @ ys) = times_of k xs @ times_of k ys"
  by (simp_all add: times_of_def)

lemma times_of_remove1: "times_of k (remove1 (k', u) xs) = (if k' = k then remove1 u (times_of k xs) else times_of k xs)"
  by (induction xs) (auto simp: times_of_def)

lemma times_of_mem: "(k, u) \<in> set xs \<Longrightarrow> u \<in> set (times_of k xs)"
  by (force simp: times_of_def)

lemma key_okD:
  assumes "key_ok now en ttl us cs"
  shows "length us \<le> 1"
    and "u \<in> set us \<Longrightarrow> u \<le> now \<and> now < u + ttl \<and> (\<forall>c\<in>set cs. c + ttl \<le> u)"
    and "u \<in> set us \<Longrightarrow> \<exists>e. en = Some e \<and> en_response e = None \<and> en_expires_at e = u + ttl"
    and "c \<in> set cs \<Longrightarrow> c \<le> now"
    and "c \<in> set cs \<Longrightarrow> now < c + ttl \<Longrightarrow> \<exists>e. en = Some e \<and> en_response e \<noteq> None \<and> c + ttl \<le> en_expires_at e"
    and "sorted_wrt (\<lambda>later earlier. earlier + ttl \<le> later) cs"
  using assms unfolding key_ok_def by blast+

lemma key_ok_tick:
  "key_ok now en ttl us cs \<Longrightarrow> now \<le> t \<Longrightarrow> (\<And>u. u \<in> set us \<Longrightarrow> t < u + ttl) \<Longrightarrow> key_ok t en ttl us cs"
  unfolding key_ok_def by (meson order_trans le_less_trans)

text \<open>Purging an entry of a key loses nothing its handler or its responses need.\<close>

lemma key_ok_purge:
  assumes "key_ok now (entry_of c k) ttl us cs" "keys_distinct c" "0 < ttl"
  shows "key_ok now (entry_of (purge_expired now c) k) ttl us cs"
proof -
  have "entry_of (purge_expired now c) k = entry_of c k \<or> (\<exists>e. entry_of c k = Some e \<and> en_expires_at e \<le> now)"
    using purge_entry [OF assms(2), of now k] by (auto split: option.splits if_splits)
  then show ?thesis using assms(1) unfolding key_ok_def by (elim disjE) (simp, fastforce)
qed

lemma key_ok_reserved:
  assumes "key_ok now (entry_of c k) ttl us cs" "keys_distinct c" "entry_of (purge_expired now c) k = None"
  shows "us = [] \<and> (\<forall>x\<in>set cs. x + ttl \<le> now)"
proof -
  have no: "\<not> (\<exists>e. entry_of c k = Some e \<and> now < en_expires_at e)"
    using assms(3) purge_entry [OF assms(2), of now k] by (auto split: option.splits if_splits)
  note K = key_okD [OF assms(1)]
  have "False" if "u \<in> set us" for u using K(2,3) [OF that] no by force
  then have "us = []" by (cases us) auto
  moreover have "x + ttl \<le> now" if "x \<in> set cs" for x
    using K(5) [OF that] no by (meson less_le_trans not_le)
  ultimately show ?thesis by blast
qed

lemma isys_inv_handle:
  assumes inv: "isys_inv ttl s" and b: "begin_request (iy_now s) k fp (iy_cache s) = (None, c)"
  shows "isys_inv ttl (s\<lparr>iy_cache := c, iy_running := (k, iy_now s) # iy_running s,
      iy_evicted := iy_evicted s \<union> evicted_by (iy_now s) k fp (iy_cache s)\<rparr>)"
proof -
  note D = isys_invD(3) [OF inv] and T = isys_invD(2,1) [OF inv] and K = isys_invD(4) [OF inv]
  have c: "c = snd (reserve (iy_now s) k fp (iy_cache s))" using begin_request_cache [of "iy_now s" k fp "iy_cache s"] b by simp
  have none: "entry_of (purge_expired (iy_now s) (iy_cache s)) k = None"
    using begin_request_reserved [of "iy_now s" k fp "iy_cache s"] b by simp
  have "key_ok (iy_now s) (entry_of c k') ttl (times_of k' ((k, iy_now s) # iy_running s)) (times_of k' (iy_commits s))"
    if k': "k' \<notin> iy_evicted s" "k' \<notin> evicted_by (iy_now s) k fp (iy_cache s)" for k'
  proof (cases "k' = k")
    case True
    have "entry_of c k = Some \<lparr>en_fingerprint = fp, en_expires_at = iy_now s + ttl, en_response = None\<rparr>"
      using reserve_free_entry [OF D none k'(2)] True by (simp add: c T)
    moreover note K [of k] key_ok_reserved [OF K D none]
    ultimately show ?thesis using True k'(1) T(2) by (auto simp: key_ok_def)
  next
    case False
    then have "entry_of c k' = entry_of (purge_expired (iy_now s) (iy_cache s)) k'"
      using reserve_free_entry [OF D none k'(2)] by (simp add: c)
    with False show ?thesis using key_ok_purge [OF K [OF k'(1)] D T(2)] by simp
  qed
  then show ?thesis using T keys_distinct_reserve [OF D] by (intro isys_invI) (simp_all add: c)
qed

lemma isys_inv_answer:
  assumes inv: "isys_inv ttl s" and b: "begin_request (iy_now s) k fp (iy_cache s) = (Some r, c)"
  shows "isys_inv ttl (s\<lparr>iy_cache := c\<rparr>)"
proof -
  note I = isys_invD [OF inv]
  obtain e where e: "entry_of (purge_expired (iy_now s) (iy_cache s)) k = Some e"
    using begin_request_reserved [of "iy_now s" k fp "iy_cache s"] b by auto
  have c: "c = snd (reserve (iy_now s) k fp (iy_cache s))" using begin_request_cache [of "iy_now s" k fp "iy_cache s"] b by simp
  show ?thesis using I(1,2) key_ok_purge [OF I(4) I(3,1)] reserve_taken(2) [OF e] keys_distinct_reserve [OF I(3)]
    by (intro isys_invI) (simp_all add: c)
qed

lemma key_ok_finish:
  assumes "key_ok now en ttl [u] cs" "0 < ttl"
  shows "key_ok now (map_option (\<lambda>e. e\<lparr>en_response := Some r, en_expires_at := now + ttl\<rparr>) en) ttl [] (now # cs)"
    and "key_ok now None ttl [] cs"
  using assms by (auto simp: key_ok_def)

lemma isys_inv_finish:
  assumes inv: "isys_inv ttl s" and r: "(k, u) \<in> set (iy_running s)"
  shows "isys_inv ttl (s\<lparr>iy_cache := finish_request (iy_now s) k result (iy_cache s), iy_running := remove1 (k, u) (iy_running s),
      iy_commits := (case result of
          Inr r \<Rightarrow> if 200 \<le> rsp_status_code r \<and> rsp_status_code r < 300 then [(k, iy_now s)] else []
        | Inl e \<Rightarrow> []) @ iy_commits s\<rparr>)"
proof -
  let ?ok = "case result of Inr r \<Rightarrow> 200 \<le> rsp_status_code r \<and> rsp_status_code r < 300 | Inl e \<Rightarrow> False"
  note D = isys_invD(3) [OF inv] and T = isys_invD(2,1) [OF inv] and K = isys_invD(4) [OF inv]
  define st where "st = (case result of Inr r \<Rightarrow>
    \<lparr>st_status_code = rsp_status_code r, st_media_type = rsp_media_type r, st_body = rsp_body r\<rparr> | Inl e \<Rightarrow> undefined)"
  have f: "finish_request (iy_now s) k result (iy_cache s) =
      (if ?ok then complete (iy_now s) k st (iy_cache s) else release k (iy_cache s))"
    by (auto simp: finish_request_def st_def split: sum.splits)
  have cm: "(case result of Inr r \<Rightarrow> if 200 \<le> rsp_status_code r \<and> rsp_status_code r < 300 then [(k, iy_now s)] else []
      | Inl e \<Rightarrow> []) = (if ?ok then [(k, iy_now s)] else [])"
    by (auto split: sum.splits)
  have "key_ok (iy_now s) (entry_of (finish_request (iy_now s) k result (iy_cache s)) k') ttl
      (times_of k' (remove1 (k, u) (iy_running s))) (times_of k' ((if ?ok then [(k, iy_now s)] else []) @ iy_commits s))"
    if k': "k' \<notin> iy_evicted s" for k'
  proof (cases "k' = k")
    case True
    have "u \<in> set (times_of k (iy_running s))" by (rule times_of_mem [OF r])
    moreover have "length (times_of k (iy_running s)) \<le> 1" using K [of k] k' True by (simp add: key_ok_def)
    ultimately have us: "times_of k (iy_running s) = [u]" by (cases "times_of k (iy_running s)") auto
    have k: "key_ok (iy_now s) (entry_of (iy_cache s) k) ttl [u] (times_of k (iy_commits s))" using K [of k] k' True us by simp
    then obtain e where e: "entry_of (iy_cache s) k = Some e" "en_response e = None" by (auto simp: key_ok_def)
    show ?thesis
      using key_ok_finish [OF k T(2)] e
      by (simp add: True f complete_entry release_entry times_of_remove1 us T(1))
  next
    case False
    then show ?thesis using K [OF k'] by (simp add: f complete_entry release_entry times_of_remove1)
  qed
  moreover have "keys_distinct (finish_request (iy_now s) k result (iy_cache s))"
    by (simp add: f keys_distinct_complete keys_distinct_release D)
  moreover have "ic_ttl (finish_request (iy_now s) k result (iy_cache s)) = ttl" by (simp add: f T)
  ultimately show ?thesis using T(2) unfolding cm by (intro isys_invI) simp_all
qed

lemma isys_inv_step:
  assumes "istep s s'" "isys_inv ttl s"
  shows "isys_inv ttl s'"
  using assms(1)
proof (cases rule: istep.cases)
  case (tick t)
  have "t < u + ttl" if "u \<in> set (times_of k (iy_running s))" for u k
    using that tick(3) [of k u] isys_invD(2) [OF assms(2)] by (auto simp: times_of_def)
  then have t: "key_ok t (entry_of (iy_cache s) k) ttl (times_of k (iy_running s)) (times_of k (iy_commits s))"
    if "k \<notin> iy_evicted s" for k
    using key_ok_tick [OF isys_invD(4) [OF assms(2) that] tick(2)] by blast
  show ?thesis unfolding tick(1)
  proof (rule isys_invI, goal_cases)
    case (4 k)
    then show ?case using t [of k] by simp
  qed (use isys_invD [OF assms(2)] in simp_all)
next
  case (answer k fp r c)
  then show ?thesis using isys_inv_answer [OF assms(2)] by blast
next
  case (handle k fp c)
  then show ?thesis using isys_inv_handle [OF assms(2)] by blast
next
  case (finish k u result)
  then show ?thesis using isys_inv_finish [OF assms(2)] by blast
qed

lemma isys_inv_reachable:
  assumes "istep\<^sup>*\<^sup>* (isys_init c) s" "new_cache ttl m = Inr c"
  shows "isys_inv ttl s"
  using assms(1)
proof (induction rule: rtranclp_induct)
  case base
  show ?case using assms(2)
    by (intro isys_invI) (auto simp: isys_init_def new_cache_def keys_distinct_def key_ok_def entry_of_def split: if_splits)
next
  case (step s s')
  then show ?case using isys_inv_step by blast
qed

text \<open>
  C23.  At most once.  However requests interleave, with every handler ending within the time to
  live of its key, a key the size bound never pushed out has at most one handler running, and
  any two 2xx responses its handlers gave are at least the time to live apart.
\<close>

theorem mutation_at_most_once:
  assumes "new_cache ttl m = Inr c" "istep\<^sup>*\<^sup>* (isys_init c) s" "k \<notin> iy_evicted s"
  shows "length (times_of k (iy_running s)) \<le> 1 \<and>
    sorted_wrt (\<lambda>later earlier. earlier + ttl \<le> later) (times_of k (iy_commits s))"
  using key_okD(1,6) [OF isys_invD(4) [OF isys_inv_reachable [OF assms(2,1)] assms(3)]] by blast

lemma sample_handled:
  "istep\<^sup>*\<^sup>* (isys_init sample_cache)
     ((isys_init sample_cache)\<lparr>iy_cache := snd (begin_request 0 (1, ''/r'', ''abcd-1234'') ''fp'' sample_cache),
        iy_running := [((1, ''/r'', ''abcd-1234''), 0)]\<rparr>)"
proof -
  have b: "begin_request 0 (1, ''/r'', ''abcd-1234'') ''fp'' sample_cache =
      (None, snd (begin_request 0 (1, ''/r'', ''abcd-1234'') ''fp'' sample_cache))" by code_simp
  have e: "evicted_by 0 (1, ''/r'', ''abcd-1234'') ''fp'' sample_cache = {}" by code_simp
  have "istep (isys_init sample_cache)
     ((isys_init sample_cache)\<lparr>iy_cache := snd (begin_request 0 (1, ''/r'', ''abcd-1234'') ''fp'' sample_cache),
        iy_running := [((1, ''/r'', ''abcd-1234''), 0)]\<rparr>)"
    using istep.handle [of "isys_init sample_cache", simplified isys_init_def isys.simps, OF b] e
    by (simp add: isys_init_def)
  then show ?thesis by blast
qed

theorem mutation_at_most_once_witness:
  "length (times_of (1, ''/r'', ''abcd-1234'') [((1, ''/r'', ''abcd-1234''), 0)]) \<le> 1"
proof -
  have "new_cache 600 1000 = Inr sample_cache" by (simp add: new_cache_def sample_cache_def)
  from mutation_at_most_once [OF this sample_handled, of "(1, ''/r'', ''abcd-1234'')"] show ?thesis
    by (simp add: isys_init_def)
qed

text \<open>
  Without the bound on handlers the promise fails: once the first handler has run for the time
  to live, a duplicate is handled too instead of being answered with 409.
\<close>

lemma long_handler_duplicated:
  "fst (begin_request 600 (1, ''/r'', ''abcd-1234'') ''fp''
     (snd (begin_request 0 (1, ''/r'', ''abcd-1234'') ''fp'' sample_cache))) = None"
  by code_simp

section \<open>Fingerprints\<close>

text \<open>The order in which a form lists its fields does not matter, and neither does the CSRF token.\<close>

lemma fingerprint_order:
  "map_of form = map_of form' \<Longrightarrow> fingerprint_form sha form = fingerprint_form sha form'"
  by (simp add: fingerprint_form_def fingerprint_payload_def dom_map_of_conv_image_fst [symmetric])

end
