(* ===== verification/Render_Queue.thy ===== *)
theory Render_Queue
  imports Event_Log
begin

text \<open>
  The render worker (\<open>render/queue.py\<close>): the job rows, the claim, the terminal writes, the
  orphan sweep, cancel, shutdown, and the slots.  Each transaction is one definition on the
  database (jobs and events); the step relation at the end interleaves them, one process after
  another.  The encoder, the zip builder and the file system are not modelled: what a render
  returned is an argument.
\<close>

section \<open>Rows\<close>

datatype job_status = Pending | Encoding | Done | Failed

datatype job_kind = Manual | Scheduled | Archive | Export

record render_job =
  rj_id :: int
  rj_project_id :: int
  rj_kind :: job_kind
  rj_status :: job_status
  rj_started_at :: "int option"
  rj_completed_at :: "int option"
  rj_output_file_path :: "string option"
  rj_browser_streamable :: "bool option"
  rj_codec_string :: "string option"
  rj_mime_type :: "string option"
  rj_shutdown_requeues :: nat

record render_db =
  db_jobs :: "render_job list"
  db_events :: "event list"

record render_result =
  rr_success :: bool
  rr_output_path :: "string option"
  rr_browser_streamable :: bool
  rr_error :: "string option"

record media_info =
  mi_codec_string :: "string option"
  mi_mime_type :: string

definition get_job :: "render_job list \<Rightarrow> int \<Rightarrow> render_job option" where
  "get_job jobs job_id = find (\<lambda>j. rj_id j = job_id) jobs"

definition set_job :: "int \<Rightarrow> (render_job \<Rightarrow> render_job) \<Rightarrow> render_job list \<Rightarrow> render_job list" where
  "set_job job_id f jobs = map (\<lambda>j. if rj_id j = job_id then f j else j) jobs"

definition active_job :: "render_job \<Rightarrow> bool" where
  "active_job j \<longleftrightarrow> rj_status j = Pending \<or> rj_status j = Encoding"

definition orphan_reason :: string where "orphan_reason = ''orphaned (no live task)''"

definition max_shutdown_requeues :: nat where "max_shutdown_requeues = 1"

section \<open>Transactions\<close>

definition log_render_failed :: "bool \<Rightarrow> int \<Rightarrow> int \<Rightarrow> int option \<Rightarrow> string \<Rightarrow> event list \<Rightarrow> event list" where
  "log_render_failed ok now job_id project_id reason evs =
     log_event ok now
       \<lparr>la_scope = ''project'', la_scope_id = project_id, la_level = ''error'',
        la_message = ''render '' @ show_int job_id @ '' failed: '' @ reason, la_type = Some ''render.failed'',
        la_metadata = VDict [(''render_id'', VInt job_id)], la_actor = None\<rparr> evs"

definition claim_oldest_pending :: "bool \<Rightarrow> int \<Rightarrow> render_job list \<Rightarrow> int option \<times> render_job list" where
  "claim_oldest_pending exports now jobs =
     (case find (\<lambda>j. active_job j \<and> rj_status j = Pending \<and> (if exports then rj_kind j = Export else rj_kind j \<noteq> Export)) jobs of
        None \<Rightarrow> (None, jobs)
      | Some j \<Rightarrow>
         (let (jobs', rowcount) = update_where (\<lambda>r. rj_id r = rj_id j \<and> rj_status r = Pending)
                (\<lambda>r. r\<lparr>rj_status := Encoding, rj_started_at := Some now\<rparr>) jobs
          in if rowcount = 0 then (None, jobs') else (Some (rj_id j), jobs')))"

definition flip_if :: "bool \<Rightarrow> int \<Rightarrow> int \<Rightarrow> job_status \<Rightarrow> string option \<Rightarrow> render_db \<Rightarrow> bool \<times> render_db" where
  "flip_if ok now job_id expected event_reason db =
     (let (jobs', rowcount) = update_where (\<lambda>r. rj_id r = job_id \<and> rj_status r = expected)
            (\<lambda>r. r\<lparr>rj_status := Failed, rj_completed_at := Some now\<rparr>) (db_jobs db)
      in if rowcount = 0 then (False, db)
         else (True, db\<lparr>db_jobs := jobs',
           db_events := (case event_reason of
               None \<Rightarrow> db_events db
             | Some reason \<Rightarrow> log_render_failed ok now job_id (map_option rj_project_id (get_job jobs' job_id)) reason (db_events db))\<rparr>))"

fun fail_orphans :: "bool \<Rightarrow> int \<Rightarrow> int list \<Rightarrow> string option \<Rightarrow> render_db \<Rightarrow> int list \<times> render_db" where
  "fail_orphans ok now [] reason db = ([], db)"
| "fail_orphans ok now (job_id # job_ids) reason db =
     (let (changed, db1) = flip_if ok now job_id Encoding reason db;
          (reclaimed, db2) = fail_orphans ok now job_ids reason db1
      in (if changed then job_id # reclaimed else reclaimed, db2))"

definition encoding_rows :: "render_job list \<Rightarrow> (int \<times> int option) list" where
  "encoding_rows jobs =
     map (\<lambda>j. (rj_id j, rj_started_at j)) (filter (\<lambda>j. active_job j \<and> rj_status j = Encoding) jobs)"

definition cancel_untracked :: "bool \<Rightarrow> int \<Rightarrow> int \<Rightarrow> bool \<Rightarrow> render_db \<Rightarrow> job_status option \<times> render_db" where
  "cancel_untracked ok now job_id user_requested db =
     (case map_option rj_status (get_job (db_jobs db) job_id) of
        Some Pending \<Rightarrow>
          (case flip_if ok now job_id Pending None db of (flipped, db1) \<Rightarrow> (if flipped then Some Pending else None, db1))
      | Some Encoding \<Rightarrow>
          (case fail_orphans ok now [job_id] (if user_requested then None else Some orphan_reason) db of
             (reclaimed, db1) \<Rightarrow> (if reclaimed = [] then None else Some Encoding, db1))
      | _ \<Rightarrow> (None, db))"

definition mark_failed :: "bool \<Rightarrow> int \<Rightarrow> int \<Rightarrow> string \<Rightarrow> render_db \<Rightarrow> render_db" where
  "mark_failed ok now job_id reason db =
     (case get_job (db_jobs db) job_id of
        None \<Rightarrow> db
      | Some job \<Rightarrow>
         (if rj_status job = Done then db
          else db\<lparr>db_jobs := set_job job_id (\<lambda>j. j\<lparr>rj_status := Failed, rj_completed_at := Some now\<rparr>) (db_jobs db),
                  db_events := log_render_failed ok now job_id (Some (rj_project_id job)) reason (db_events db)\<rparr>))"

definition mark_cancelled :: "int \<Rightarrow> int \<Rightarrow> render_db \<Rightarrow> render_db" where
  "mark_cancelled now job_id db =
     (case get_job (db_jobs db) job_id of
        None \<Rightarrow> db
      | Some job \<Rightarrow>
         (if rj_status job = Done then db
          else db\<lparr>db_jobs := set_job job_id (\<lambda>j. j\<lparr>rj_status := Failed, rj_completed_at := Some now\<rparr>) (db_jobs db)\<rparr>))"

definition mark_interrupted_by_shutdown :: "bool \<Rightarrow> int \<Rightarrow> int \<Rightarrow> bool \<Rightarrow> render_db \<Rightarrow> render_db" where
  "mark_interrupted_by_shutdown ok now job_id within_grace db =
     (case get_job (db_jobs db) job_id of
        None \<Rightarrow> db
      | Some job \<Rightarrow>
         (if rj_status job = Done then db
          else if within_grace \<and> rj_status job = Encoding \<and> rj_kind job \<noteq> Export \<and>
                  rj_shutdown_requeues job < max_shutdown_requeues
          then db\<lparr>db_jobs := set_job job_id (\<lambda>j. j\<lparr>rj_status := Pending,
                      rj_shutdown_requeues := rj_shutdown_requeues j + 1, rj_started_at := None,
                      rj_completed_at := None, rj_output_file_path := None\<rparr>) (db_jobs db),
                  db_events := log_event ok now
                    \<lparr>la_scope = ''project'', la_scope_id = Some (rj_project_id job), la_level = ''info'',
                     la_message = ''render '' @ show_int job_id @ '' was interrupted by a service shutdown and requeued'',
                     la_type = Some ''render.requeued'', la_metadata = VDict [(''render_id'', VInt job_id)],
                     la_actor = None\<rparr> (db_events db)\<rparr>
          else db\<lparr>db_jobs := set_job job_id (\<lambda>j. j\<lparr>rj_status := Failed, rj_completed_at := Some now\<rparr>) (db_jobs db),
                  db_events := log_render_failed ok now job_id (Some (rj_project_id job))
                    (if rj_shutdown_requeues job \<ge> max_shutdown_requeues
                     then ''interrupted by a service shutdown again after a requeue; not requeued twice''
                     else ''render cancelled'') (db_events db)\<rparr>))"

definition record_result ::
  "bool \<Rightarrow> int \<Rightarrow> int \<Rightarrow> render_result \<Rightarrow> media_info option \<Rightarrow> render_db \<Rightarrow> render_db" where
  "record_result ok now job_id result media db =
     (case get_job (db_jobs db) job_id of
        None \<Rightarrow> db
      | Some job \<Rightarrow>
         (let base = (\<lambda>j. j\<lparr>rj_completed_at := Some now, rj_browser_streamable := Some (rr_browser_streamable result)\<rparr>);
              codec = (\<lambda>j. case media of
                 None \<Rightarrow> j
               | Some m \<Rightarrow> j\<lparr>rj_codec_string := mi_codec_string m, rj_mime_type := Some (mi_mime_type m)\<rparr>)
          in if rr_success result \<and> rr_output_path result \<noteq> None
             then db\<lparr>db_jobs := set_job job_id
                     (\<lambda>j. (codec (base j))\<lparr>rj_status := Done, rj_output_file_path := rr_output_path result\<rparr>) (db_jobs db)\<rparr>
             else db\<lparr>db_jobs := set_job job_id (\<lambda>j. (codec (base j))\<lparr>rj_status := Failed\<rparr>) (db_jobs db),
                     db_events := log_render_failed ok now job_id (Some (rj_project_id job))
                       (case rr_error result of None \<Rightarrow> ''unknown error'' | Some e \<Rightarrow> if e = [] then ''unknown error'' else e)
                       (db_events db)\<rparr>))"

definition store_backfill :: "int \<Rightarrow> media_info \<Rightarrow> render_job list \<Rightarrow> bool \<times> render_job list" where
  "store_backfill job_id media jobs =
     (case get_job jobs job_id of
        None \<Rightarrow> (False, jobs)
      | Some job \<Rightarrow>
         (if rj_codec_string job \<noteq> None \<or> rj_mime_type job \<noteq> None then (False, jobs)
          else (True, set_job job_id
             (\<lambda>j. j\<lparr>rj_codec_string := mi_codec_string media, rj_mime_type := Some (mi_mime_type media)\<rparr>) jobs)))"

text \<open>The row columns a backfill looks at; the check of the file itself is not modelled.\<close>

definition backfill_candidates :: "render_job list \<Rightarrow> (int \<times> string) list" where
  "backfill_candidates jobs =
     map (\<lambda>j. (rj_id j, the (rj_output_file_path j)))
       (filter (\<lambda>j. rj_status j = Done \<and> rj_kind j \<noteq> Export \<and> rj_codec_string j = None \<and> rj_mime_type j = None \<and>
          rj_output_file_path j \<noteq> None) jobs)"

section \<open>Readings for the probes\<close>

definition render_time_ceiling :: "rat \<Rightarrow> int \<Rightarrow> rat" where
  "render_time_ceiling max_job_seconds frame_count =
     (if max_job_seconds > 0 then max_job_seconds else max 3600 (2 * of_int frame_count))"

definition encoding_overruns ::
  "rat \<Rightarrow> int \<Rightarrow> (int \<times> rat) list \<Rightarrow> (int \<times> int option) list \<Rightarrow> rat list" where
  "encoding_overruns max_job_seconds now budgets rows =
     (let flr = render_time_ceiling max_job_seconds 0 in
      concat (map (\<lambda>(job_id, started_at).
          case started_at of
            None \<Rightarrow> []
          | Some t \<Rightarrow> [of_int (now - t) / 1000000 - (case map_of budgets job_id of None \<Rightarrow> flr | Some b \<Rightarrow> b)]) rows))"

record render_activity =
  ra_live_tasks :: nat
  ra_pending_rows :: nat
  ra_encoding_rows :: nat
  ra_orphans :: nat

definition activity :: "int list \<Rightarrow> render_job list \<Rightarrow> render_activity" where
  "activity live_ids jobs =
     (let encoding_ids = map fst (encoding_rows jobs)
      in \<lparr>ra_live_tasks = length live_ids,
          ra_pending_rows = length (filter (\<lambda>j. active_job j \<and> rj_status j = Pending) jobs),
          ra_encoding_rows = length encoding_ids,
          ra_orphans = length (filter (\<lambda>i. i \<notin> set live_ids) encoding_ids)\<rparr>)"

definition stop_within_grace :: "rat \<Rightarrow> rat option \<Rightarrow> rat \<Rightarrow> bool" where
  "stop_within_grace shutdown_grace_seconds stop_began_at now =
     (case stop_began_at of None \<Rightarrow> False | Some t \<Rightarrow> now - t < shutdown_grace_seconds)"

section \<open>The start gate of an export\<close>

record export_gate =
  eg_started :: bool
  eg_cancelled :: bool

definition new_gate :: export_gate where "new_gate = \<lparr>eg_started = False, eg_cancelled = False\<rparr>"

definition gate_start :: "export_gate \<Rightarrow> bool \<times> export_gate" where
  "gate_start g = (if eg_cancelled g then (False, g) else (True, g\<lparr>eg_started := True\<rparr>))"

definition cancel_if_queued :: "export_gate \<Rightarrow> bool \<times> export_gate" where
  "cancel_if_queued g = (if eg_started g then (False, g) else (True, g\<lparr>eg_cancelled := True\<rparr>))"

section \<open>Retried writes\<close>

text \<open>One try of an operation: a value, SQLite's ``database is locked'', or another error.\<close>

datatype 'a try_result = Returned 'a | Locked | Raised string

fun write_attempts :: "(nat \<Rightarrow> 'a try_result) \<Rightarrow> nat \<Rightarrow> nat \<Rightarrow> 'a res \<times> nat" where
  "write_attempts operation attempt 0 = (Inl AssertionError, attempt)"
| "write_attempts operation attempt (Suc left) =
     (case operation attempt of
        Returned x \<Rightarrow> (Inr x, Suc attempt)
      | Raised e \<Rightarrow> (Inl (RuntimeError e), Suc attempt)
      | Locked \<Rightarrow> (if left = 0 then (Inl (RuntimeError ''database is locked''), Suc attempt)
                  else write_attempts operation (Suc attempt) left))"

definition run_with_write_retry :: "nat \<Rightarrow> (nat \<Rightarrow> 'a try_result) \<Rightarrow> 'a res \<times> nat" where
  "run_with_write_retry max_attempts operation = write_attempts operation 0 max_attempts"

definition write_retry_delay :: "rat \<Rightarrow> rat \<Rightarrow> nat \<Rightarrow> rat" where
  "write_retry_delay base_delay max_delay attempt = min (base_delay * 2 ^ (attempt - 1)) max_delay"

definition terminal_write_attempts :: nat where "terminal_write_attempts = 8"

definition durable_write :: "(nat \<Rightarrow> unit try_result) \<Rightarrow> bool" where
  "durable_write write = (case fst (run_with_write_retry terminal_write_attempts write) of Inl _ \<Rightarrow> False | Inr _ \<Rightarrow> True)"

definition settle_backoff_max_seconds :: rat where "settle_backoff_max_seconds = 30"

text \<open>
  The settle loop: \<open>landed n\<close> is the outcome of write number \<open>n\<close>, \<open>stopped n\<close> whether the worker
  was stopping after it, \<open>interrupted n\<close> whether a cancel arrived around it.  The result says
  whether the write landed, the delays slept, and whether \<open>CancelledError\<close> is raised at the end.
  A loop that never ends is \<open>None\<close>.
\<close>

partial_function (option) settle_loop ::
  "(nat \<Rightarrow> bool) \<Rightarrow> (nat \<Rightarrow> bool) \<Rightarrow> (nat \<Rightarrow> bool) \<Rightarrow> nat \<Rightarrow> bool \<Rightarrow> rat list \<Rightarrow> (bool \<times> rat list \<times> bool) option" where
  "settle_loop landed stopped interrupted attempt cancelled slept =
     (let cancelled' = cancelled \<or> interrupted attempt in
      if landed attempt then Some (True, slept, cancelled')
      else if stopped attempt then Some (False, slept, cancelled')
      else settle_loop landed stopped interrupted (Suc attempt) cancelled'
             (slept @ [min (2 ^ attempt) settle_backoff_max_seconds]))"

definition settle :: "(nat \<Rightarrow> bool) \<Rightarrow> (nat \<Rightarrow> bool) \<Rightarrow> (nat \<Rightarrow> bool) \<Rightarrow> (bool \<times> rat list \<times> bool) option" where
  "settle landed stopped interrupted = settle_loop landed stopped interrupted 0 False []"

section \<open>The worker\<close>

text \<open>
  A task and how far it is: still running, settled by the normal path, or ended by the handler
  of a cancel or an exception.
\<close>

datatype phase = Running | Settled | Ended

record job_task =
  jt_id :: int
  jt_export :: bool
  jt_phase :: phase

text \<open>
  The worker's memory: free slots of the two families, tasks, who holds the claim lock for a
  launch (the family and, once the transaction is through, the job), the orphans a sweep is
  failing, the user's cancels, and whether \<open>stop\<close> began.
\<close>

record render_queue =
  rq_render_free :: nat
  rq_export_free :: nat
  rq_tasks :: "job_task list"
  rq_claim :: "(bool \<times> int option) option"
  rq_orphans :: "int list"
  rq_user_cancels :: "int set"
  rq_stopped :: bool

record worker_config =
  wc_max_concurrent :: int
  wc_max_concurrent_exports :: int

definition new_queue :: "worker_config \<Rightarrow> render_queue" where
  "new_queue cfg = \<lparr>rq_render_free = nat (max 1 (wc_max_concurrent cfg)),
     rq_export_free = nat (max 1 (wc_max_concurrent_exports cfg)), rq_tasks = [], rq_claim = None, rq_orphans = [],
     rq_user_cancels = {}, rq_stopped = False\<rparr>"

definition free_slots :: "bool \<Rightarrow> render_queue \<Rightarrow> nat" where
  "free_slots ex q = (if ex then rq_export_free q else rq_render_free q)"

definition acquire_slot :: "bool \<Rightarrow> render_queue \<Rightarrow> render_queue" where
  "acquire_slot ex q =
     (if ex then q\<lparr>rq_export_free := rq_export_free q - 1\<rparr> else q\<lparr>rq_render_free := rq_render_free q - 1\<rparr>)"

definition release_slot :: "bool \<Rightarrow> render_queue \<Rightarrow> render_queue" where
  "release_slot ex q =
     (if ex then q\<lparr>rq_export_free := rq_export_free q + 1\<rparr> else q\<lparr>rq_render_free := rq_render_free q + 1\<rparr>)"

abbreviation task_ids :: "render_queue \<Rightarrow> int set" where "task_ids q \<equiv> jt_id ` set (rq_tasks q)"

text \<open>\<open>_launch_for\<close>: the slot and the lock; the claim; the registration of the task.\<close>

definition launch_begin :: "bool \<Rightarrow> render_queue \<Rightarrow> render_queue" where
  "launch_begin ex q = (acquire_slot ex q)\<lparr>rq_claim := Some (ex, None)\<rparr>"

definition launch_claimed :: "bool \<Rightarrow> int option \<Rightarrow> render_queue \<Rightarrow> render_queue" where
  "launch_claimed ex claimed q =
     (case claimed of
        None \<Rightarrow> (release_slot ex q)\<lparr>rq_claim := None\<rparr>
      | Some job_id \<Rightarrow> q\<lparr>rq_claim := Some (ex, Some job_id)\<rparr>)"

definition launch_register :: "bool \<Rightarrow> int \<Rightarrow> render_queue \<Rightarrow> render_queue" where
  "launch_register ex job_id q =
     q\<lparr>rq_claim := None, rq_tasks := rq_tasks q @ [\<lparr>jt_id = job_id, jt_export = ex, jt_phase = Running\<rparr>]\<rparr>"

definition launch_aborted :: "bool \<Rightarrow> render_queue \<Rightarrow> render_queue" where
  "launch_aborted ex q = (release_slot ex q)\<lparr>rq_claim := None\<rparr>"

definition finish_task :: "job_task \<Rightarrow> render_queue \<Rightarrow> render_queue" where
  "finish_task t q = (release_slot (jt_export t) q)\<lparr>rq_tasks := remove1 t (rq_tasks q)\<rparr>"

definition set_phase :: "int \<Rightarrow> phase \<Rightarrow> render_queue \<Rightarrow> render_queue" where
  "set_phase job_id ph q =
     q\<lparr>rq_tasks := map (\<lambda>t. if jt_id t = job_id then t\<lparr>jt_phase := ph\<rparr> else t) (rq_tasks q)\<rparr>"

definition sweep_orphans :: "render_db \<Rightarrow> render_queue \<Rightarrow> render_queue" where
  "sweep_orphans db q = q\<lparr>rq_orphans := filter (\<lambda>i. i \<notin> task_ids q) (map fst (encoding_rows (db_jobs db)))\<rparr>"

text \<open>The database, the worker, and the last id \<open>AUTOINCREMENT\<close> handed out.\<close>

record qsys =
  qs_db :: render_db
  qs_queue :: render_queue
  qs_last_id :: int

definition new_job :: "int \<Rightarrow> int \<Rightarrow> job_kind \<Rightarrow> render_job" where
  "new_job job_id project_id kind =
     \<lparr>rj_id = job_id, rj_project_id = project_id, rj_kind = kind, rj_status = Pending, rj_started_at = None,
      rj_completed_at = None, rj_output_file_path = None, rj_browser_streamable = None, rj_codec_string = None,
      rj_mime_type = None, rj_shutdown_requeues = 0\<rparr>"

text \<open>
  The settling write of a task, and the phase it leaves: the normal path from \<open>Running\<close>, the
  handlers of exceptions, and the handler of a cancel, which also runs when the cancel was held
  back by a write that had landed.
\<close>

inductive settles :: "render_queue \<Rightarrow> job_task \<Rightarrow> render_db \<Rightarrow> phase \<Rightarrow> render_db \<Rightarrow> bool" where
  result: "jt_phase t = Running \<Longrightarrow> settles q t db Settled (record_result ok now (jt_id t) r media db)"
| failed: "jt_phase t = Running \<Longrightarrow> settles q t db Settled (mark_failed ok now (jt_id t) reason db)"
| cancelled: "jt_phase t \<noteq> Ended \<Longrightarrow> jt_id t \<in> rq_user_cancels q \<Longrightarrow>
    settles q t db Ended (mark_cancelled now (jt_id t) db)"
| shutdown: "jt_phase t \<noteq> Ended \<Longrightarrow> jt_id t \<notin> rq_user_cancels q \<Longrightarrow> rq_stopped q \<Longrightarrow>
    settles q t db Ended (mark_interrupted_by_shutdown ok now (jt_id t) within_grace db)"
| interrupted: "jt_phase t \<noteq> Ended \<Longrightarrow> jt_id t \<notin> rq_user_cancels q \<Longrightarrow> \<not> rq_stopped q \<Longrightarrow>
    settles q t db Ended (mark_failed ok now (jt_id t) ''render cancelled'' db)"

inductive qstep :: "worker_config \<Rightarrow> qsys \<Rightarrow> qsys \<Rightarrow> bool" for cfg where
  enqueue: "qstep cfg s (s\<lparr>qs_last_id := qs_last_id s + 1,
      qs_db := (qs_db s)\<lparr>db_jobs := db_jobs (qs_db s) @ [new_job (qs_last_id s + 1) p k]\<rparr>\<rparr>)"
| remove: "qstep cfg s (s\<lparr>qs_db := (qs_db s)\<lparr>db_jobs := filter (\<lambda>j. rj_id j \<noteq> i) (db_jobs (qs_db s))\<rparr>\<rparr>)"
| launch: "\<not> rq_stopped (qs_queue s) \<Longrightarrow> rq_claim (qs_queue s) = None \<Longrightarrow> 0 < free_slots ex (qs_queue s) \<Longrightarrow>
    qstep cfg s (s\<lparr>qs_queue := launch_begin ex (qs_queue s)\<rparr>)"
| claim: "rq_claim (qs_queue s) = Some (ex, None) \<Longrightarrow> \<not> rq_stopped (qs_queue s) \<Longrightarrow>
    claim_oldest_pending ex now (db_jobs (qs_db s)) = (claimed, jobs) \<Longrightarrow>
    qstep cfg s (s\<lparr>qs_db := (qs_db s)\<lparr>db_jobs := jobs\<rparr>, qs_queue := launch_claimed ex claimed (qs_queue s)\<rparr>)"
| register: "rq_claim (qs_queue s) = Some (ex, Some i) \<Longrightarrow> \<not> rq_stopped (qs_queue s) \<Longrightarrow>
    qstep cfg s (s\<lparr>qs_queue := launch_register ex i (qs_queue s)\<rparr>)"
| abort: "rq_claim (qs_queue s) = Some (ex, c) \<Longrightarrow> rq_stopped (qs_queue s) \<or> c = None \<Longrightarrow>
    qstep cfg s (s\<lparr>qs_queue := launch_aborted ex (qs_queue s)\<rparr>)"
| late_claim: "rq_stopped (qs_queue s) \<Longrightarrow>
    claim_oldest_pending ex now (db_jobs (qs_db s)) = (claimed, jobs) \<Longrightarrow>
    qstep cfg s (s\<lparr>qs_db := (qs_db s)\<lparr>db_jobs := jobs\<rparr>\<rparr>)"
| settle: "t \<in> set (rq_tasks (qs_queue s)) \<Longrightarrow> settles (qs_queue s) t (qs_db s) ph db \<Longrightarrow>
    qstep cfg s (s\<lparr>qs_db := db, qs_queue := set_phase (jt_id t) ph (qs_queue s)\<rparr>)"
| finish: "t \<in> set (rq_tasks (qs_queue s)) \<Longrightarrow> jt_phase t \<noteq> Running \<or> rq_stopped (qs_queue s) \<Longrightarrow>
    qstep cfg s (s\<lparr>qs_queue := finish_task t (qs_queue s)\<rparr>)"
| cancel_pending: "rq_claim (qs_queue s) = None \<Longrightarrow> i \<notin> task_ids (qs_queue s) \<Longrightarrow>
    cancel_untracked ok now i user (qs_db s) = (settled_from, db) \<Longrightarrow> qstep cfg s (s\<lparr>qs_db := db\<rparr>)"
| user_cancel: "i \<in> task_ids (qs_queue s) \<Longrightarrow>
    qstep cfg s (s\<lparr>qs_queue := (qs_queue s)\<lparr>rq_user_cancels := insert i (rq_user_cancels (qs_queue s))\<rparr>\<rparr>)"
| user_cancelled: "qstep cfg s (s\<lparr>qs_queue := (qs_queue s)\<lparr>rq_user_cancels := rq_user_cancels (qs_queue s) - {i}\<rparr>\<rparr>)"
| sweep: "\<not> rq_stopped (qs_queue s) \<Longrightarrow> rq_claim (qs_queue s) = None \<Longrightarrow>
    qstep cfg s (s\<lparr>qs_queue := sweep_orphans (qs_db s) (qs_queue s)\<rparr>)"
| sweep_fail: "rq_orphans (qs_queue s) = i # is \<Longrightarrow>
    fail_orphans ok now [i] (Some orphan_reason) (qs_db s) = (reclaimed, db) \<Longrightarrow>
    qstep cfg s (s\<lparr>qs_db := db, qs_queue := (qs_queue s)\<lparr>rq_orphans := is\<rparr>\<rparr>)"
| stop: "qstep cfg s (s\<lparr>qs_queue := (qs_queue s)\<lparr>rq_stopped := True\<rparr>\<rparr>)"
| restart: "fail_orphans ok now (take n (map fst (encoding_rows (db_jobs (qs_db s))))) (Some orphan_reason) (qs_db s) = (reclaimed, db) \<Longrightarrow>
    qstep cfg s (s\<lparr>qs_db := db, qs_queue := new_queue cfg\<rparr>)"
| backfill: "store_backfill i media (db_jobs (qs_db s)) = (stored, jobs) \<Longrightarrow>
    qstep cfg s (s\<lparr>qs_db := (qs_db s)\<lparr>db_jobs := jobs\<rparr>\<rparr>)"

definition qsys_init :: "worker_config \<Rightarrow> qsys" where
  "qsys_init cfg = \<lparr>qs_db = \<lparr>db_jobs = [], db_events = []\<rparr>, qs_queue = new_queue cfg, qs_last_id = 0\<rparr>"

end
