(* ===== verification/Render_Lifecycle.thy ===== *)
theory Render_Lifecycle
  imports Render_Queue
begin

text \<open>
  What the render worker guarantees: the life cycle of a job row under every interleaving of
  claims, renders, cancels, sweeps, shutdowns and restarts, the accounting of slots, what a
  sweep settles, and that a terminal write is retried until it lands.
\<close>

section \<open>What a transaction does to a row\<close>

text \<open>Only the row \<open>i\<close> changes, as \<open>R\<close> says; its id and kind stay.\<close>

definition rows_upd :: "int \<Rightarrow> (render_job \<Rightarrow> render_job \<Rightarrow> bool) \<Rightarrow> render_job list \<Rightarrow> render_job list \<Rightarrow> bool" where
  "rows_upd i R jobs jobs' \<longleftrightarrow>
     (\<exists>f. jobs' = map f jobs \<and>
        (\<forall>j\<in>set jobs. rj_id (f j) = rj_id j \<and> rj_kind (f j) = rj_kind j \<and> (if rj_id j = i then R j (f j) else f j = j)))"

lemma rows_updI:
  assumes "jobs' = map f jobs"
    and "\<And>j. j \<in> set jobs \<Longrightarrow>
      rj_id (f j) = rj_id j \<and> rj_kind (f j) = rj_kind j \<and> (if rj_id j = i then R j (f j) else f j = j)"
  shows "rows_upd i R jobs jobs'"
  using assms unfolding rows_upd_def by blast

lemma rows_upd_same: "(\<And>j. j \<in> set jobs \<Longrightarrow> rj_id j = i \<Longrightarrow> R j j) \<Longrightarrow> rows_upd i R jobs jobs"
  by (rule rows_updI [where f = "\<lambda>j. j"]) auto

lemma rows_upd_mono: "rows_upd i R jobs jobs' \<Longrightarrow> (\<And>j j'. R j j' \<Longrightarrow> R' j j') \<Longrightarrow> rows_upd i R' jobs jobs'"
  unfolding rows_upd_def by (elim exE, rule exI) (auto split: if_splits)

lemma rows_updD:
  assumes "rows_upd i R jobs jobs'" "j' \<in> set jobs'"
  obtains j where "j \<in> set jobs" "rj_id j' = rj_id j" "rj_kind j' = rj_kind j" "if rj_id j = i then R j j' else j' = j"
proof -
  from assms(1) obtain f where f: "jobs' = map f jobs"
    "\<forall>j\<in>set jobs. rj_id (f j) = rj_id j \<and> rj_kind (f j) = rj_kind j \<and> (if rj_id j = i then R j (f j) else f j = j)"
    unfolding rows_upd_def by blast
  with assms(2) obtain j where "j \<in> set jobs" "j' = f j" by auto
  with f(2) show ?thesis using that [of j] by auto
qed

lemma rows_upd_ids: "rows_upd i R jobs jobs' \<Longrightarrow> map rj_id jobs' = map rj_id jobs"
  by (auto simp: rows_upd_def)

lemma get_job_distinct: "distinct (map rj_id jobs) \<Longrightarrow> j \<in> set jobs \<Longrightarrow> get_job jobs (rj_id j) = Some j"
  by (induction jobs) (auto simp: get_job_def)

lemma get_job_Some: "get_job jobs i = Some j \<Longrightarrow> j \<in> set jobs \<and> rj_id j = i"
  by (auto simp: get_job_def find_Some_iff)

lemma get_job_None: "get_job jobs i = None \<Longrightarrow> j \<in> set jobs \<Longrightarrow> rj_id j \<noteq> i"
  by (auto simp: get_job_def find_None_iff)

definition to_failed :: "render_job \<Rightarrow> render_job \<Rightarrow> bool" where
  "to_failed j j' \<longleftrightarrow> rj_status j' = Failed \<and> rj_shutdown_requeues j' = rj_shutdown_requeues j"

lemma flip_if_rows:
  "rows_upd i (\<lambda>j j'. if rj_status j = expected then to_failed j j' else j' = j) (db_jobs db)
     (db_jobs (snd (flip_if ok now i expected r db)))"
proof (cases "filter (\<lambda>j. rj_id j = i \<and> rj_status j = expected) (db_jobs db) = []")
  case True
  then show ?thesis
    by (auto simp: flip_if_def update_where_def filter_empty_conv intro!: rows_upd_same)
next
  case False
  then show ?thesis
    by (auto simp: flip_if_def update_where_def to_failed_def intro!: rows_updI [OF refl])
qed

lemma fail_one_orphan: "db_jobs (snd (fail_orphans ok now [i] r db)) = db_jobs (snd (flip_if ok now i Encoding r db))"
  by (simp add: Let_def split_def)

lemma cancel_untracked_rows:
  "rows_upd i (\<lambda>j j'. j' = j \<or> (rj_status j = Pending \<or> rj_status j = Encoding) \<and> to_failed j j') (db_jobs db)
     (db_jobs (snd (cancel_untracked ok now i user db)))"
proof -
  have "rows_upd i (\<lambda>j j'. j' = j \<or> (rj_status j = Pending \<or> rj_status j = Encoding) \<and> to_failed j j') (db_jobs db)
      (db_jobs (snd (flip_if ok now i e r db)))" if "e = Pending \<or> e = Encoding" for e r
    using that by (intro rows_upd_mono [OF flip_if_rows]) (auto split: if_splits)
  then show ?thesis
    by (auto simp: cancel_untracked_def split_def fail_one_orphan [unfolded split_def] simp del: fail_orphans.simps
        intro!: rows_upd_same split: option.splits job_status.splits)
qed

lemma claim_rows:
  assumes "claim_oldest_pending ex now jobs = (claimed, jobs')" "distinct (map rj_id jobs)"
  shows "(claimed = None \<and> jobs' = jobs) \<or>
    (\<exists>i. claimed = Some i \<and> i \<in> rj_id ` set jobs \<and>
      rows_upd i (\<lambda>j j'. rj_status j = Pending \<and> rj_status j' = Encoding \<and> (rj_kind j = Export) = ex \<and>
        rj_shutdown_requeues j' = rj_shutdown_requeues j) jobs jobs')"
proof (cases "find (\<lambda>j. active_job j \<and> rj_status j = Pending \<and> (if ex then rj_kind j = Export else rj_kind j \<noteq> Export)) jobs")
  case None
  then show ?thesis using assms by (simp add: claim_oldest_pending_def)
next
  case (Some j)
  let ?f = "\<lambda>x. if rj_id x = rj_id j \<and> rj_status x = Pending then x\<lparr>rj_status := Encoding, rj_started_at := Some now\<rparr> else x"
  have j: "j \<in> set jobs" "rj_status j = Pending" "(rj_kind j = Export) = ex"
    using Some by (auto simp: find_Some_iff split: if_splits)
  then have "filter (\<lambda>r. rj_id r = rj_id j \<and> rj_status r = Pending) jobs \<noteq> []" by (auto simp: filter_empty_conv)
  then have "claimed = Some (rj_id j)" "jobs' = map ?f jobs"
    using assms Some by (simp_all add: claim_oldest_pending_def update_where_def split: if_splits)
  moreover have "k = j" if "k \<in> set jobs" "rj_id k = rj_id j" for k
    using that j(1) assms(2) by (metis distinct_map inj_onD)
  then have "rows_upd (rj_id j) (\<lambda>j j'. rj_status j = Pending \<and> rj_status j' = Encoding \<and> (rj_kind j = Export) = ex \<and>
      rj_shutdown_requeues j' = rj_shutdown_requeues j) jobs (map ?f jobs)"
    using j by (intro rows_updI [OF refl]) auto
  ultimately show ?thesis using j by blast
qed

lemma set_job_rows:
  assumes "\<And>j. j \<in> set jobs \<Longrightarrow> rj_id j = i \<Longrightarrow> rj_id (f j) = rj_id j \<and> rj_kind (f j) = rj_kind j \<and> R j (f j)"
  shows "rows_upd i R jobs (set_job i f jobs)"
  unfolding set_job_def using assms by (intro rows_updI [OF refl]) auto

lemma mark_failed_rows:
  assumes "distinct (map rj_id (db_jobs db))"
  shows "rows_upd i (\<lambda>j j'. if rj_status j = Done then j' = j else to_failed j j') (db_jobs db)
    (db_jobs (mark_failed ok now i r db))"
  by (auto simp: get_job_distinct [OF assms] mark_failed_def to_failed_def dest: get_job_None
      split: option.splits intro!: set_job_rows rows_upd_same)

lemma mark_cancelled_rows:
  assumes "distinct (map rj_id (db_jobs db))"
  shows "rows_upd i (\<lambda>j j'. if rj_status j = Done then j' = j else to_failed j j') (db_jobs db)
    (db_jobs (mark_cancelled now i db))"
  by (auto simp: get_job_distinct [OF assms] mark_cancelled_def to_failed_def dest: get_job_None
      split: option.splits intro!: set_job_rows rows_upd_same)

definition requeued :: "render_job \<Rightarrow> render_job \<Rightarrow> bool" where
  "requeued j j' \<longleftrightarrow> rj_status j = Encoding \<and> rj_status j' = Pending \<and> rj_kind j \<noteq> Export \<and>
     rj_shutdown_requeues j = 0 \<and> rj_shutdown_requeues j' = 1"

lemma mark_interrupted_rows:
  assumes "distinct (map rj_id (db_jobs db))"
  shows "rows_upd i (\<lambda>j j'. if rj_status j = Done then j' = j else to_failed j j' \<or> requeued j j') (db_jobs db)
    (db_jobs (mark_interrupted_by_shutdown ok now i g db))"
  by (auto simp: get_job_distinct [OF assms] mark_interrupted_by_shutdown_def to_failed_def requeued_def
      max_shutdown_requeues_def dest: get_job_None split: option.splits intro!: set_job_rows rows_upd_same)

definition to_terminal :: "render_job \<Rightarrow> render_job \<Rightarrow> bool" where
  "to_terminal j j' \<longleftrightarrow> (rj_status j' = Done \<or> rj_status j' = Failed) \<and> rj_shutdown_requeues j' = rj_shutdown_requeues j"

lemma record_result_rows:
  "rows_upd i to_terminal (db_jobs db) (db_jobs (record_result ok now i r media db))"
  by (auto simp: record_result_def Let_def to_terminal_def dest: get_job_None
      split: option.splits intro!: set_job_rows rows_upd_same)

lemma store_backfill_rows:
  "rows_upd i (\<lambda>j j'. rj_status j' = rj_status j \<and> rj_shutdown_requeues j' = rj_shutdown_requeues j) jobs
     (snd (store_backfill i media jobs))"
  by (auto simp: store_backfill_def split: option.splits intro!: set_job_rows rows_upd_same)

section \<open>The invariant\<close>

definition terminal :: "job_status \<Rightarrow> bool" where
  "terminal st \<longleftrightarrow> st = Done \<or> st = Failed"

text \<open>What the worker's memory says of a row.\<close>

definition task_ok :: "render_queue \<Rightarrow> job_task \<Rightarrow> render_job \<Rightarrow> bool" where
  "task_ok q t j \<longleftrightarrow> (rj_kind j = Export) = jt_export t \<and>
     (case jt_phase t of
        Running \<Rightarrow> rj_status j = Encoding
      | Settled \<Rightarrow> terminal (rj_status j)
      | Ended \<Rightarrow> rq_stopped q \<or> terminal (rj_status j))"

definition row_ok :: "render_queue \<Rightarrow> render_job \<Rightarrow> bool" where
  "row_ok q j \<longleftrightarrow>
     (\<forall>t\<in>set (rq_tasks q). jt_id t = rj_id j \<longrightarrow> task_ok q t j) \<and>
     (\<forall>ex. rq_claim q = Some (ex, Some (rj_id j)) \<longrightarrow> rj_status j = Encoding \<and> (rj_kind j = Export) = ex) \<and>
     (rj_id j \<in> set (rq_orphans q) \<longrightarrow> rj_status j = Encoding \<or> rj_status j = Failed) \<and>
     rj_shutdown_requeues j \<le> 1"

definition memory_ok :: "int \<Rightarrow> render_queue \<Rightarrow> bool" where
  "memory_ok lid q \<longleftrightarrow>
     distinct (map jt_id (rq_tasks q)) \<and> (\<forall>i\<in>task_ids q. i \<le> lid) \<and>
     (\<forall>ex i. rq_claim q = Some (ex, Some i) \<longrightarrow> i \<notin> task_ids q \<and> i \<notin> set (rq_orphans q) \<and> i \<le> lid) \<and>
     (\<forall>i\<in>set (rq_orphans q). i \<notin> task_ids q \<and> i \<le> lid)"

definition qinv :: "qsys \<Rightarrow> bool" where
  "qinv s \<longleftrightarrow> distinct (map rj_id (db_jobs (qs_db s))) \<and>
     (\<forall>j\<in>set (db_jobs (qs_db s)). rj_id j \<le> qs_last_id s \<and> row_ok (qs_queue s) j) \<and>
     memory_ok (qs_last_id s) (qs_queue s)"

lemma qinvD:
  assumes "qinv s"
  shows "distinct (map rj_id (db_jobs (qs_db s)))" "memory_ok (qs_last_id s) (qs_queue s)"
    and "j \<in> set (db_jobs (qs_db s)) \<Longrightarrow> rj_id j \<le> qs_last_id s"
    and "j \<in> set (db_jobs (qs_db s)) \<Longrightarrow> row_ok (qs_queue s) j"
  using assms unfolding qinv_def by blast+

lemma qinvI:
  assumes "distinct (map rj_id (db_jobs (qs_db s)))" "memory_ok (qs_last_id s) (qs_queue s)"
    and "\<And>j. j \<in> set (db_jobs (qs_db s)) \<Longrightarrow> rj_id j \<le> qs_last_id s \<and> row_ok (qs_queue s) j"
  shows "qinv s"
  using assms unfolding qinv_def by blast

text \<open>A transaction on one row, with a change of the worker's memory.\<close>

lemma qinv_rows:
  assumes inv: "qinv s" and upd: "rows_upd i R (db_jobs (qs_db s)) (db_jobs db)"
    and mem: "memory_ok (qs_last_id s) q"
    and same: "\<And>j. row_ok (qs_queue s) j \<Longrightarrow> rj_id j \<noteq> i \<Longrightarrow> row_ok q j"
    and chg: "\<And>j j'. row_ok (qs_queue s) j \<Longrightarrow> rj_id j = i \<Longrightarrow> rj_id j' = i \<Longrightarrow> rj_kind j' = rj_kind j \<Longrightarrow> R j j' \<Longrightarrow> row_ok q j'"
  shows "qinv (s\<lparr>qs_db := db, qs_queue := q\<rparr>)"
proof (rule qinvI)
  show "distinct (map rj_id (db_jobs (qs_db (s\<lparr>qs_db := db, qs_queue := q\<rparr>))))"
    using rows_upd_ids [OF upd] qinvD(1) [OF inv] by simp
  show "memory_ok (qs_last_id (s\<lparr>qs_db := db, qs_queue := q\<rparr>)) (qs_queue (s\<lparr>qs_db := db, qs_queue := q\<rparr>))"
    using mem by simp
next
  fix j'
  assume "j' \<in> set (db_jobs (qs_db (s\<lparr>qs_db := db, qs_queue := q\<rparr>)))"
  then have "j' \<in> set (db_jobs db)" by simp
  from rows_updD [OF upd this] obtain j where j: "j \<in> set (db_jobs (qs_db s))" "rj_id j' = rj_id j" "rj_kind j' = rj_kind j"
    "if rj_id j = i then R j j' else j' = j" by blast
  note ok = qinvD(4) [OF inv j(1)]
  have "row_ok q j'"
  proof (cases "rj_id j = i")
    case True
    then show ?thesis using chg [OF ok True _ j(3)] j(2,4) by simp
  next
    case False
    then show ?thesis using same [OF ok False] j(4) by simp
  qed
  then show "rj_id j' \<le> qs_last_id (s\<lparr>qs_db := db, qs_queue := q\<rparr>) \<and> row_ok (qs_queue (s\<lparr>qs_db := db, qs_queue := q\<rparr>)) j'"
    using j(2) qinvD(3) [OF inv j(1)] by simp
qed

text \<open>A transaction on a row while the memory stays, and a change of the memory alone.\<close>

lemma qinv_db:
  assumes inv: "qinv s" and upd: "rows_upd i R (db_jobs (qs_db s)) (db_jobs db)"
    and chg: "\<And>j j'. row_ok (qs_queue s) j \<Longrightarrow> rj_id j = i \<Longrightarrow> rj_id j' = i \<Longrightarrow> rj_kind j' = rj_kind j \<Longrightarrow> R j j' \<Longrightarrow>
      row_ok (qs_queue s) j'"
  shows "qinv (s\<lparr>qs_db := db\<rparr>)"
proof -
  have "qinv (s\<lparr>qs_db := db, qs_queue := qs_queue s\<rparr>)" by (rule qinv_rows [OF inv upd qinvD(2) [OF inv]]) (use chg in blast)+
  then show ?thesis by simp
qed

lemma qinv_queue:
  assumes inv: "qinv s" and mem: "memory_ok (qs_last_id s) q"
    and rows: "\<And>j. j \<in> set (db_jobs (qs_db s)) \<Longrightarrow> row_ok (qs_queue s) j \<Longrightarrow> row_ok q j"
  shows "qinv (s\<lparr>qs_queue := q\<rparr>)"
  using qinvD [OF inv] mem rows by (intro qinvI) simp_all

lemma task_id_unique:
  assumes "memory_ok lid q" "t \<in> set (rq_tasks q)" "t' \<in> set (rq_tasks q)" "jt_id t = jt_id t'"
  shows "t = t'"
  using assms by (auto simp: memory_ok_def distinct_map dest: inj_onD)

lemma row_okD:
  assumes "row_ok q j"
  shows "t \<in> set (rq_tasks q) \<Longrightarrow> jt_id t = rj_id j \<Longrightarrow> task_ok q t j"
    and "rq_claim q = Some (ex, Some (rj_id j)) \<Longrightarrow> rj_status j = Encoding \<and> (rj_kind j = Export) = ex"
    and "rj_id j \<in> set (rq_orphans q) \<Longrightarrow> rj_status j = Encoding \<or> rj_status j = Failed"
    and "rj_shutdown_requeues j \<le> 1"
  using assms unfolding row_ok_def by blast+

lemma row_okI:
  assumes "\<And>t. t \<in> set (rq_tasks q) \<Longrightarrow> jt_id t = rj_id j \<Longrightarrow> task_ok q t j"
    and "\<And>ex. rq_claim q = Some (ex, Some (rj_id j)) \<Longrightarrow> rj_status j = Encoding \<and> (rj_kind j = Export) = ex"
    and "rj_id j \<in> set (rq_orphans q) \<Longrightarrow> rj_status j = Encoding \<or> rj_status j = Failed"
    and "rj_shutdown_requeues j \<le> 1"
  shows "row_ok q j"
  using assms unfolding row_ok_def by blast

lemma memory_okD:
  assumes "memory_ok lid q"
  shows "distinct (map jt_id (rq_tasks q))" "i \<in> task_ids q \<Longrightarrow> i \<le> lid"
    and "rq_claim q = Some (ex, Some i) \<Longrightarrow> i \<notin> task_ids q \<and> i \<notin> set (rq_orphans q) \<and> i \<le> lid"
    and "i \<in> set (rq_orphans q) \<Longrightarrow> i \<notin> task_ids q \<and> i \<le> lid"
  using assms unfolding memory_ok_def by blast+

text \<open>An untouched row that no task, claim or sweep holds fits the memory with any active or failed status.\<close>

lemma row_ok_free:
  assumes "row_ok q j" "rj_id j \<notin> task_ids q" "rq_claim q = None \<or> (\<forall>ex. rq_claim q \<noteq> Some (ex, Some (rj_id j)))"
    "rj_id j' = rj_id j" "to_failed j j'"
  shows "row_ok q j'"
  using assms by (intro row_okI) (auto simp: to_failed_def image_iff dest: row_okD)

definition lifecycle :: "bool \<Rightarrow> render_job \<Rightarrow> render_job \<Rightarrow> bool" where
  "lifecycle stopped j j' \<longleftrightarrow>
     rj_status j' = rj_status j \<and> rj_shutdown_requeues j' = rj_shutdown_requeues j \<or>
     (rj_status j, rj_status j') \<in> {(Pending, Encoding), (Pending, Failed), (Encoding, Done), (Encoding, Failed)} \<and>
       rj_shutdown_requeues j' = rj_shutdown_requeues j \<or>
     stopped \<and> requeued j j'"

definition rows_rel :: "(render_job \<Rightarrow> render_job \<Rightarrow> bool) \<Rightarrow> render_job list \<Rightarrow> render_job list \<Rightarrow> bool" where
  "rows_rel L jobs jobs' \<longleftrightarrow> (\<forall>j\<in>set jobs. \<forall>j'\<in>set jobs'. rj_id j' = rj_id j \<longrightarrow> L j j')"

lemma lifecycle_same [simp]: "lifecycle b j j"
  by (simp add: lifecycle_def)

lemma rows_upd_rel:
  assumes "rows_upd i R jobs jobs'" "distinct (map rj_id jobs)"
    and "\<And>j j'. j \<in> set jobs \<Longrightarrow> rj_id j = i \<Longrightarrow> R j j' \<Longrightarrow> lifecycle b j j'"
  shows "rows_rel (lifecycle b) jobs jobs'"
  unfolding rows_rel_def
proof (intro ballI impI)
  fix j j'
  assume j: "j \<in> set jobs" "j' \<in> set jobs'" "rj_id j' = rj_id j"
  from rows_updD [OF assms(1) j(2)] obtain k where k: "k \<in> set jobs" "rj_id j' = rj_id k" "if rj_id k = i then R k j' else j' = k"
    by metis
  have "k = j" using k(1,2) j assms(2) by (metis distinct_map inj_onD)
  then show "lifecycle b j j'" using k assms(3) [OF j(1)] by (auto split: if_splits)
qed

text \<open>What the settling writes make of a task's row.\<close>

definition settles_as :: "render_queue \<Rightarrow> job_task \<Rightarrow> phase \<Rightarrow> (render_job \<Rightarrow> render_job \<Rightarrow> bool) \<Rightarrow> bool" where
  "settles_as q t ph R \<longleftrightarrow>
     (\<forall>j j'. task_ok q t j \<longrightarrow> rj_kind j' = rj_kind j \<longrightarrow> R j j' \<longrightarrow> task_ok q (t\<lparr>jt_phase := ph\<rparr>) j') \<and>
     (\<forall>j j'. rj_shutdown_requeues j \<le> 1 \<longrightarrow> R j j' \<longrightarrow> rj_shutdown_requeues j' \<le> 1) \<and>
     (\<forall>j j'. task_ok q t j \<longrightarrow> R j j' \<longrightarrow> lifecycle (rq_stopped q) j j')"

lemma settles_asD:
  assumes "settles_as q t ph R" "R j j'"
  shows "task_ok q t j \<Longrightarrow> rj_kind j' = rj_kind j \<Longrightarrow> task_ok q (t\<lparr>jt_phase := ph\<rparr>) j'"
    and "rj_shutdown_requeues j \<le> 1 \<Longrightarrow> rj_shutdown_requeues j' \<le> 1"
    and "task_ok q t j \<Longrightarrow> lifecycle (rq_stopped q) j j'"
  using assms unfolding settles_as_def by blast+

lemma settles_rows:
  assumes "settles q t db ph db'" "distinct (map rj_id (db_jobs db))"
  obtains R where "rows_upd (jt_id t) R (db_jobs db) (db_jobs db')" "settles_as q t ph R"
  using assms(1)
proof (cases rule: settles.cases)
  case (result ok now r media)
  have "settles_as q t Settled to_terminal"
    using result(3) by (auto simp: settles_as_def task_ok_def to_terminal_def terminal_def lifecycle_def)
  with result record_result_rows that show ?thesis by blast
next
  case (failed ok now reason)
  have "settles_as q t Settled (\<lambda>j j'. if rj_status j = Done then j' = j else to_failed j j')"
    using failed(3) by (auto simp: settles_as_def task_ok_def to_failed_def terminal_def lifecycle_def split: if_splits)
  with failed mark_failed_rows [OF assms(2)] that show ?thesis by blast
next
  case (cancelled now)
  have "settles_as q t Ended (\<lambda>j j'. if rj_status j = Done then j' = j else to_failed j j')"
    using cancelled(3)
    by (auto simp: settles_as_def task_ok_def to_failed_def terminal_def lifecycle_def split: if_splits phase.splits)
  with cancelled mark_cancelled_rows [OF assms(2)] that show ?thesis by blast
next
  case (shutdown ok now g)
  have "settles_as q t Ended (\<lambda>j j'. if rj_status j = Done then j' = j else to_failed j j' \<or> requeued j j')"
    using shutdown(3-5)
    by (auto simp: settles_as_def task_ok_def to_failed_def terminal_def lifecycle_def requeued_def split: if_splits phase.splits)
  with shutdown mark_interrupted_rows [OF assms(2)] that show ?thesis by blast
next
  case (interrupted ok now)
  have "settles_as q t Ended (\<lambda>j j'. if rj_status j = Done then j' = j else to_failed j j')"
    using interrupted(3)
    by (auto simp: settles_as_def task_ok_def to_failed_def terminal_def lifecycle_def split: if_splits phase.splits)
  with interrupted mark_failed_rows [OF assms(2)] that show ?thesis by blast
qed

lemma slot_fields [simp]:
  "rq_tasks (acquire_slot ex q) = rq_tasks q" "rq_claim (acquire_slot ex q) = rq_claim q"
  "rq_orphans (acquire_slot ex q) = rq_orphans q" "rq_stopped (acquire_slot ex q) = rq_stopped q"
  "rq_tasks (release_slot ex q) = rq_tasks q" "rq_claim (release_slot ex q) = rq_claim q"
  "rq_orphans (release_slot ex q) = rq_orphans q" "rq_stopped (release_slot ex q) = rq_stopped q"
  by (simp_all add: acquire_slot_def release_slot_def)

section \<open>Every step keeps the invariant and the life cycle\<close>

definition step_ok :: "qsys \<Rightarrow> qsys \<Rightarrow> bool" where
  "step_ok s s' \<longleftrightarrow> qinv s' \<and> rows_rel (lifecycle (rq_stopped (qs_queue s))) (db_jobs (qs_db s)) (db_jobs (qs_db s'))"

lemma rows_rel_same: "distinct (map rj_id jobs) \<Longrightarrow> set jobs' \<subseteq> set jobs \<Longrightarrow> rows_rel (lifecycle b) jobs jobs'"
  unfolding rows_rel_def by (metis distinct_map inj_onD lifecycle_same subsetD)

lemma step_ok_queue:
  assumes inv: "qinv s" and mem: "memory_ok (qs_last_id s) q"
    and rows: "\<And>j. j \<in> set (db_jobs (qs_db s)) \<Longrightarrow> row_ok (qs_queue s) j \<Longrightarrow> row_ok q j"
  shows "step_ok s (s\<lparr>qs_queue := q\<rparr>)"
  using qinv_queue [OF assms] rows_rel_same [OF qinvD(1) [OF inv]] by (simp add: step_ok_def)

text \<open>Memory with fewer tasks, orphans and claims, or that is stopping, fits whatever it fitted.\<close>

definition weaker :: "render_queue \<Rightarrow> render_queue \<Rightarrow> bool" where
  "weaker q q' \<longleftrightarrow> set (rq_tasks q') \<subseteq> set (rq_tasks q) \<and> (rq_stopped q \<longrightarrow> rq_stopped q') \<and>
     set (rq_orphans q') \<subseteq> set (rq_orphans q) \<and>
     (\<forall>ex i. rq_claim q' = Some (ex, Some i) \<longrightarrow> rq_claim q = Some (ex, Some i)) \<and>
     (distinct (map jt_id (rq_tasks q)) \<longrightarrow> distinct (map jt_id (rq_tasks q')))"

lemma task_ok_weaker: "task_ok q t j \<Longrightarrow> weaker q q' \<Longrightarrow> task_ok q' t j"
  by (auto simp: task_ok_def weaker_def split: phase.splits)

lemma row_ok_weaker: "row_ok q j \<Longrightarrow> weaker q q' \<Longrightarrow> row_ok q' j"
  using task_ok_weaker [of q _ j q'] unfolding row_ok_def weaker_def by blast

lemma memory_ok_weaker: "memory_ok lid q \<Longrightarrow> weaker q q' \<Longrightarrow> memory_ok lid q'"
  unfolding memory_ok_def weaker_def by (meson image_mono subset_iff)

lemma step_ok_weaker: "qinv s \<Longrightarrow> weaker (qs_queue s) q \<Longrightarrow> step_ok s (s\<lparr>qs_queue := q\<rparr>)"
  using step_ok_queue [of s q] memory_ok_weaker [of "qs_last_id s" "qs_queue s" q] row_ok_weaker [of "qs_queue s" _ q] qinvD(2) [of s]
  by blast

lemma step_ok_enqueue:
  assumes "qinv s"
  shows "step_ok s (s\<lparr>qs_last_id := qs_last_id s + 1,
      qs_db := (qs_db s)\<lparr>db_jobs := db_jobs (qs_db s) @ [new_job (qs_last_id s + 1) p k]\<rparr>\<rparr>)"
proof -
  note I = qinvD [OF assms]
  let ?j = "new_job (qs_last_id s + 1) p k"
  have id: "rj_id ?j = qs_last_id s + 1" "rj_shutdown_requeues ?j = 0" by (simp_all add: new_job_def)
  have fresh: "j \<in> set (db_jobs (qs_db s)) \<Longrightarrow> rj_id j \<noteq> rj_id ?j" for j using I(3) [of j] id by auto
  have "qs_last_id s + 1 \<notin> task_ids (qs_queue s)" "qs_last_id s + 1 \<notin> set (rq_orphans (qs_queue s))"
    "rq_claim (qs_queue s) \<noteq> Some (ex, Some (qs_last_id s + 1))" for ex
    using memory_okD(2-4) [OF I(2), where i = "qs_last_id s + 1"] by force+
  then have "row_ok (qs_queue s) ?j" by (intro row_okI) (auto simp: id image_iff)
  moreover have "memory_ok (qs_last_id s + 1) (qs_queue s)"
    using I(2) by (auto simp: memory_ok_def)
  moreover have "distinct (map rj_id (db_jobs (qs_db s) @ [?j]))" using I(1) fresh by fastforce
  ultimately have "qinv (s\<lparr>qs_last_id := qs_last_id s + 1, qs_db := (qs_db s)\<lparr>db_jobs := db_jobs (qs_db s) @ [?j]\<rparr>\<rparr>)"
    using I(3,4) id by (intro qinvI) (auto simp: add_increasing2)
  moreover have "rows_rel (lifecycle b) (db_jobs (qs_db s)) (db_jobs (qs_db s) @ [?j])" for b
    using rows_rel_same [OF I(1) order_refl, of b] fresh unfolding rows_rel_def by fastforce
  ultimately show ?thesis by (simp add: step_ok_def)
qed

lemma step_ok_remove:
  assumes "qinv s"
  shows "step_ok s (s\<lparr>qs_db := (qs_db s)\<lparr>db_jobs := filter (\<lambda>j. rj_id j \<noteq> i) (db_jobs (qs_db s))\<rparr>\<rparr>)"
proof -
  note I = qinvD [OF assms]
  have "qinv (s\<lparr>qs_db := (qs_db s)\<lparr>db_jobs := filter (\<lambda>j. rj_id j \<noteq> i) (db_jobs (qs_db s))\<rparr>\<rparr>)"
    using I by (intro qinvI) (auto simp: distinct_map_filter)
  then show ?thesis using rows_rel_same [OF I(1)] by (simp add: step_ok_def)
qed

lemma claimed_row_free:
  assumes "row_ok q j" "rj_status j = Pending"
  shows "t \<in> set (rq_tasks q) \<Longrightarrow> jt_id t = rj_id j \<Longrightarrow> rq_stopped q" "rj_id j \<notin> set (rq_orphans q)"
    "rq_claim q \<noteq> Some (ex, Some (rj_id j))"
  using assms(2) row_okD [OF assms(1)] by (fastforce simp: task_ok_def terminal_def split: phase.splits)+

lemma step_ok_claim:
  assumes inv: "qinv s" and c: "rq_claim (qs_queue s) = Some (ex, None)" "\<not> rq_stopped (qs_queue s)"
    and cl: "claim_oldest_pending ex now (db_jobs (qs_db s)) = (claimed, jobs)"
  shows "step_ok s (s\<lparr>qs_db := (qs_db s)\<lparr>db_jobs := jobs\<rparr>, qs_queue := launch_claimed ex claimed (qs_queue s)\<rparr>)"
proof (cases claimed)
  case None
  then have "jobs = db_jobs (qs_db s)" using claim_rows [OF cl qinvD(1) [OF inv]] by auto
  moreover have "weaker (qs_queue s) (launch_claimed ex None (qs_queue s))"
    by (simp add: weaker_def launch_claimed_def)
  ultimately show ?thesis using step_ok_weaker [OF inv] None by simp
next
  case (Some i)
  note I = qinvD [OF inv]
  let ?R = "\<lambda>j j'. rj_status j = Pending \<and> rj_status j' = Encoding \<and> (rj_kind j = Export) = ex \<and>
        rj_shutdown_requeues j' = rj_shutdown_requeues j"
  let ?q = "(qs_queue s)\<lparr>rq_claim := Some (ex, Some i)\<rparr>"
  have u: "rows_upd i ?R (db_jobs (qs_db s)) jobs" and "i \<in> rj_id ` set (db_jobs (qs_db s))"
    using claim_rows [OF cl I(1)] Some by auto
  then obtain j where j: "j \<in> set (db_jobs (qs_db s))" "rj_id j = i" by auto
  obtain f where "jobs = map f (db_jobs (qs_db s))" and "?R j (f j)" using u j unfolding rows_upd_def by force
  then have pj: "rj_status j = Pending" by simp
  note free = claimed_row_free [OF I(4) [OF j(1)] pj]
  have it: "i \<notin> task_ids (qs_queue s)" using free(1) c(2) j(2) by fastforce
  have tk: "task_ok ?q t j = task_ok (qs_queue s) t j" for t j by (simp add: task_ok_def split: phase.splits)
  have "memory_ok (qs_last_id s) ?q"
    using I(2) it free(2) j I(3) [OF j(1)] by (auto simp: memory_ok_def)
  moreover have "row_ok ?q j" if "row_ok (qs_queue s) j" "rj_id j \<noteq> i" for j
    using that by (auto simp: row_ok_def tk)
  moreover have "row_ok ?q j'" if "row_ok (qs_queue s) j" "rj_id j = i" "rj_id j' = i" "rj_kind j' = rj_kind j" "?R j j'" for j j'
    using that it row_okD(4) [OF that(1)] by (intro row_okI) (auto simp: image_iff)
  ultimately have "qinv (s\<lparr>qs_db := (qs_db s)\<lparr>db_jobs := jobs\<rparr>, qs_queue := ?q\<rparr>)"
    by (intro qinv_rows [OF inv, where R = ?R and i = i]) (use u in simp_all)
  moreover have "rows_rel (lifecycle (rq_stopped (qs_queue s))) (db_jobs (qs_db s)) jobs"
    by (rule rows_upd_rel [OF u I(1)]) (auto simp: lifecycle_def)
  ultimately show ?thesis by (simp add: step_ok_def Some launch_claimed_def)
qed

lemma step_ok_late_claim:
  assumes inv: "qinv s" and st: "rq_stopped (qs_queue s)"
    and cl: "claim_oldest_pending ex now (db_jobs (qs_db s)) = (claimed, jobs)"
  shows "step_ok s (s\<lparr>qs_db := (qs_db s)\<lparr>db_jobs := jobs\<rparr>\<rparr>)"
proof (cases claimed)
  case None
  then show ?thesis using claim_rows [OF cl qinvD(1) [OF inv]] inv rows_rel_same [OF qinvD(1) [OF inv]]
    by (auto simp: step_ok_def)
next
  case (Some i)
  note I = qinvD [OF inv]
  let ?R = "\<lambda>j j'. rj_status j = Pending \<and> rj_status j' = Encoding \<and> (rj_kind j = Export) = ex \<and>
        rj_shutdown_requeues j' = rj_shutdown_requeues j"
  have u: "rows_upd i ?R (db_jobs (qs_db s)) jobs" using claim_rows [OF cl I(1)] Some by auto
  have "row_ok (qs_queue s) j'"
    if "row_ok (qs_queue s) j" "rj_id j = i" "rj_id j' = i" "rj_kind j' = rj_kind j" "?R j j'" for j j'
    using that st claimed_row_free [OF that(1)] row_okD [OF that(1)]
    by (intro row_okI) (fastforce simp: task_ok_def terminal_def split: phase.splits)+
  then have "qinv (s\<lparr>qs_db := (qs_db s)\<lparr>db_jobs := jobs\<rparr>\<rparr>)"
    by (intro qinv_db [OF inv, where R = ?R and i = i]) (use u in simp_all)
  moreover have "rows_rel (lifecycle (rq_stopped (qs_queue s))) (db_jobs (qs_db s)) jobs"
    by (rule rows_upd_rel [OF u I(1)]) (auto simp: lifecycle_def)
  ultimately show ?thesis by (simp add: step_ok_def)
qed

lemma step_ok_register:
  assumes inv: "qinv s" and c: "rq_claim (qs_queue s) = Some (ex, Some i)"
  shows "step_ok s (s\<lparr>qs_queue := launch_register ex i (qs_queue s)\<rparr>)"
proof (rule step_ok_queue [OF inv])
  let ?q = "launch_register ex i (qs_queue s)"
  note I = qinvD [OF inv]
  have i: "i \<notin> task_ids (qs_queue s)" "i \<notin> set (rq_orphans (qs_queue s))" "i \<le> qs_last_id s"
    using memory_okD(3) [OF I(2) c] by simp_all
  then show "memory_ok (qs_last_id s) ?q"
    using I(2) by (auto simp: memory_ok_def launch_register_def)
  fix j
  assume j: "row_ok (qs_queue s) j"
  have tk: "task_ok ?q t j = task_ok (qs_queue s) t j" for t by (simp add: task_ok_def launch_register_def split: phase.splits)
  have "task_ok (qs_queue s) \<lparr>jt_id = i, jt_export = ex, jt_phase = Running\<rparr> j" if "rj_id j = i"
    using row_okD(2) [OF j, of ex] c that by (simp add: task_ok_def)
  then show "row_ok ?q j"
    using row_okD [OF j] by (intro row_okI) (auto simp: tk, auto simp: launch_register_def)
qed

lemma set_phase_fields [simp]:
  "rq_claim (set_phase i ph q) = rq_claim q" "rq_orphans (set_phase i ph q) = rq_orphans q"
  "rq_stopped (set_phase i ph q) = rq_stopped q" "map jt_id (rq_tasks (set_phase i ph q)) = map jt_id (rq_tasks q)"
  by (simp_all add: set_phase_def)

lemma set_phase_ids [simp]: "task_ids (set_phase i ph q) = task_ids q"
  unfolding list.set_map [symmetric] by simp

lemma memory_ok_set_phase: "memory_ok lid q \<Longrightarrow> memory_ok lid (set_phase i ph q)"
  unfolding memory_ok_def set_phase_fields set_phase_ids by blast

lemma step_ok_settle:
  assumes inv: "qinv s" and t: "t \<in> set (rq_tasks (qs_queue s))" and st: "settles (qs_queue s) t (qs_db s) ph db"
  shows "step_ok s (s\<lparr>qs_db := db, qs_queue := set_phase (jt_id t) ph (qs_queue s)\<rparr>)"
proof -
  note I = qinvD [OF inv]
  let ?q = "set_phase (jt_id t) ph (qs_queue s)"
  obtain R where u: "rows_upd (jt_id t) R (db_jobs (qs_db s)) (db_jobs db)" and R: "settles_as (qs_queue s) t ph R"
    by (rule settles_rows [OF st I(1)])
  have tk: "task_ok ?q t' j = task_ok (qs_queue s) t' j" for t' j by (simp add: task_ok_def split: phase.splits)
  have tid: "jt_id t \<in> task_ids (qs_queue s)" using t by blast
  have "row_ok ?q j" if "row_ok (qs_queue s) j" "rj_id j \<noteq> jt_id t" for j
    using row_okD [OF that(1)] that(2) by (intro row_okI) (auto simp: tk, auto simp: set_phase_def split: if_splits)
  moreover have "row_ok ?q j'"
    if j: "row_ok (qs_queue s) j" "rj_id j = jt_id t" "rj_id j' = jt_id t" "rj_kind j' = rj_kind j" "R j j'" for j j'
  proof (rule row_okI)
    fix t'
    assume "t' \<in> set (rq_tasks ?q)" "jt_id t' = rj_id j'"
    then have "t' = t\<lparr>jt_phase := ph\<rparr>"
      using task_id_unique [OF I(2) _ t] j(3) by (auto simp: set_phase_def split: if_splits)
    then show "task_ok ?q t' j'" using settles_asD(1) [OF R j(5) row_okD(1) [OF j(1) t] j(4)] j(2) by (simp add: tk)
  next
    fix ex
    assume "rq_claim ?q = Some (ex, Some (rj_id j'))"
    then show "rj_status j' = Encoding \<and> (rj_kind j' = Export) = ex" using memory_okD(3) [OF I(2)] tid j(3) by force
  next
    assume "rj_id j' \<in> set (rq_orphans ?q)"
    then show "rj_status j' = Encoding \<or> rj_status j' = Failed" using memory_okD(4) [OF I(2)] tid j(3) by force
  next
    show "rj_shutdown_requeues j' \<le> 1" by (rule settles_asD(2) [OF R j(5) row_okD(4) [OF j(1)]])
  qed
  ultimately have "qinv (s\<lparr>qs_db := db, qs_queue := ?q\<rparr>)"
    using qinv_rows [OF inv u memory_ok_set_phase [OF I(2)]] by blast
  moreover have "rows_rel (lifecycle (rq_stopped (qs_queue s))) (db_jobs (qs_db s)) (db_jobs db)"
  proof (rule rows_upd_rel [OF u I(1)])
    fix j j'
    assume j: "j \<in> set (db_jobs (qs_db s))" "rj_id j = jt_id t" "R j j'"
    show "lifecycle (rq_stopped (qs_queue s)) j j'"
      by (rule settles_asD(3) [OF R j(3) row_okD(1) [OF I(4) [OF j(1)] t j(2) [symmetric]]])
  qed
  ultimately show ?thesis by (simp add: step_ok_def)
qed

lemma step_ok_finish:
  assumes inv: "qinv s"
  shows "step_ok s (s\<lparr>qs_queue := finish_task t (qs_queue s)\<rparr>)"
proof -
  have "distinct (map jt_id ts) \<Longrightarrow> distinct (map jt_id (remove1 t ts))" for ts
    by (induction ts) (auto dest: notin_set_remove1, metis image_eqI set_remove1_subset subsetD)
  then have "weaker (qs_queue s) (finish_task t (qs_queue s))"
    using set_remove1_subset [of t] by (auto simp: weaker_def finish_task_def)
  then show ?thesis by (rule step_ok_weaker [OF inv])
qed

lemma step_ok_cancel:
  assumes inv: "qinv s" and c: "rq_claim (qs_queue s) = None" "i \<notin> task_ids (qs_queue s)"
    and x: "cancel_untracked ok now i user (qs_db s) = (from_st, db)"
  shows "step_ok s (s\<lparr>qs_db := db\<rparr>)"
proof -
  note I = qinvD [OF inv]
  let ?R = "\<lambda>j j'. j' = j \<or> (rj_status j = Pending \<or> rj_status j = Encoding) \<and> to_failed j j'"
  have u: "rows_upd i ?R (db_jobs (qs_db s)) (db_jobs db)"
    using cancel_untracked_rows [of i "qs_db s" ok now user] x by simp
  have "row_ok (qs_queue s) j'" if "row_ok (qs_queue s) j" "rj_id j = i" "rj_id j' = i" "rj_kind j' = rj_kind j" "?R j j'" for j j'
    using that c row_ok_free [OF that(1)] by auto
  then have "qinv (s\<lparr>qs_db := db\<rparr>)" by (rule qinv_db [OF inv u])
  moreover have "rows_rel (lifecycle (rq_stopped (qs_queue s))) (db_jobs (qs_db s)) (db_jobs db)"
    by (rule rows_upd_rel [OF u I(1)]) (auto simp: lifecycle_def to_failed_def)
  ultimately show ?thesis by (simp add: step_ok_def)
qed

lemma step_ok_sweep:
  assumes inv: "qinv s" and c: "rq_claim (qs_queue s) = None"
  shows "step_ok s (s\<lparr>qs_queue := sweep_orphans (qs_db s) (qs_queue s)\<rparr>)"
proof (rule step_ok_queue [OF inv])
  note I = qinvD [OF inv]
  let ?q = "sweep_orphans (qs_db s) (qs_queue s)"
  have o: "\<exists>k\<in>set (db_jobs (qs_db s)). rj_id k = i \<and> rj_status k = Encoding" if "i \<in> set (rq_orphans ?q)" for i
    using that by (auto simp: sweep_orphans_def encoding_rows_def)
  have "memory_ok (qs_last_id s) (qs_queue s)" by (rule I(2))
  then show "memory_ok (qs_last_id s) ?q"
    using I(3) c by (auto simp: memory_ok_def sweep_orphans_def encoding_rows_def)
  fix j
  assume j: "j \<in> set (db_jobs (qs_db s))" "row_ok (qs_queue s) j"
  have "rj_status j = Encoding" if "rj_id j \<in> set (rq_orphans ?q)"
    using o [OF that] j(1) I(1) by (metis distinct_map inj_onD)
  moreover have "task_ok ?q t j = task_ok (qs_queue s) t j" for t by (simp add: task_ok_def sweep_orphans_def split: phase.splits)
  ultimately show "row_ok ?q j"
    using row_okD [OF j(2)] c by (intro row_okI) (auto, auto simp: sweep_orphans_def)
qed

lemma step_ok_sweep_fail:
  assumes inv: "qinv s" and o: "rq_orphans (qs_queue s) = i # is"
    and f: "fail_orphans ok now [i] r (qs_db s) = (reclaimed, db)"
  shows "step_ok s (s\<lparr>qs_db := db, qs_queue := (qs_queue s)\<lparr>rq_orphans := is\<rparr>\<rparr>)"
proof -
  note I = qinvD [OF inv]
  let ?q = "(qs_queue s)\<lparr>rq_orphans := is\<rparr>"
  let ?R = "\<lambda>j j'. if rj_status j = Encoding then to_failed j j' else j' = j"
  have u: "rows_upd i ?R (db_jobs (qs_db s)) (db_jobs db)"
    using flip_if_rows [of i Encoding "qs_db s" ok now r] fail_one_orphan [of ok now i r "qs_db s"] f by simp
  have i: "i \<notin> task_ids (qs_queue s)" "rq_claim (qs_queue s) \<noteq> Some (ex, Some i)" for ex
    using memory_okD(3,4) [OF I(2), where i = i] o by auto
  have w: "weaker (qs_queue s) ?q" using o by (auto simp: weaker_def)
  have "row_ok ?q j'" if "row_ok (qs_queue s) j" "rj_id j = i" "rj_id j' = i" "rj_kind j' = rj_kind j" "?R j j'" for j j'
    using that i row_ok_free [OF that(1)] row_ok_weaker [OF _ w] by (auto split: if_splits)
  then have "qinv (s\<lparr>qs_db := db, qs_queue := ?q\<rparr>)"
    using qinv_rows [OF inv u memory_ok_weaker [OF I(2) w]] row_ok_weaker [OF _ w] by blast
  moreover have "rows_rel (lifecycle (rq_stopped (qs_queue s))) (db_jobs (qs_db s)) (db_jobs db)"
    by (rule rows_upd_rel [OF u I(1)]) (auto simp: lifecycle_def to_failed_def split: if_splits)
  ultimately show ?thesis by (simp add: step_ok_def)
qed

lemma fail_orphans_rows:
  assumes "distinct (map rj_id (db_jobs db))"
  shows "\<exists>f. db_jobs (snd (fail_orphans ok now ids r db)) = map f (db_jobs db) \<and>
    (\<forall>j\<in>set (db_jobs db). rj_id (f j) = rj_id j \<and> rj_kind (f j) = rj_kind j \<and>
       (if rj_status j = Encoding \<and> rj_id j \<in> set ids then to_failed j (f j) else f j = j))"
  using assms
proof (induction ids arbitrary: db)
  case Nil
  show ?case by (rule exI [of _ "\<lambda>j. j"]) simp
next
  case (Cons i ids)
  let ?db1 = "snd (flip_if ok now i Encoding r db)"
  from flip_if_rows [of i Encoding db ok now r] obtain f where f: "db_jobs ?db1 = map f (db_jobs db)"
    "\<forall>j\<in>set (db_jobs db). rj_id (f j) = rj_id j \<and> rj_kind (f j) = rj_kind j \<and>
      (if rj_id j = i then if rj_status j = Encoding then to_failed j (f j) else f j = j else f j = j)"
    unfolding rows_upd_def by blast
  have "distinct (map rj_id (db_jobs ?db1))"
    using rows_upd_ids [OF flip_if_rows [of i Encoding db ok now r]] Cons.prems by simp
  from Cons.IH [OF this] obtain g where g: "db_jobs (snd (fail_orphans ok now ids r ?db1)) = map g (db_jobs ?db1)"
    "\<forall>j\<in>set (db_jobs ?db1). rj_id (g j) = rj_id j \<and> rj_kind (g j) = rj_kind j \<and>
       (if rj_status j = Encoding \<and> rj_id j \<in> set ids then to_failed j (g j) else g j = j)" by blast
  have "db_jobs (snd (fail_orphans ok now (i # ids) r db)) = map (g \<circ> f) (db_jobs db)"
    using g(1) f(1) by (simp add: split_def Let_def)
  moreover have "rj_id ((g \<circ> f) j) = rj_id j \<and> rj_kind ((g \<circ> f) j) = rj_kind j \<and>
       (if rj_status j = Encoding \<and> rj_id j \<in> set (i # ids) then to_failed j ((g \<circ> f) j) else (g \<circ> f) j = j)"
    if "j \<in> set (db_jobs db)" for j
  proof -
    have "f j \<in> set (db_jobs ?db1)" using that f(1) by simp
    from f(2) [rule_format, OF that] g(2) [rule_format, OF this] show ?thesis
      by (auto simp: to_failed_def split: if_splits)
  qed
  ultimately show ?case by blast
qed

lemma new_queue_row_ok: "row_ok (new_queue cfg) j \<longleftrightarrow> rj_shutdown_requeues j \<le> 1"
  by (simp add: row_ok_def new_queue_def)

lemma step_ok_restart:
  assumes inv: "qinv s" and f: "fail_orphans ok now ids r (qs_db s) = (reclaimed, db)"
  shows "step_ok s (s\<lparr>qs_db := db, qs_queue := new_queue cfg\<rparr>)"
proof -
  note I = qinvD [OF inv]
  obtain f where f: "db_jobs db = map f (db_jobs (qs_db s))"
    "\<And>j. j \<in> set (db_jobs (qs_db s)) \<Longrightarrow> rj_id (f j) = rj_id j \<and> rj_kind (f j) = rj_kind j \<and>
       (if rj_status j = Encoding \<and> rj_id j \<in> set ids then to_failed j (f j) else f j = j)"
    using fail_orphans_rows [OF I(1), of ok now ids r] f by auto
  have ids: "map rj_id (db_jobs db) = map rj_id (db_jobs (qs_db s))" using f by simp
  have rq: "rj_shutdown_requeues (f j) \<le> 1" if "j \<in> set (db_jobs (qs_db s))" for j
    using f(2) [OF that] row_okD(4) [OF I(4) [OF that]] by (auto simp: to_failed_def split: if_splits)
  have "qinv (s\<lparr>qs_db := db, qs_queue := new_queue cfg\<rparr>)"
  proof (rule qinvI, goal_cases)
    case 1
    show ?case using ids I(1) by simp
  next
    case 2
    show ?case by (simp add: memory_ok_def new_queue_def)
  next
    case (3 j)
    then obtain k where "k \<in> set (db_jobs (qs_db s))" "j = f k" using f(1) by auto
    then show ?case using f(2) rq I(3) by (simp add: new_queue_row_ok)
  qed
  moreover have "rows_rel (lifecycle (rq_stopped (qs_queue s))) (db_jobs (qs_db s)) (db_jobs db)"
    unfolding rows_rel_def
  proof (intro ballI impI)
    fix j j'
    assume j: "j \<in> set (db_jobs (qs_db s))" "j' \<in> set (db_jobs db)" "rj_id j' = rj_id j"
    then obtain k where k: "k \<in> set (db_jobs (qs_db s))" "j' = f k" using f(1) by auto
    have "k = j" using k f(2) [OF k(1)] j I(1) by (metis distinct_map inj_onD)
    then show "lifecycle (rq_stopped (qs_queue s)) j j'"
      using f(2) [OF j(1)] k(2) by (auto simp: lifecycle_def to_failed_def split: if_splits)
  qed
  ultimately show ?thesis by (simp add: step_ok_def)
qed

lemma step_ok_backfill:
  assumes inv: "qinv s" and b: "store_backfill i media (db_jobs (qs_db s)) = (stored, jobs)"
  shows "step_ok s (s\<lparr>qs_db := (qs_db s)\<lparr>db_jobs := jobs\<rparr>\<rparr>)"
proof -
  note I = qinvD [OF inv]
  let ?R = "\<lambda>j j'. rj_status j' = rj_status j \<and> rj_shutdown_requeues j' = rj_shutdown_requeues j"
  have u: "rows_upd i ?R (db_jobs (qs_db s)) jobs" using store_backfill_rows [of i "db_jobs (qs_db s)" media] b by simp
  have "row_ok (qs_queue s) j'" if "row_ok (qs_queue s) j" "rj_id j = i" "rj_id j' = i" "rj_kind j' = rj_kind j" "?R j j'" for j j'
  proof -
    have "task_ok (qs_queue s) t j' = task_ok (qs_queue s) t j" for t
      using that(4,5) by (simp add: task_ok_def split: phase.splits)
    then show ?thesis using that by (simp add: row_ok_def)
  qed
  then have "qinv (s\<lparr>qs_db := (qs_db s)\<lparr>db_jobs := jobs\<rparr>\<rparr>)"
    by (intro qinv_db [OF inv, where R = ?R and i = i]) (use u in simp_all)
  moreover have "rows_rel (lifecycle (rq_stopped (qs_queue s))) (db_jobs (qs_db s)) jobs"
    by (rule rows_upd_rel [OF u I(1)]) (auto simp: lifecycle_def)
  ultimately show ?thesis by (simp add: step_ok_def)
qed

lemma qstep_ok:
  assumes "qstep cfg s s'" "qinv s"
  shows "step_ok s s'"
  using assms(1)
proof (cases rule: qstep.cases)
  case (enqueue p k)
  then show ?thesis using step_ok_enqueue [OF assms(2)] by blast
next
  case (remove i)
  then show ?thesis using step_ok_remove [OF assms(2)] by blast
next
  case (launch ex)
  have "weaker (qs_queue s) (launch_begin ex (qs_queue s))" by (simp add: weaker_def launch_begin_def)
  then show ?thesis using step_ok_weaker [OF assms(2)] launch by blast
next
  case (claim ex now claimed jobs)
  then show ?thesis using step_ok_claim [OF assms(2)] by blast
next
  case (register ex i)
  then show ?thesis using step_ok_register [OF assms(2)] by blast
next
  case (abort ex c)
  have "weaker (qs_queue s) (launch_aborted ex (qs_queue s))" by (simp add: weaker_def launch_aborted_def)
  then show ?thesis using step_ok_weaker [OF assms(2)] abort by blast
next
  case (late_claim ex now claimed jobs)
  then show ?thesis using step_ok_late_claim [OF assms(2)] by blast
next
  case (settle t ph db)
  then show ?thesis using step_ok_settle [OF assms(2)] by blast
next
  case (finish t)
  then show ?thesis using step_ok_finish [OF assms(2)] by blast
next
  case (cancel_pending i ok now user settled_from db)
  then show ?thesis using step_ok_cancel [OF assms(2)] by blast
next
  case (user_cancel i)
  have "weaker (qs_queue s) ((qs_queue s)\<lparr>rq_user_cancels := insert i (rq_user_cancels (qs_queue s))\<rparr>)"
    by (simp add: weaker_def)
  then show ?thesis using step_ok_weaker [OF assms(2)] user_cancel by blast
next
  case (user_cancelled i)
  have "weaker (qs_queue s) ((qs_queue s)\<lparr>rq_user_cancels := rq_user_cancels (qs_queue s) - {i}\<rparr>)"
    by (simp add: weaker_def)
  then show ?thesis using step_ok_weaker [OF assms(2)] user_cancelled by blast
next
  case sweep
  then show ?thesis using step_ok_sweep [OF assms(2)] by blast
next
  case (sweep_fail i "is" ok now reclaimed db)
  then show ?thesis using step_ok_sweep_fail [OF assms(2)] by blast
next
  case stop
  have "weaker (qs_queue s) ((qs_queue s)\<lparr>rq_stopped := True\<rparr>)" by (simp add: weaker_def)
  then show ?thesis using step_ok_weaker [OF assms(2)] stop by blast
next
  case (restart ok now n reclaimed db)
  then show ?thesis using step_ok_restart [OF assms(2)] by blast
next
  case (backfill i media stored jobs)
  then show ?thesis using step_ok_backfill [OF assms(2)] by blast
qed

lemma qinv_reachable: "(qstep cfg)\<^sup>*\<^sup>* (qsys_init cfg) s \<Longrightarrow> qinv s"
proof (induction rule: rtranclp_induct)
  case base
  show ?case by (intro qinvI) (auto simp: qsys_init_def memory_ok_def new_queue_def)
next
  case (step s s')
  then show ?case using qstep_ok by (auto simp: step_ok_def)
qed

section \<open>Slots\<close>

definition capacity :: "worker_config \<Rightarrow> bool \<Rightarrow> nat" where
  "capacity cfg ex = nat (max 1 (if ex then wc_max_concurrent_exports cfg else wc_max_concurrent cfg))"

definition running_jobs :: "bool \<Rightarrow> render_queue \<Rightarrow> nat" where
  "running_jobs ex q = length (filter (\<lambda>t. jt_export t = ex) (rq_tasks q))"

definition claiming_slots :: "bool \<Rightarrow> render_queue \<Rightarrow> nat" where
  "claiming_slots ex q = (case rq_claim q of None \<Rightarrow> 0 | Some (ex', c) \<Rightarrow> if ex' = ex then 1 else 0)"

definition slots_ok :: "worker_config \<Rightarrow> render_queue \<Rightarrow> bool" where
  "slots_ok cfg q \<longleftrightarrow> (\<forall>ex. free_slots ex q + running_jobs ex q + claiming_slots ex q = capacity cfg ex)"

lemma slots_okI:
  "slots_ok cfg q \<Longrightarrow>
   (\<And>ex. free_slots ex q' + running_jobs ex q' + claiming_slots ex q' = free_slots ex q + running_jobs ex q + claiming_slots ex q) \<Longrightarrow>
   slots_ok cfg q'"
  by (simp add: slots_ok_def)

lemma free_slots_simps:
  "free_slots ex (release_slot ex' q) = free_slots ex q + (if ex = ex' then 1 else 0)"
  "0 < free_slots ex' q \<Longrightarrow> free_slots ex (acquire_slot ex' q) + (if ex = ex' then 1 else 0) = free_slots ex q"
  "free_slots ex (q\<lparr>rq_claim := c\<rparr>) = free_slots ex q" "free_slots ex (q\<lparr>rq_tasks := ts\<rparr>) = free_slots ex q"
  by (auto simp: free_slots_def release_slot_def acquire_slot_def)

lemma running_jobs_simps:
  "running_jobs ex (release_slot ex' q) = running_jobs ex q" "running_jobs ex (acquire_slot ex' q) = running_jobs ex q"
  "running_jobs ex (q\<lparr>rq_claim := c\<rparr>) = running_jobs ex q"
  by (simp_all add: running_jobs_def)

lemma claiming_slots_simps:
  "claiming_slots ex (q\<lparr>rq_claim := None\<rparr>) = 0" "claiming_slots ex (q\<lparr>rq_claim := Some (ex', c)\<rparr>) = (if ex' = ex then 1 else 0)"
  "rq_claim q = None \<Longrightarrow> claiming_slots ex q = 0" "rq_claim q = Some (ex', c) \<Longrightarrow> claiming_slots ex q = (if ex' = ex then 1 else 0)"
  by (simp_all add: claiming_slots_def)

lemmas slot_simps = free_slots_simps running_jobs_simps claiming_slots_simps

lemma running_set_phase [simp]: "running_jobs ex (set_phase i ph q) = running_jobs ex q"
proof -
  have "map jt_export (rq_tasks (set_phase i ph q)) = map jt_export (rq_tasks q)" by (simp add: set_phase_def)
  then have "length (filter (\<lambda>e. e = ex) (map jt_export (rq_tasks (set_phase i ph q)))) =
    length (filter (\<lambda>e. e = ex) (map jt_export (rq_tasks q)))" by simp
  then show ?thesis by (simp add: running_jobs_def filter_map comp_def)
qed

lemma length_filter_remove1:
  "x \<in> set xs \<Longrightarrow> length (filter P xs) = length (filter P (remove1 x xs)) + (if P x then 1 else 0)"
  by (induction xs) auto

lemma finish_slots:
  assumes "t \<in> set (rq_tasks q)"
  shows "free_slots ex (finish_task t q) + running_jobs ex (finish_task t q) + claiming_slots ex (finish_task t q) =
    free_slots ex q + running_jobs ex q + claiming_slots ex q"
proof -
  have "running_jobs ex q = running_jobs ex (finish_task t q) + (if jt_export t = ex then 1 else 0)"
    using length_filter_remove1 [OF assms, of "\<lambda>t. jt_export t = ex"] by (simp add: running_jobs_def finish_task_def)
  moreover have "free_slots ex (finish_task t q) = free_slots ex q + (if ex = jt_export t then 1 else 0)"
    by (simp add: finish_task_def free_slots_simps)
  moreover have "claiming_slots ex (finish_task t q) = claiming_slots ex q"
    by (simp add: claiming_slots_def finish_task_def)
  ultimately show ?thesis by auto
qed

lemma slots_ok_others [simp]:
  "slots_ok cfg (q\<lparr>rq_user_cancels := x\<rparr>) = slots_ok cfg q" "slots_ok cfg (q\<lparr>rq_orphans := y\<rparr>) = slots_ok cfg q"
  "slots_ok cfg (q\<lparr>rq_stopped := z\<rparr>) = slots_ok cfg q"
  by (simp_all add: slots_ok_def free_slots_def running_jobs_def claiming_slots_def)

lemma slots_ok_step:
  assumes "qstep cfg s s'" "slots_ok cfg (qs_queue s)"
  shows "slots_ok cfg (qs_queue s')"
  using assms(1)
proof (cases rule: qstep.cases)
  case (launch ex)
  have "free_slots e q' + running_jobs e q' + claiming_slots e q' =
      free_slots e (qs_queue s) + running_jobs e (qs_queue s) + claiming_slots e (qs_queue s)"
    if "q' = launch_begin ex (qs_queue s)" for e q'
    using free_slots_simps(2) [OF launch(4), of e] claiming_slots_simps(3) [OF launch(3), of e]
    by (auto simp: that launch_begin_def free_slots_simps(3) running_jobs_simps claiming_slots_simps(2))
  then show ?thesis using assms(2) unfolding launch(1) by (elim slots_okI) simp
next
  case (claim ex now claimed jobs)
  then show ?thesis using assms(2)
    by (elim slots_okI) (auto simp: launch_claimed_def slot_simps split: option.splits)
next
  case (register ex i)
  then have "running_jobs e (launch_register ex i (qs_queue s)) = running_jobs e (qs_queue s) + (if ex = e then 1 else 0)"
    "free_slots e (launch_register ex i (qs_queue s)) = free_slots e (qs_queue s)"
    "claiming_slots e (launch_register ex i (qs_queue s)) = 0" for e
    by (auto simp: launch_register_def running_jobs_def free_slots_def claiming_slots_def)
  then show ?thesis using assms(2) claiming_slots_simps(4) [OF register(2)] unfolding register(1)
    by (elim slots_okI) simp
next
  case (abort ex c)
  then show ?thesis using assms(2) by (elim slots_okI) (simp add: launch_aborted_def slot_simps)
next
  case (settle t ph db)
  have "free_slots ex (set_phase i ph q) = free_slots ex q" "claiming_slots ex (set_phase i ph q) = claiming_slots ex q" for ex i q
    by (simp_all add: free_slots_def claiming_slots_def set_phase_def)
  then show ?thesis using assms(2) settle by (simp add: slots_ok_def)
next
  case (finish t)
  then show ?thesis using assms(2) finish_slots by (elim slots_okI) simp
next
  case (restart ok now n reclaimed db)
  then show ?thesis by (simp add: slots_ok_def free_slots_def running_jobs_def claiming_slots_def new_queue_def capacity_def)
qed (use assms(2) in \<open>simp_all add: sweep_orphans_def\<close>)

lemma slots_ok_reachable: "(qstep cfg)\<^sup>*\<^sup>* (qsys_init cfg) s \<Longrightarrow> slots_ok cfg (qs_queue s)"
proof (induction rule: rtranclp_induct)
  case base
  show ?case by (simp add: qsys_init_def slots_ok_def free_slots_def running_jobs_def claiming_slots_def new_queue_def capacity_def)
next
  case (step s s')
  then show ?case using slots_ok_step by blast
qed

section \<open>Properties\<close>

text \<open>
  C24.  The life cycle of a job.  However the worker, cancels, sweeps, late claims, stops,
  crashes and restarts interleave, a step takes a job only from pending to encoding or failed,
  from encoding to done or failed, and back to pending only while the worker is stopping, for a
  job that is not an export and was never requeued: a settled job stays settled, and none is
  run without being claimed.  A job whose task runs is encoding.
\<close>

theorem job_lifecycle:
  assumes "(qstep cfg)\<^sup>*\<^sup>* (qsys_init cfg) s" "qstep cfg s s'"
    and "j \<in> set (db_jobs (qs_db s))" "j' \<in> set (db_jobs (qs_db s'))" "rj_id j' = rj_id j"
  shows "(rj_status j' = rj_status j \<and> rj_shutdown_requeues j' = rj_shutdown_requeues j \<or>
      (rj_status j, rj_status j') \<in> {(Pending, Encoding), (Pending, Failed), (Encoding, Done), (Encoding, Failed)} \<and>
        rj_shutdown_requeues j' = rj_shutdown_requeues j \<or>
      rq_stopped (qs_queue s) \<and> rj_status j = Encoding \<and> rj_status j' = Pending \<and> rj_kind j \<noteq> Export \<and>
        rj_shutdown_requeues j = 0 \<and> rj_shutdown_requeues j' = 1) \<and>
    (\<forall>t\<in>set (rq_tasks (qs_queue s)). jt_id t = rj_id j \<and> jt_phase t = Running \<longrightarrow> rj_status j = Encoding)"
proof -
  note inv = qinv_reachable [OF assms(1)]
  have "lifecycle (rq_stopped (qs_queue s)) j j'"
    using qstep_ok [OF assms(2) inv] assms(3-5) by (auto simp: step_ok_def rows_rel_def)
  moreover have "rj_status j = Encoding"
    if "t \<in> set (rq_tasks (qs_queue s))" "jt_id t = rj_id j" "jt_phase t = Running" for t
    using row_okD(1) [OF qinvD(4) [OF inv assms(3)] that(1,2)] that(3) by (simp add: task_ok_def)
  ultimately show ?thesis unfolding lifecycle_def requeued_def by blast
qed

definition sample_worker :: worker_config where
  "sample_worker = \<lparr>wc_max_concurrent = 1, wc_max_concurrent_exports = 1\<rparr>"

definition sample_enqueued :: qsys where
  "sample_enqueued = \<lparr>qs_db = \<lparr>db_jobs = [new_job 1 7 Manual], db_events = []\<rparr>, qs_queue = new_queue sample_worker, qs_last_id = 1\<rparr>"

lemma sample_enqueued_reachable: "(qstep sample_worker)\<^sup>*\<^sup>* (qsys_init sample_worker) sample_enqueued"
proof -
  have "qstep sample_worker (qsys_init sample_worker) sample_enqueued"
    using qstep.enqueue [of sample_worker "qsys_init sample_worker" 7 Manual]
    by (simp add: qsys_init_def sample_enqueued_def)
  then show ?thesis by blast
qed

theorem job_lifecycle_witness:
  "qstep sample_worker sample_enqueued
     (sample_enqueued\<lparr>qs_db := snd (cancel_untracked True 5 1 True (qs_db sample_enqueued))\<rparr>) \<and>
   rj_status (hd (db_jobs (snd (cancel_untracked True 5 1 True (qs_db sample_enqueued))))) \<in> {Pending, Encoding, Failed}"
proof -
  let ?db = "snd (cancel_untracked True 5 1 True (qs_db sample_enqueued))"
  have "rq_claim (qs_queue sample_enqueued) = None" "1 \<notin> task_ids (qs_queue sample_enqueued)"
    by (simp_all add: sample_enqueued_def new_queue_def)
  then have st: "qstep sample_worker sample_enqueued (sample_enqueued\<lparr>qs_db := ?db\<rparr>)"
    using qstep.cancel_pending [OF _ _ prod.collapse [symmetric]] by blast
  have j: "new_job 1 7 Manual \<in> set (db_jobs (qs_db sample_enqueued))" by (simp add: sample_enqueued_def)
  have jobs: "db_jobs ?db = [(new_job 1 7 Manual)\<lparr>rj_status := Failed, rj_completed_at := Some 5\<rparr>]" by code_simp
  have "rj_status ((new_job 1 7 Manual)\<lparr>rj_status := Failed, rj_completed_at := Some 5\<rparr>) \<in> {Pending, Encoding, Failed}"
    using job_lifecycle [OF sample_enqueued_reachable st j, of "(new_job 1 7 Manual)\<lparr>rj_status := Failed, rj_completed_at := Some 5\<rparr>"]
      jobs by (simp add: new_job_def)
  with st jobs show ?thesis by simp
qed

text \<open>
  C25.  Bounded concurrency.  In every reachable state the free slots, the tasks and the claim
  in progress of a family add up to its configured capacity, so at most that many renders, and
  at most that many exports, run at once and every slot comes back exactly once; and no job is
  requeued by a shutdown more than once.
\<close>

theorem render_slots_bounded:
  assumes "(qstep cfg)\<^sup>*\<^sup>* (qsys_init cfg) s"
  shows "free_slots ex (qs_queue s) + running_jobs ex (qs_queue s) + claiming_slots ex (qs_queue s) =
      nat (max 1 (if ex then wc_max_concurrent_exports cfg else wc_max_concurrent cfg)) \<and>
    (\<forall>j\<in>set (db_jobs (qs_db s)). rj_shutdown_requeues j \<le> 1)"
  using slots_ok_reachable [OF assms] row_okD(4) [OF qinvD(4) [OF qinv_reachable [OF assms]]]
  by (simp add: slots_ok_def capacity_def)

theorem render_slots_bounded_witness:
  "free_slots False (qs_queue sample_enqueued) + running_jobs False (qs_queue sample_enqueued) +
     claiming_slots False (qs_queue sample_enqueued) = 1"
  using render_slots_bounded [OF sample_enqueued_reachable, of False] by (simp add: sample_worker_def)

lemma flip_if_flips:
  assumes "distinct (map rj_id (db_jobs db))" "j \<in> set (db_jobs db)" "rj_status j = st"
  shows "fst (flip_if True now (rj_id j) st (Some r) db)"
    "length (db_events (snd (flip_if True now (rj_id j) st (Some r) db))) = Suc (length (db_events db))"
  using assms by (auto simp: flip_if_def update_where_def filter_empty_conv log_render_failed_def log_event_def)

lemma fail_orphans_all:
  assumes "distinct (map rj_id (db_jobs db))" "distinct ids"
    "\<And>i. i \<in> set ids \<Longrightarrow> \<exists>j\<in>set (db_jobs db). rj_id j = i \<and> rj_status j = Encoding"
  shows "fst (fail_orphans True now ids (Some r) db) = ids \<and>
    length (db_events (snd (fail_orphans True now ids (Some r) db))) = length (db_events db) + length ids"
  using assms
proof (induction ids arbitrary: db)
  case (Cons i ids)
  let ?db1 = "snd (flip_if True now i Encoding (Some r) db)"
  note u = flip_if_rows [of i Encoding db True now "Some r"]
  obtain j where j: "j \<in> set (db_jobs db)" "rj_id j = i" "rj_status j = Encoding" using Cons.prems(3) [of i] by auto
  note f = flip_if_flips [OF Cons.prems(1) j(1) j(3), unfolded j(2)]
  obtain g where g: "db_jobs ?db1 = map g (db_jobs db)"
    "\<forall>j\<in>set (db_jobs db). rj_id j \<noteq> i \<longrightarrow> g j = j" using u unfolding rows_upd_def by (metis (no_types, lifting))
  have "\<exists>j\<in>set (db_jobs ?db1). rj_id j = k \<and> rj_status j = Encoding" if k: "k \<in> set ids" for k
  proof -
    obtain m where m: "m \<in> set (db_jobs db)" "rj_id m = k" "rj_status m = Encoding" using Cons.prems(3) [of k] k by auto
    have "k \<noteq> i" using k Cons.prems(2) by auto
    then have "g m = m" using g(2) m by auto
    then show ?thesis using g(1) m by (metis image_eqI list.set_map)
  qed
  moreover have "distinct (map rj_id (db_jobs ?db1))" using rows_upd_ids [OF u] Cons.prems(1) by simp
  ultimately have "fst (fail_orphans True now ids (Some r) ?db1) = ids \<and>
      length (db_events (snd (fail_orphans True now ids (Some r) ?db1))) = length (db_events ?db1) + length ids"
    using Cons.IH Cons.prems(2) by simp
  with f show ?case by (simp add: split_def Let_def)
qed simp


definition sample_orphaned :: render_db where
  "sample_orphaned = \<lparr>db_jobs = [(new_job 1 7 Manual)\<lparr>rj_status := Encoding\<rparr>, new_job 2 7 Manual], db_events = []\<rparr>"


section \<open>Terminal writes\<close>

lemma settle_loop_first:
  assumes "landed n \<or> stopped n" "\<And>k. a \<le> k \<Longrightarrow> k < n \<Longrightarrow> \<not> landed k \<and> \<not> stopped k" "a \<le> n"
  shows "settle_loop landed stopped interrupted a c slept =
    Some (landed n, slept @ map (\<lambda>k. min (2 ^ k) 30) [a..<n], c \<or> (\<exists>k\<in>{a..n}. interrupted k))"
  using assms(2,3)
proof (induction "n - a" arbitrary: a c slept)
  case 0
  then have "a = n" by simp
  then show ?case using assms(1) by (subst settle_loop.simps) (auto simp: Let_def)
next
  case (Suc m)
  then have a: "\<not> landed a" "\<not> stopped a" "Suc a \<le> n" by auto
  have "settle_loop landed stopped interrupted a c slept =
      settle_loop landed stopped interrupted (Suc a) (c \<or> interrupted a) (slept @ [min (2 ^ a) 30])"
    by (subst settle_loop.simps) (simp add: a Let_def settle_backoff_max_seconds_def)
  also have "\<dots> = Some (landed n, (slept @ [min (2 ^ a) 30]) @ map (\<lambda>k. min (2 ^ k) 30) [Suc a..<n],
      (c \<or> interrupted a) \<or> (\<exists>k\<in>{Suc a..n}. interrupted k))"
    using Suc.hyps(2) Suc.prems(1) a(3) by (intro Suc.hyps(1)) auto
  also have "(slept @ [min (2 ^ a) 30]) @ map (\<lambda>k. min (2 ^ k) (30::rat)) [Suc a..<n] = slept @ map (\<lambda>k. min (2 ^ k) 30) [a..<n]"
    using a(3) by (simp add: upt_rec [of a n])
  also have "((c \<or> interrupted a) \<or> (\<exists>k\<in>{Suc a..n}. interrupted k)) = (c \<or> (\<exists>k\<in>{a..n}. interrupted k))"
    using a(3) Suc_le_eq by (auto simp: Bex_def) (metis le_antisym not_less_eq_eq)
  finally show ?case .
qed

lemma settle_loop_Some:
  assumes "settle_loop landed stopped interrupted a c slept = Some r"
  shows "\<exists>n\<ge>a. landed n \<or> stopped n"
proof (rule settle_loop.raw_induct [where P = "\<lambda>landed stopped interrupted a c slept r. \<exists>n\<ge>a. landed n \<or> stopped n", OF _ assms])
  fix loop :: "(nat \<Rightarrow> bool) \<Rightarrow> (nat \<Rightarrow> bool) \<Rightarrow> (nat \<Rightarrow> bool) \<Rightarrow> nat \<Rightarrow> bool \<Rightarrow> rat list \<Rightarrow> (bool \<times> rat list \<times> bool) option"
  fix landed stopped interrupted a c slept r
  assume IH: "\<And>landed stopped interrupted a c slept r.
      loop landed stopped interrupted a c slept = Some r \<Longrightarrow> \<exists>n\<ge>a. landed n \<or> stopped n"
    and b: "(let cancelled' = c \<or> interrupted a in
      if landed a then Some (True, slept, cancelled')
      else if stopped a then Some (False, slept, cancelled')
      else loop landed stopped interrupted (Suc a) cancelled' (slept @ [min (2 ^ a) settle_backoff_max_seconds])) = Some r"
  show "\<exists>n\<ge>a. landed n \<or> stopped n"
  proof (cases "landed a \<or> stopped a")
    case False
    then have "\<exists>n\<ge>Suc a. landed n \<or> stopped n" using b IH by (simp add: Let_def)
    then show ?thesis by (meson Suc_leD)
  qed blast
qed



section \<open>Gates and retries\<close>

text \<open>Of a start and a cancel of a queued export, in either order, exactly one wins.\<close>

lemma gate_one_winner:
  "fst (gate_start new_gate) \<noteq> fst (cancel_if_queued (snd (gate_start new_gate)))"
  "fst (cancel_if_queued new_gate) \<noteq> fst (gate_start (snd (cancel_if_queued new_gate)))"
  by (simp_all add: gate_start_def cancel_if_queued_def new_gate_def)

text \<open>A retried write is tried at most the given number of times, and again only when locked.\<close>

lemma write_attempts_bounded:
  "write_attempts operation a n = (r, m) \<Longrightarrow> m \<le> a + n \<and> (\<forall>k. a \<le> k \<and> Suc k < m \<longrightarrow> operation k = Locked)"
proof (induction operation a n arbitrary: r m rule: write_attempts.induct)
  case (2 operation a left)
  show ?case
  proof (cases "operation a = Locked \<and> left \<noteq> 0")
    case True
    then have "write_attempts operation (Suc a) left = (r, m)" using 2(2) by simp
    from 2(1) [OF _ _ this] True show ?thesis
      by (auto simp: Suc_le_eq) (metis le_neq_implies_less)
  next
    case False
    then have "m = Suc a" using 2(2) by (auto split: try_result.splits if_splits)
    then show ?thesis by auto
  qed
qed auto

end
