(* ===== verification/Storage_Paths.thy ===== *)
theory Storage_Paths
  imports Prelude
begin

text \<open>
  Where a project's frame files live (\<open>storage/paths.py\<close>): the layout, the stored form of a
  path, the containment check every read and delete goes through, and the policy for a
  project's own \<open>storage_path\<close>.

  An absolute path is the list of its components.  The file system is two arguments:
  \<open>realpath\<close>, which follows symbolic links (\<open>None\<close> where the call raises), and \<open>stat_id\<close>, the
  device and inode of an existing path.  Settings that name files are given as the absolute
  paths \<open>os.path.abspath\<close> makes of them.
\<close>

section \<open>Paths\<close>

type_synonym path = "string list"

type_synonym realpath_fn = "path \<Rightarrow> path option"

type_synonym stat_fn = "path \<Rightarrow> (int \<times> int) option"

definition path_parts :: "string \<Rightarrow> path" where
  "path_parts s = filter (\<lambda>c. c \<noteq> [] \<and> c \<noteq> ''.'') (split_on (CHR ''/'') s)"

definition is_absolute :: "string \<Rightarrow> bool" where
  "is_absolute s \<longleftrightarrow> s \<noteq> [] \<and> hd s = CHR ''/''"

definition basename :: "path \<Rightarrow> string" where
  "basename p = (if p = [] then [] else last p)"

text \<open>\<open>str(Path)\<close> of an absolute path.\<close>

definition path_text :: "path \<Rightarrow> string" where
  "path_text p = (if p = [] then ''/'' else concat (map (\<lambda>c. CHR ''/'' # c) p))"

section \<open>Layout\<close>

record project_ref =
  pr_id :: int
  pr_storage_path :: "string option"

record path_settings =
  ps_frames_root :: path
  ps_data_dir :: path
  ps_files :: "path option list"
  ps_allowed_roots :: "path list option"
  ps_output_subdir :: string

definition has_storage_path :: "project_ref \<Rightarrow> bool" where
  "has_storage_path pr \<longleftrightarrow> (case pr_storage_path pr of None \<Rightarrow> False | Some s \<Rightarrow> s \<noteq> [])"

definition frame_dir_under_root :: "path \<Rightarrow> project_ref \<Rightarrow> path" where
  "frame_dir_under_root base pr =
     (if has_storage_path pr then path_parts (the (pr_storage_path pr)) else base @ [show_int (pr_id pr)])"

definition frame_dir :: "path_settings \<Rightarrow> project_ref \<Rightarrow> path" where
  "frame_dir cfg pr = frame_dir_under_root (ps_frames_root cfg) pr"

definition uses_default_layout :: "project_ref \<Rightarrow> bool" where
  "uses_default_layout pr \<longleftrightarrow> \<not> has_storage_path pr"

definition to_stored :: "project_ref \<Rightarrow> path \<Rightarrow> string" where
  "to_stored pr absolute_path =
     (if uses_default_layout pr then basename absolute_path else path_text absolute_path)"

definition resolve_absolute :: "path_settings \<Rightarrow> int \<Rightarrow> string \<Rightarrow> path" where
  "resolve_absolute cfg project_id stored_path =
     (if is_absolute stored_path then path_parts stored_path
      else ps_frames_root cfg @ show_int project_id # path_parts stored_path)"

section \<open>Containment\<close>

function identity_walk :: "stat_fn \<Rightarrow> int \<times> int \<Rightarrow> path \<Rightarrow> bool" where
  "identity_walk stat_id root_id current =
     (if stat_id current = Some root_id then True
      else (let parent = butlast current in if parent = current then False else identity_walk stat_id root_id parent))"
  by pat_completeness auto
termination
proof (relation "measure (\<lambda>(st, r, p). length p)", goal_cases)
  case (2 stat_id root_id current parent)
  then show ?case by (cases current rule: rev_cases) auto
qed simp

declare identity_walk.simps [simp del]

text \<open>The string test compares components: \<open>commonpath((path, root)) == root\<close>.\<close>

definition is_within :: "stat_fn \<Rightarrow> path \<Rightarrow> path \<Rightarrow> bool" where
  "is_within stat_id path base =
     (if path = base \<or> take (length base) path = base then True
      else (case stat_id base of None \<Rightarrow> False | Some root_id \<Rightarrow> identity_walk stat_id root_id path))"

definition py_real :: "realpath_fn \<Rightarrow> path \<Rightarrow> path res" where
  "py_real realpath p = (case realpath p of None \<Rightarrow> Inl (OSError ''realpath'') | Some r \<Rightarrow> Inr r)"

definition frame_boundaries :: "realpath_fn \<Rightarrow> path_settings \<Rightarrow> project_ref \<Rightarrow> path list res" where
  "frame_boundaries realpath cfg pr =
     rbind (py_real realpath (frame_dir cfg pr)) (\<lambda>current.
     rbind (py_real realpath (ps_frames_root cfg @ [show_int (pr_id pr)])) (\<lambda>dflt.
       Inr (if current = dflt then [current] else [current, dflt])))"

definition resolve_contained_frame_path ::
  "realpath_fn \<Rightarrow> stat_fn \<Rightarrow> path_settings \<Rightarrow> project_ref \<Rightarrow> string \<Rightarrow> path list option \<Rightarrow> path res" where
  "resolve_contained_frame_path realpath stat_id cfg pr stored_path boundaries =
     rbind (case boundaries of Some b \<Rightarrow> Inr b | None \<Rightarrow> frame_boundaries realpath cfg pr) (\<lambda>bounds.
       case realpath (resolve_absolute cfg (pr_id pr) stored_path) of
         None \<Rightarrow> Inl (PathContainmentError (pr_id pr))
       | Some rp \<Rightarrow>
           (if \<not> list_ex (is_within stat_id rp) bounds then Inl (PathContainmentError (pr_id pr)) else Inr rp))"

section \<open>The thumbnail cache\<close>

definition thumbnail_widths :: "int list" where "thumbnail_widths = [320, 640]"

definition default_thumbnail_width :: int where "default_thumbnail_width = 320"

definition thumbnail_cache_root :: "path_settings \<Rightarrow> path" where
  "thumbnail_cache_root cfg = ps_data_dir cfg @ [''thumbnails'']"

definition thumbnail_cache_dir :: "path_settings \<Rightarrow> int \<Rightarrow> path" where
  "thumbnail_cache_dir cfg project_id = thumbnail_cache_root cfg @ [show_int project_id]"

definition contained_thumbnail_dir :: "realpath_fn \<Rightarrow> stat_fn \<Rightarrow> path_settings \<Rightarrow> int \<Rightarrow> path res" where
  "contained_thumbnail_dir realpath stat_id cfg project_id =
     rbind (py_real realpath (thumbnail_cache_root cfg)) (\<lambda>base.
     rbind (py_real realpath (thumbnail_cache_dir cfg project_id)) (\<lambda>rp.
       if rp = base \<or> \<not> is_within stat_id rp base then Inl (PathContainmentError project_id) else Inr rp))"

definition thumbnail_file_name :: "int \<Rightarrow> int \<Rightarrow> string res" where
  "thumbnail_file_name frame_id width =
     (if width \<notin> set thumbnail_widths then Inl (ValueError ''width'' ''unsupported'')
      else if width = default_thumbnail_width then Inr (show_int frame_id @ ''.jpg'')
      else Inr (show_int frame_id @ ''_'' @ show_int width @ ''.jpg''))"

section \<open>The storage-path policy\<close>

definition protected_dirs :: "realpath_fn \<Rightarrow> stat_fn \<Rightarrow> path_settings \<Rightarrow> path list res" where
  "protected_dirs realpath stat_id cfg =
     (let data_dir = ps_data_dir cfg;
          candidates = [data_dir, data_dir @ [''thumbnails''], data_dir @ [''reports'']] @
            map (butlast \<circ> the) (filter (\<lambda>f. f \<noteq> None) (ps_files cfg))
      in rbind (rmap (py_real realpath) candidates) (\<lambda>reals.
           Inr (unique_first (filter
             (\<lambda>r. r \<noteq> [] \<and> \<not> (stat_id r \<noteq> None \<and> stat_id r = stat_id [])) reals))))"

definition overlaps_protected :: "stat_fn \<Rightarrow> path \<Rightarrow> path list \<Rightarrow> path \<Rightarrow> path option" where
  "overlaps_protected stat_id path prot frames =
     List.find (\<lambda>directory.
       is_within stat_id path directory \<and>
       \<not> (is_within stat_id frames directory \<and> \<not> is_within stat_id directory frames \<and> is_within stat_id path frames)) prot"

definition allowed_roots :: "realpath_fn \<Rightarrow> path_settings \<Rightarrow> path list res" where
  "allowed_roots realpath cfg =
     rmap (py_real realpath) (case ps_allowed_roots cfg of None \<Rightarrow> [ps_frames_root cfg] | Some rs \<Rightarrow> rs)"

definition max_storage_path_bytes :: nat where "max_storage_path_bytes = 4096"

definition is_control :: "char \<Rightarrow> bool" where
  "is_control c = (let n = (of_char c :: nat) in n < 32 \<or> (127 \<le> n \<and> n \<le> 159))"

definition utf8_length :: "string \<Rightarrow> nat" where
  "utf8_length s = sum_list (map (\<lambda>c. if (of_char c :: nat) < 128 then 1 else 2) s)"

definition check_storage_path_text :: "string \<Rightarrow> unit res" where
  "check_storage_path_text txt =
     (if list_ex is_control txt then Inl (StoragePathError ''must not contain control characters'')
      else if utf8_length txt > max_storage_path_bytes then Inl (StoragePathError ''is too long'')
      else if \<not> is_absolute txt then Inl (StoragePathError ''must be an absolute path'')
      else if ''..'' \<in> set (split_on (CHR ''/'') (map (\<lambda>c. if c = char_of (92 :: nat) then CHR ''/'' else c) txt))
      then Inl (StoragePathError ''must not contain ..'')
      else Inr ())"

definition ascii_digits :: "string \<Rightarrow> bool" where
  "ascii_digits s \<longleftrightarrow> s \<noteq> [] \<and> list_all is_digit s"

definition check_layout_collision :: "path \<Rightarrow> path \<Rightarrow> path_settings \<Rightarrow> int option \<Rightarrow> unit res" where
  "check_layout_collision rp frames cfg project_id =
     (let name = basename rp;
          numbered = butlast rp = frames \<and> ascii_digits name
      in if name = ps_output_subdir cfg then Inl (StoragePathError ''that directory holds rendered videos'')
         else if numbered \<and> (project_id = None \<or> py_int name \<noteq> project_id)
         then Inl (StoragePathError ''must not be a numbered directory of the frames root'')
         else Inr ())"

definition same_real_path :: "realpath_fn \<Rightarrow> path \<Rightarrow> string \<Rightarrow> bool" where
  "same_real_path realpath rp other \<longleftrightarrow> realpath (path_parts other) = Some rp"

definition validate_storage_path ::
  "realpath_fn \<Rightarrow> stat_fn \<Rightarrow> string option \<Rightarrow> path_settings \<Rightarrow> bool \<Rightarrow> int option \<Rightarrow> string list \<Rightarrow> path option res" where
  "validate_storage_path realpath stat_id raw cfg is_admin project_id other_storage_paths =
     (case raw of
        None \<Rightarrow> Inr None
      | Some raw_text \<Rightarrow>
          (let txt = py_strip raw_text in
           if txt = [] then Inr None
           else
            rbind (check_storage_path_text txt) (\<lambda>_.
            rbind (case realpath (path_parts txt) of
                     None \<Rightarrow> Inl (StoragePathError ''cannot be resolved'') | Some r \<Rightarrow> Inr r) (\<lambda>rp.
            rbind (py_real realpath (ps_frames_root cfg)) (\<lambda>frames.
            rbind (protected_dirs realpath stat_id cfg) (\<lambda>prot.
              let parent = butlast rp in
              if list_ex (\<lambda>d. is_within stat_id d rp) prot
              then Inl (StoragePathError ''must not contain the data or config directory'')
              else if is_within stat_id frames rp
              then Inl (StoragePathError ''must be a sub-directory of the frames root'')
              else if list_ex (\<lambda>candidate. overlaps_protected stat_id candidate prot frames \<noteq> None) [rp, parent]
              then Inl (StoragePathError ''must not be inside a protected directory'')
              else
               rbind (check_layout_collision rp frames cfg project_id) (\<lambda>_.
                 if list_ex (same_real_path realpath rp) other_storage_paths
                 then Inl (StoragePathError ''is already used by another project'')
                 else if is_admin then Inr (Some rp)
                 else
                  rbind (allowed_roots realpath cfg) (\<lambda>roots.
                    if \<not> list_ex (\<lambda>base. is_within stat_id rp base \<and> is_within stat_id parent base) roots
                    then Inl (StoragePathError ''must be inside an allowed storage root'')
                    else Inr (Some rp)))))))))"

section \<open>Containment, characterised\<close>

lemma identity_walk_iff: "identity_walk stat_id r p \<longleftrightarrow> (\<exists>k\<le>length p. stat_id (take k p) = Some r)"
proof (induction stat_id r p rule: identity_walk.induct)
  case (1 stat_id r p)
  show ?case
  proof (cases p rule: rev_cases)
    case Nil
    then show ?thesis by (simp add: identity_walk.simps)
  next
    case (snoc q x)
    have rec: "identity_walk stat_id r p \<longleftrightarrow> stat_id p = Some r \<or> identity_walk stat_id r q"
      unfolding snoc by (subst identity_walk.simps) (simp add: Let_def)
    have IH: "identity_walk stat_id r q \<longleftrightarrow> (\<exists>k\<le>length q. stat_id (take k q) = Some r)"
      if "stat_id p \<noteq> Some r" using 1 [OF that refl] snoc by simp
    have "(\<exists>k\<le>length p. stat_id (take k p) = Some r) \<longleftrightarrow> stat_id p = Some r \<or> (\<exists>k\<le>length q. stat_id (take k q) = Some r)"
      using snoc by (auto simp: le_Suc_eq)
    with rec IH show ?thesis by blast
  qed
qed

text \<open>A path is inside a directory when it or one of its ancestors is that directory, by name or by identity.\<close>

lemma is_within_iff:
  "is_within stat_id p r \<longleftrightarrow>
     (\<exists>k\<le>length p. take k p = r \<or> (stat_id r \<noteq> None \<and> stat_id (take k p) = stat_id r))"
proof -
  have "(p = r \<or> take (length r) p = r) \<longleftrightarrow> (\<exists>k\<le>length p. take k p = r)"
    by (metis append_take_drop_id length_append le_add1 length_take min.absorb2 order_refl take_all_iff)
  then show ?thesis by (auto simp: is_within_def identity_walk_iff split: option.splits)
qed

lemma is_within_refl [simp]: "is_within stat_id p p"
  by (simp add: is_within_def)

lemma is_within_append [simp]: "is_within stat_id (p @ q) p"
  by (simp add: is_within_def)

text \<open>With directories that have one name each, containment is being a prefix.\<close>

lemma is_within_names:
  assumes "\<And>a b. stat_id a \<noteq> None \<Longrightarrow> stat_id a = stat_id b \<Longrightarrow> a = b"
  shows "is_within stat_id p r \<longleftrightarrow> (\<exists>q. p = r @ q)"
proof
  assume "is_within stat_id p r"
  then obtain k where "take k p = r \<or> (stat_id r \<noteq> None \<and> stat_id (take k p) = stat_id r)"
    by (auto simp: is_within_iff)
  then have "take k p = r" using assms [of r "take k p"] by auto
  then show "\<exists>q. p = r @ q" using append_take_drop_id [of k p] by metis
qed auto

section \<open>Stored paths\<close>

definition component :: "string \<Rightarrow> bool" where
  "component c \<longleftrightarrow> c \<noteq> [] \<and> c \<noteq> ''.'' \<and> CHR ''/'' \<notin> set c"

lemma split_path_text:
  "list_all component p \<Longrightarrow> p \<noteq> [] \<Longrightarrow> split_on (CHR ''/'') (concat (map (\<lambda>c. CHR ''/'' # c) p)) = [] # p"
proof (induction p)
  case (Cons c p)
  then have c: "CHR ''/'' \<notin> set c" by (simp add: component_def)
  show ?case
  proof (cases p)
    case Nil
    then show ?thesis using c by (simp add: split_on_notin)
  next
    case (Cons d q)
    with Cons.IH Cons.prems have "split_on (CHR ''/'') (concat (map (\<lambda>c. CHR ''/'' # c) p)) = [] # p" by simp
    then have "split_on (CHR ''/'') (d @ concat (map (\<lambda>c. CHR ''/'' # c) q)) = p" using Cons by simp
    then show ?thesis using split_on_append [OF c, of "d @ concat (map (\<lambda>c. CHR ''/'' # c) q)"] Cons by simp
  qed
qed simp

lemma path_parts_text [simp]: "list_all component p \<Longrightarrow> path_parts (path_text p) = p"
  by (cases "p = []")
    (auto simp: path_parts_def path_text_def split_path_text component_def list_all_iff filter_id_conv)

lemma path_parts_component: "component c \<Longrightarrow> path_parts c = [c]"
  by (simp add: path_parts_def component_def split_on_notin)

lemma path_text_absolute [simp]: "is_absolute (path_text p)"
  by (cases p) (simp_all add: path_text_def is_absolute_def)

text \<open>A file the writer puts in a project's directory is read back where it was written.\<close>

lemma stored_roundtrip:
  assumes "component name" "list_all component (frame_dir cfg pr)"
  shows "resolve_absolute cfg (pr_id pr) (to_stored pr (frame_dir cfg pr @ [name])) = frame_dir cfg pr @ [name]"
proof (cases "has_storage_path pr")
  case True
  then have "to_stored pr (frame_dir cfg pr @ [name]) = path_text (frame_dir cfg pr @ [name])"
    by (simp add: to_stored_def uses_default_layout_def)
  then show ?thesis using assms by (simp add: resolve_absolute_def)
next
  case False
  have "\<not> is_absolute name" using assms(1) by (auto simp: component_def is_absolute_def) (metis hd_in_set)
  with False assms(1) show ?thesis
    by (simp add: to_stored_def uses_default_layout_def basename_def resolve_absolute_def path_parts_component
      frame_dir_def frame_dir_under_root_def)
qed

text \<open>
  A path that resolves to itself and lies in the project's directory passes the containment
  check; one that passes lies, by name or by identity, in the directory of the project.
\<close>

lemma contained_own_file:
  assumes "component name" "list_all component (frame_dir cfg pr)"
    and "realpath (frame_dir cfg pr @ [name]) = Some (d @ [name])" "realpath (frame_dir cfg pr) = Some d"
    and "realpath (ps_frames_root cfg @ [show_int (pr_id pr)]) = Some d'"
  shows "resolve_contained_frame_path realpath stat_id cfg pr (to_stored pr (frame_dir cfg pr @ [name])) None = Inr (d @ [name])"
  using assms by (simp add: resolve_contained_frame_path_def frame_boundaries_def py_real_def stored_roundtrip)

lemma contained_within:
  assumes "resolve_contained_frame_path realpath stat_id cfg pr stored None = Inr p"
  obtains b where "realpath (resolve_absolute cfg (pr_id pr) stored) = Some p"
    "Some b \<in> {realpath (frame_dir cfg pr), realpath (ps_frames_root cfg @ [show_int (pr_id pr)])}" "is_within stat_id p b"
  using assms
  by (auto simp: resolve_contained_frame_path_def frame_boundaries_def py_real_def split: option.splits if_splits)

section \<open>What the policy guarantees\<close>

text \<open>
  An accepted path holds no protected directory and is in none of them, with the frames tree
  carved out; the same for the directory above it, where renders go.
\<close>

lemma validated_path:
  assumes "validate_storage_path realpath stat_id raw cfg admin pid others = Inr (Some rp)"
  obtains frames prot where "realpath (ps_frames_root cfg) = Some frames" "protected_dirs realpath stat_id cfg = Inr prot"
    "\<And>d. d \<in> set prot \<Longrightarrow> \<not> is_within stat_id d rp" "\<not> is_within stat_id frames rp"
    "\<And>d. d \<in> set prot \<Longrightarrow> is_within stat_id rp d \<Longrightarrow> is_within stat_id frames d \<and> is_within stat_id rp frames"
    "\<And>d. d \<in> set prot \<Longrightarrow> is_within stat_id (butlast rp) d \<Longrightarrow> is_within stat_id frames d \<and> is_within stat_id (butlast rp) frames"
    "check_layout_collision rp frames cfg pid = Inr ()" "\<And>t. t \<in> set others \<Longrightarrow> \<not> same_real_path realpath rp t"
    "\<not> admin \<Longrightarrow> \<exists>roots r. allowed_roots realpath cfg = Inr roots \<and> r \<in> set roots \<and>
       is_within stat_id rp r \<and> is_within stat_id (butlast rp) r"
proof -
  from assms obtain frames prot where fr: "realpath (ps_frames_root cfg) = Some frames" "protected_dirs realpath stat_id cfg = Inr prot"
    and tests: "\<not> list_ex (\<lambda>d. is_within stat_id d rp) prot" "\<not> is_within stat_id frames rp"
      "overlaps_protected stat_id rp prot frames = None" "overlaps_protected stat_id (butlast rp) prot frames = None"
      "check_layout_collision rp frames cfg pid = Inr ()" "\<not> list_ex (same_real_path realpath rp) others"
    and adm: "\<not> admin \<Longrightarrow> \<exists>roots. allowed_roots realpath cfg = Inr roots \<and>
       list_ex (\<lambda>r. is_within stat_id rp r \<and> is_within stat_id (butlast rp) r) roots"
    by (auto simp: validate_storage_path_def py_real_def Let_def split: option.splits if_splits)
  have ov: "is_within stat_id frames d \<and> is_within stat_id c frames"
    if "overlaps_protected stat_id c prot frames = None" "d \<in> set prot" "is_within stat_id c d" for c d
    using that by (auto simp: overlaps_protected_def find_None_iff)
  show ?thesis using adm tests by (intro that [OF fr]) (auto simp: list_ex_iff dest: ov)
qed

text \<open>
  The check against the other projects compares names: on a file system that ignores case the
  same directory is accepted for two projects.
\<close>

lemma case_variant_accepted:
  "validate_storage_path Some
      (\<lambda>p. if p = [''mnt'', ''Cam''] \<or> p = [''mnt'', ''cam''] then Some (1, 7) else None) (Some ''/mnt/Cam'')
      \<lparr>ps_frames_root = [''data'', ''frames''], ps_data_dir = [''data''], ps_files = [], ps_allowed_roots = None,
       ps_output_subdir = ''renders''\<rparr> True (Some 2) [''/mnt/cam''] = Inr (Some [''mnt'', ''Cam''])"
  by code_simp

end
