(* ===== verification/Disk_Monitor.thy ===== *)
theory Disk_Monitor
  imports Storage_Paths
begin

text \<open>
  The free-space gate of the capture loop (\<open>storage/monitor.py\<close>): the throttled probe, the
  hysteresis latch and its key.  Which paths exist and what
  the probes read are arguments.  Times are in microseconds, percentages exact.
\<close>

section \<open>The gate\<close>

record volume_state =
  vs_last_checked_at :: int
  vs_free_bytes :: int
  vs_total_bytes :: int
  vs_paused :: bool

record disk_monitor =
  dm_low_bytes :: int
  dm_low_percent :: rat
  dm_resume_bytes :: int
  dm_resume_percent :: rat
  dm_check_interval :: rat
  dm_volumes :: "(path \<times> volume_state) list"

definition new_monitor :: "int \<Rightarrow> rat \<Rightarrow> int \<Rightarrow> rat \<Rightarrow> rat \<Rightarrow> disk_monitor res" where
  "new_monitor low_bytes low_percent resume_bytes resume_percent check_interval =
     (if resume_bytes < low_bytes then Inl (ValueError ''resume_watermark_bytes'' ''must be >= low_watermark_bytes'')
      else if resume_percent < low_percent
      then Inl (ValueError ''resume_watermark_percent'' ''must be >= low_watermark_percent'')
      else Inr \<lparr>dm_low_bytes = low_bytes, dm_low_percent = low_percent, dm_resume_bytes = resume_bytes,
                dm_resume_percent = resume_percent, dm_check_interval = check_interval, dm_volumes = []\<rparr>)"

text \<open>The parent of the root is the root.\<close>

function nearest_existing :: "(path \<Rightarrow> bool) \<Rightarrow> path \<Rightarrow> path" where
  "nearest_existing exists_path current =
     (if \<not> exists_path current
      then (let parent = butlast current in if parent = current then current else nearest_existing exists_path parent)
      else current)"
  by pat_completeness auto
termination
proof (relation "measure (\<lambda>(e, p). length p)", goal_cases)
  case (2 e current parent)
  then show ?case by (cases current rule: rev_cases) auto
qed simp

declare nearest_existing.simps [simp del]

definition is_stale :: "disk_monitor \<Rightarrow> volume_state \<Rightarrow> int \<Rightarrow> bool" where
  "is_stale m st now \<longleftrightarrow> of_int (now - vs_last_checked_at st) / 1000000 \<ge> dm_check_interval m"

definition free_percent :: "int \<Rightarrow> int \<Rightarrow> rat" where
  "free_percent free tot = (if tot > 0 then of_int free / of_int tot * 100 else 0)"

definition decide :: "disk_monitor \<Rightarrow> int \<Rightarrow> int \<Rightarrow> bool \<Rightarrow> bool" where
  "decide m free tot prior_paused =
     (if prior_paused then \<not> (free > dm_resume_bytes m \<and> free_percent free tot > dm_resume_percent m)
      else free < dm_low_bytes m \<or> free_percent free tot < dm_low_percent m)"

definition is_capture_allowed ::
  "(path \<Rightarrow> bool) \<Rightarrow> (path \<Rightarrow> int) \<Rightarrow> (path \<Rightarrow> int) \<Rightarrow> path \<Rightarrow> int \<Rightarrow> disk_monitor \<Rightarrow> bool \<times> disk_monitor" where
  "is_capture_allowed exists_path get_free get_total path moment m =
     (let key = nearest_existing exists_path path;
          st = map_of (dm_volumes m) key
      in case st of
           Some v \<Rightarrow>
             (if \<not> is_stale m v moment then (\<not> vs_paused v, m)
              else
               (let free = get_free key; tot = get_total key; paused = decide m free tot (vs_paused v)
                in (\<not> paused, m\<lparr>dm_volumes := dict_set (dm_volumes m) key
                     \<lparr>vs_last_checked_at = moment, vs_free_bytes = free, vs_total_bytes = tot, vs_paused = paused\<rparr>\<rparr>)))
         | None \<Rightarrow>
             (let free = get_free key; tot = get_total key; paused = decide m free tot False
              in (\<not> paused, m\<lparr>dm_volumes := dict_set (dm_volumes m) key
                   \<lparr>vs_last_checked_at = moment, vs_free_bytes = free, vs_total_bytes = tot, vs_paused = paused\<rparr>\<rparr>)))"

definition pause_state :: "(path \<Rightarrow> bool) \<Rightarrow> path \<Rightarrow> disk_monitor \<Rightarrow> bool" where
  "pause_state exists_path path m =
     (case map_of (dm_volumes m) (nearest_existing exists_path path) of Some v \<Rightarrow> vs_paused v | None \<Rightarrow> False)"

text \<open>The walk ends at an existing path, or at the root.\<close>

lemma nearest_existing_found:
  "exists_path (nearest_existing exists_path p) \<or> nearest_existing exists_path p = []"
proof (induction exists_path p rule: nearest_existing.induct)
  case (1 exists_path current)
  show ?case
  proof (cases "exists_path current")
    case True
    then show ?thesis by (simp add: nearest_existing.simps)
  next
    case False
    then show ?thesis using 1 by (cases current rule: rev_cases) (simp_all add: nearest_existing.simps Let_def)
  qed
qed

section \<open>The specification\<close>

text \<open>
  A history of readings pauses the volume when one of them was below a low floor and none since
  was above both resume floors.
\<close>

definition below_low :: "disk_monitor \<Rightarrow> int \<times> int \<Rightarrow> bool" where
  "below_low m r \<longleftrightarrow> fst r < dm_low_bytes m \<or> free_percent (fst r) (snd r) < dm_low_percent m"

definition recovered :: "disk_monitor \<Rightarrow> int \<times> int \<Rightarrow> bool" where
  "recovered m r \<longleftrightarrow> fst r > dm_resume_bytes m \<and> free_percent (fst r) (snd r) > dm_resume_percent m"

definition paused_spec :: "disk_monitor \<Rightarrow> (int \<times> int) list \<Rightarrow> bool" where
  "paused_spec m rs \<longleftrightarrow>
     (\<exists>i<length rs. below_low m (rs ! i) \<and> (\<forall>j. i < j \<and> j < length rs \<longrightarrow> \<not> recovered m (rs ! j)))"

text \<open>The readings a sequence of calls takes: the first, and each that is an interval after the last taken.\<close>

fun readings_taken :: "rat \<Rightarrow> int option \<Rightarrow> (int \<times> int \<times> int) list \<Rightarrow> (int \<times> int) list" where
  "readings_taken interval prev [] = []"
| "readings_taken interval prev ((t, free, tot) # calls) =
     (if (case prev of None \<Rightarrow> True | Some p \<Rightarrow> of_int (t - p) / 1000000 \<ge> interval)
      then (free, tot) # readings_taken interval (Some t) calls else readings_taken interval prev calls)"

text \<open>A sequence of calls for one path: time, free and total bytes at each.\<close>

fun gate_run :: "(path \<Rightarrow> bool) \<Rightarrow> path \<Rightarrow> (int \<times> int \<times> int) list \<Rightarrow> disk_monitor \<Rightarrow> bool list \<times> disk_monitor" where
  "gate_run exists_path path [] m = ([], m)"
| "gate_run exists_path path ((t, free, tot) # calls) m =
     (let (allowed, m1) = is_capture_allowed exists_path (\<lambda>_. free) (\<lambda>_. tot) path t m;
          (answers, m2) = gate_run exists_path path calls m1
      in (allowed # answers, m2))"

section \<open>Refinement\<close>

definition wf_monitor :: "disk_monitor \<Rightarrow> bool" where
  "wf_monitor m \<longleftrightarrow> dm_low_bytes m \<le> dm_resume_bytes m \<and> dm_low_percent m \<le> dm_resume_percent m"

lemma paused_spec_snoc:
  assumes "wf_monitor m"
  shows "paused_spec m (rs @ [r]) = (if paused_spec m rs then \<not> recovered m r else below_low m r)"
proof -
  have excl: "\<not> (recovered m r \<and> below_low m r)" using assms by (auto simp: wf_monitor_def recovered_def below_low_def)
  have "paused_spec m (rs @ [r]) \<longleftrightarrow> below_low m r \<or> (paused_spec m rs \<and> \<not> recovered m r)"
  proof
    assume "paused_spec m (rs @ [r])"
    then obtain i where i: "i < Suc (length rs)" "below_low m ((rs @ [r]) ! i)"
      "\<And>j. i < j \<Longrightarrow> j < Suc (length rs) \<Longrightarrow> \<not> recovered m ((rs @ [r]) ! j)" by (auto simp: paused_spec_def)
    show "below_low m r \<or> (paused_spec m rs \<and> \<not> recovered m r)"
    proof (cases "i = length rs")
      case True
      then show ?thesis using i(2) by simp
    next
      case False
      then have "i < length rs" using i(1) by simp
      moreover have "\<not> recovered m (rs ! j)" if "i < j" "j < length rs" for j
        using i(3) [OF that(1)] that(2) by (simp add: nth_append)
      ultimately have "paused_spec m rs" using i(2) by (auto simp: paused_spec_def nth_append)
      moreover have "\<not> recovered m r" using i(3) [of "length rs"] \<open>i < length rs\<close> by simp
      ultimately show ?thesis by blast
    qed
  next
    assume "below_low m r \<or> (paused_spec m rs \<and> \<not> recovered m r)"
    then show "paused_spec m (rs @ [r])"
    proof
      assume "below_low m r"
      then show ?thesis by (auto simp: paused_spec_def intro!: exI [of _ "length rs"])
    next
      assume a: "paused_spec m rs \<and> \<not> recovered m r"
      then obtain i where "i < length rs" "below_low m (rs ! i)" "\<forall>j. i < j \<and> j < length rs \<longrightarrow> \<not> recovered m (rs ! j)"
        by (auto simp: paused_spec_def)
      with a show ?thesis by (auto simp: paused_spec_def nth_append less_Suc_eq intro!: exI [of _ i])
    qed
  qed
  with excl show ?thesis by auto
qed

lemma decide_spec: "wf_monitor m \<Longrightarrow> decide m free tot (paused_spec m rs) = paused_spec m (rs @ [(free, tot)])"
  by (simp add: paused_spec_snoc decide_def recovered_def below_low_def)

text \<open>The cached state of a key stands for the readings taken so far and the time of the last.\<close>

definition stands_for :: "disk_monitor \<Rightarrow> path \<Rightarrow> int option \<Rightarrow> (int \<times> int) list \<Rightarrow> bool" where
  "stands_for m key prev rs \<longleftrightarrow>
     (case map_of (dm_volumes m) key of
        None \<Rightarrow> prev = None \<and> rs = []
      | Some v \<Rightarrow> prev = Some (vs_last_checked_at v) \<and> vs_paused v = paused_spec m rs)"

lemma paused_spec_volumes [simp]: "paused_spec (m\<lparr>dm_volumes := v\<rparr>) rs = paused_spec m rs"
  by (simp add: paused_spec_def below_low_def recovered_def)

lemma is_capture_allowed_refines:
  assumes wf: "wf_monitor m" and st: "stands_for m (nearest_existing e p) prev rs"
    and run: "is_capture_allowed e (\<lambda>_. free) (\<lambda>_. tot) p t m = (allowed, m')"
    and tk: "taken = (case prev of None \<Rightarrow> True | Some q \<Rightarrow> of_int (t - q) / 1000000 \<ge> dm_check_interval m)"
  shows "stands_for m' (nearest_existing e p) (if taken then Some t else prev) (if taken then rs @ [(free, tot)] else rs)"
    and "allowed = (\<not> paused_spec m (if taken then rs @ [(free, tot)] else rs))"
    and "wf_monitor m'" "dm_check_interval m' = dm_check_interval m" "paused_spec m' = paused_spec m"
proof -
  have none: "decide m free tot False = paused_spec m [(free, tot)]"
    using decide_spec [OF wf, of free tot "[]"] by (simp add: paused_spec_def)
  note d = decide_spec [OF wf, of free tot rs]
  show "stands_for m' (nearest_existing e p) (if taken then Some t else prev) (if taken then rs @ [(free, tot)] else rs)"
    using st run tk none d
    by (auto simp: stands_for_def is_capture_allowed_def Let_def is_stale_def split: option.splits if_splits)
  show "allowed = (\<not> paused_spec m (if taken then rs @ [(free, tot)] else rs))"
    using st run tk none d
    by (auto simp: stands_for_def is_capture_allowed_def Let_def is_stale_def split: option.splits if_splits)
  have "\<exists>v. m' = m\<lparr>dm_volumes := v\<rparr>"
    using run by (auto simp: is_capture_allowed_def Let_def split: option.splits if_splits) (metis disk_monitor.surjective disk_monitor.update_convs(6))+
  then show "wf_monitor m'" "dm_check_interval m' = dm_check_interval m" "paused_spec m' = paused_spec m"
    using wf by (auto simp: wf_monitor_def fun_eq_iff)
qed

lemma gate_run_refines:
  assumes "wf_monitor m" "stands_for m (nearest_existing e p) prev rs" "gate_run e p calls m = (answers, m')"
  shows "pause_state e p m' = paused_spec m (rs @ readings_taken (dm_check_interval m) prev calls) \<and>
    length answers = length calls \<and>
    (\<forall>k<length calls. answers ! k = (\<not> paused_spec m (rs @ readings_taken (dm_check_interval m) prev (take (Suc k) calls))))"
  using assms
proof (induction calls arbitrary: m prev rs answers)
  case Nil
  then show ?case by (auto simp: pause_state_def stands_for_def paused_spec_def split: option.splits)
next
  case (Cons c calls)
  obtain t free tot where c: "c = (t, free, tot)" by (cases c)
  define taken where "taken = (case prev of None \<Rightarrow> True | Some q \<Rightarrow> of_int (t - q) / 1000000 \<ge> dm_check_interval m)"
  obtain allowed m1 where r1: "is_capture_allowed e (\<lambda>_. free) (\<lambda>_. tot) p t m = (allowed, m1)"
    by (cases "is_capture_allowed e (\<lambda>_. free) (\<lambda>_. tot) p t m")
  obtain as where r2: "gate_run e p calls m1 = (as, m')" and answers: "answers = allowed # as"
    using Cons.prems(3) by (auto simp: c r1 split: prod.splits)
  note st = is_capture_allowed_refines [OF Cons.prems(1,2) r1 taken_def]
  note IH = Cons.IH [OF st(3,1) r2, unfolded st(4,5)]
  have rt: "(if taken then rs @ [(free, tot)] else rs) @ readings_taken (dm_check_interval m) (if taken then Some t else prev) xs =
      rs @ readings_taken (dm_check_interval m) prev (c # xs)" for xs
    by (simp add: c taken_def)
  have "answers ! k = (\<not> paused_spec m (rs @ readings_taken (dm_check_interval m) prev (take (Suc k) (c # calls))))"
    if "k < length (c # calls)" for k
  proof (cases k)
    case 0
    then show ?thesis using st(2) rt [of "[]"] by (simp add: answers)
  next
    case (Suc i)
    then show ?thesis using IH that rt [of "take (Suc i) calls"] by (simp add: answers)
  qed
  then show ?case using IH rt [of calls] by (simp add: answers)
qed


definition sample_monitor :: disk_monitor where
  "sample_monitor = \<lparr>dm_low_bytes = 10, dm_low_percent = 5, dm_resume_bytes = 20, dm_resume_percent = 10,
     dm_check_interval = 1, dm_volumes = []\<rparr>"


text \<open>
  The key of a volume is not stable: once the leaf directory exists, the latch kept under its
  parent is forgotten, so a paused volume is opened again at a reading inside the band.
\<close>

lemma created_leaf_forgets_latch:
  fixes m :: disk_monitor
  assumes "is_capture_allowed (\<lambda>p. p = [''data'']) (\<lambda>_. 8) (\<lambda>_. 100) [''data'', ''p1''] 0 sample_monitor = (a, m)"
  shows "\<not> a" "fst (is_capture_allowed (\<lambda>p. True) (\<lambda>_. 15) (\<lambda>_. 100) [''data'', ''p1''] 2000000 m)"
    "\<not> fst (is_capture_allowed (\<lambda>p. p = [''data'']) (\<lambda>_. 15) (\<lambda>_. 100) [''data'', ''p1''] 2000000 m)"
  using assms by (auto simp: is_capture_allowed_def nearest_existing.simps sample_monitor_def decide_def free_percent_def is_stale_def)

end
