(* ===== verification/Frame_Store.thy ===== *)
theory Frame_Store
  imports Event_Log Zone_Time Storage_Paths
begin

text \<open>
  The frame table and the operations on a frame's life (\<open>storage/frames.py\<close>), and the writer
  that puts a captured image on disk and then records it (\<open>capture/frame_writer.py\<close>).

  A table is the list of its rows in id order.  A session is the state its transaction sees
  together with the marks its commit hooks read.  The disk is the list of the files on it.
  Timestamps are naive UTC microseconds.
\<close>

section \<open>Rows\<close>

datatype frame_capture_status = CS_Pending | CS_Captured | CS_Failed

datatype frame_origin = O_Captured | O_Uploaded

datatype frame_lifecycle_state = L_Active | L_Soft_Deleted

record frame =
  fr_id :: int
  fr_project_id :: int
  fr_sequence_index :: int
  fr_capture_timestamp :: "int option"
  fr_file_path :: "string option"
  fr_width :: "int option"
  fr_height :: "int option"
  fr_file_size_bytes :: "int option"
  fr_capture_status :: frame_capture_status
  fr_origin :: frame_origin
  fr_lifecycle_state :: frame_lifecycle_state
  fr_excluded_at :: "int option"
  fr_capture_timestamp_inferred :: bool
  fr_stream_id :: "string option"
  fr_capture_reason :: "string option"
  fr_scene_metadata :: pyval

record frame_project =
  fp_id :: int
  fp_storage_path :: "string option"
  fp_frame_count :: int
  fp_max_frame_count :: "int option"

text \<open>\<open>fd_last_id\<close> is the counter of \<open>AUTOINCREMENT\<close>; \<open>fd_sentinel\<close> says whether the system user is there.\<close>

record frame_db =
  fd_frames :: "frame list"
  fd_projects :: "frame_project list"
  fd_events :: "event list"
  fd_last_id :: int
  fd_sentinel :: bool

record fsession =
  fs_db :: frame_db
  fs_dims_dirty :: "int list"
  fs_order_dirty :: "(int \<times> int list option) list"

definition to_naive_utc :: "pydt \<Rightarrow> int" where
  "to_naive_utc d = (case d of Naive t \<Rightarrow> t | Aware t \<Rightarrow> t)"

definition datetime_min :: int where "datetime_min = - 719162 * day_us"

definition datetime_max :: int where "datetime_max = 2932897 * day_us - 1"

text \<open>\<open>datetime + timedelta\<close> and \<open>datetime.isoformat()\<close> of a naive datetime.\<close>

definition datetime_add :: "int \<Rightarrow> int \<Rightarrow> int res" where
  "datetime_add t d = (if t + d < datetime_min \<or> datetime_max < t + d then Inl OverflowError else Inr (t + d))"

definition datetime_isoformat :: "int \<Rightarrow> string" where
  "datetime_isoformat t =
     (let tod = tod_of t; us = tod mod second_us
      in date_isoformat (day_of t) @ ''T'' @ pad_nat 2 (nat (tod div hour_us)) @ '':'' @
         pad_nat 2 (nat (tod mod hour_us div minute_us)) @ '':'' @ pad_nat 2 (nat (tod mod minute_us div second_us)) @
         (if us = 0 then [] else ''.'' @ pad_nat 6 (nat us)))"

section \<open>Reading and writing rows\<close>

definition get_frame :: "frame_db \<Rightarrow> int \<Rightarrow> frame res" where
  "get_frame db frame_id =
     (case List.find (\<lambda>f. fr_id f = frame_id) (fd_frames db) of
        None \<Rightarrow> Inl (FrameNotFoundError frame_id) | Some f \<Rightarrow> Inr f)"

definition find_project :: "frame_db \<Rightarrow> int \<Rightarrow> frame_project option" where
  "find_project db project_id = List.find (\<lambda>p. fp_id p = project_id) (fd_projects db)"

definition change_frame :: "int \<Rightarrow> (frame \<Rightarrow> frame) \<Rightarrow> frame_db \<Rightarrow> frame_db" where
  "change_frame frame_id u db = db\<lparr>fd_frames := map (\<lambda>f. if fr_id f = frame_id then u f else f) (fd_frames db)\<rparr>"

definition change_project :: "int \<Rightarrow> (frame_project \<Rightarrow> frame_project) \<Rightarrow> frame_db \<Rightarrow> frame_db" where
  "change_project project_id u db =
     db\<lparr>fd_projects := map (\<lambda>p. if fp_id p = project_id then u p else p) (fd_projects db)\<rparr>"

text \<open>The event a row of which \<open>Event\<close> builds; its id is given when it is inserted.\<close>

definition project_event :: "int \<Rightarrow> int \<Rightarrow> string \<Rightarrow> string \<Rightarrow> (string \<times> pyval) list \<Rightarrow> int \<Rightarrow> event" where
  "project_event now project_id level message metadata actor_user_id =
     \<lparr>ev_id = 0, ev_scope = ''project'', ev_scope_id = Some project_id, ev_level = level, ev_timestamp = now,
      ev_message = message, ev_actor_user_id = Some actor_user_id, ev_metadata = VDict metadata,
      ev_cleared_at = None, ev_cleared_by = None, ev_clear_reason = None\<rparr>"

definition add_event :: "event \<Rightarrow> frame_db \<Rightarrow> frame_db" where
  "add_event e db = db\<lparr>fd_events := fd_events db @ [e\<lparr>ev_id := newest_id (fd_events db) + 1\<rparr>]\<rparr>"

definition ensure_sentinel_admin :: "frame_db \<Rightarrow> frame_db" where
  "ensure_sentinel_admin db = db\<lparr>fd_sentinel := True\<rparr>"

definition record_event ::
  "int \<Rightarrow> int \<Rightarrow> string \<Rightarrow> string \<Rightarrow> (string \<times> pyval) list \<Rightarrow> int \<Rightarrow> fsession \<Rightarrow> fsession" where
  "record_event now project_id level message metadata actor_user_id s =
     s\<lparr>fs_db := add_event (project_event now project_id level message metadata actor_user_id)
        (ensure_sentinel_admin (fs_db s))\<rparr>"

definition mark_dimensions_dirty :: "int \<Rightarrow> fsession \<Rightarrow> fsession" where
  "mark_dimensions_dirty project_id s = s\<lparr>fs_dims_dirty := List.insert project_id (fs_dims_dirty s)\<rparr>"

definition mark_order_dirty :: "int \<Rightarrow> int option \<Rightarrow> fsession \<Rightarrow> fsession" where
  "mark_order_dirty project_id frame_id s =
     (let dirty = fs_order_dirty s
      in case frame_id of
           None \<Rightarrow> s\<lparr>fs_order_dirty := dict_set dirty project_id None\<rparr>
         | Some i \<Rightarrow>
             (case map_of dirty project_id of
                None \<Rightarrow> s\<lparr>fs_order_dirty := dict_set dirty project_id (Some [i])\<rparr>
              | Some None \<Rightarrow> s
              | Some (Some moved) \<Rightarrow> s\<lparr>fs_order_dirty := dict_set dirty project_id (Some (List.insert i moved))\<rparr>))"

definition on_db :: "(frame_db \<Rightarrow> frame_db) \<Rightarrow> fsession \<Rightarrow> fsession" where
  "on_db u s = s\<lparr>fs_db := u (fs_db s)\<rparr>"

definition action_metadata :: "int \<Rightarrow> string \<Rightarrow> (string \<times> pyval) list" where
  "action_metadata frame_id action = [(''frame_id'', VInt frame_id), (''action'', VStr action)]"

definition frame_message :: "int \<Rightarrow> string \<Rightarrow> string" where
  "frame_message frame_id what = ''frame '' @ show_int frame_id @ '' '' @ what"

section \<open>Single-frame operations\<close>

definition soft_delete :: "int \<Rightarrow> int \<Rightarrow> int \<Rightarrow> fsession \<Rightarrow> fsession res" where
  "soft_delete now frame_id actor s =
     rbind (get_frame (fs_db s) frame_id) (\<lambda>f.
       Inr (record_event now (fr_project_id f) ''info'' (frame_message frame_id ''soft-deleted'')
         (action_metadata frame_id ''soft_delete'') actor
         (mark_dimensions_dirty (fr_project_id f)
           (on_db (change_frame frame_id (\<lambda>r. r\<lparr>fr_lifecycle_state := L_Soft_Deleted\<rparr>)) s))))"

definition restore :: "int \<Rightarrow> int \<Rightarrow> int \<Rightarrow> fsession \<Rightarrow> fsession res" where
  "restore now frame_id actor s =
     rbind (get_frame (fs_db s) frame_id) (\<lambda>f.
       Inr (record_event now (fr_project_id f) ''info'' (frame_message frame_id ''restored'')
         (action_metadata frame_id ''restore'') actor
         (mark_dimensions_dirty (fr_project_id f)
           (on_db (change_frame frame_id (\<lambda>r. r\<lparr>fr_lifecycle_state := L_Active\<rparr>)) s))))"

definition exclude :: "int \<Rightarrow> int \<Rightarrow> int \<Rightarrow> fsession \<Rightarrow> fsession res" where
  "exclude now frame_id actor s =
     rbind (get_frame (fs_db s) frame_id) (\<lambda>f.
       Inr (record_event now (fr_project_id f) ''info'' (frame_message frame_id ''excluded from render'')
         (action_metadata frame_id ''exclude'') actor
         (on_db (change_frame frame_id (\<lambda>r. r\<lparr>fr_excluded_at := Some now\<rparr>)) s)))"

definition include_frame :: "int \<Rightarrow> int \<Rightarrow> int \<Rightarrow> fsession \<Rightarrow> fsession res" where
  "include_frame now frame_id actor s =
     rbind (get_frame (fs_db s) frame_id) (\<lambda>f.
       Inr (record_event now (fr_project_id f) ''info'' (frame_message frame_id ''included in render'')
         (action_metadata frame_id ''include'') actor
         (on_db (change_frame frame_id (\<lambda>r. r\<lparr>fr_excluded_at := None\<rparr>)) s)))"

definition edit_capture_timestamp :: "int \<Rightarrow> int \<Rightarrow> pydt \<Rightarrow> int \<Rightarrow> fsession \<Rightarrow> fsession res" where
  "edit_capture_timestamp now frame_id new_timestamp actor s =
     rbind (get_frame (fs_db s) frame_id) (\<lambda>f.
       let previous = (case fr_capture_timestamp f of None \<Rightarrow> VNone | Some t \<Rightarrow> VStr (datetime_isoformat t));
           t' = to_naive_utc new_timestamp
       in Inr (record_event now (fr_project_id f) ''info'' (frame_message frame_id ''capture timestamp edited'')
            (action_metadata frame_id ''edit_capture_timestamp'' @
              [(''previous'', previous), (''new'', VStr (datetime_isoformat t'))]) actor
            (mark_order_dirty (fr_project_id f) (Some frame_id)
              (on_db (change_frame frame_id (\<lambda>r. r\<lparr>fr_capture_timestamp := Some t'\<rparr>)) s))))"

section \<open>Bulk operations\<close>

record bulk_result =
  bk_succeeded :: "int list"
  bk_failed :: "int list"

record offset_result =
  of_shifted :: "int list"
  of_skipped_null :: "int list"
  of_failed :: "int list"

definition load_chunk :: nat where "load_chunk = 500"

function chunks_of :: "nat \<Rightarrow> 'a list \<Rightarrow> 'a list list" where
  "chunks_of n xs = (if xs = [] \<or> n = 0 then [] else take n xs # chunks_of n (drop n xs))"
  by pat_completeness auto
termination by (relation "measure (\<lambda>(n, xs). length xs)") auto

declare chunks_of.simps [simp del]

definition load_frames_by_id :: "frame_db \<Rightarrow> int list \<Rightarrow> (int \<times> frame) list" where
  "load_frames_by_id db frame_ids =
     concat (map (\<lambda>chunk. map (\<lambda>f. (fr_id f, f)) (filter (\<lambda>f. fr_id f \<in> set chunk) (fd_frames db)))
       (chunks_of load_chunk (unique_first frame_ids)))"

fun distinct_projects_loop :: "frame_db \<Rightarrow> nat \<Rightarrow> int list list \<Rightarrow> int list \<Rightarrow> int list" where
  "distinct_projects_loop db limit [] projects = projects"
| "distinct_projects_loop db limit (chunk # rest) projects =
     (let projects' = remdups (projects @ map fr_project_id (filter (\<lambda>f. fr_id f \<in> set chunk) (fd_frames db)))
      in if length projects' \<ge> limit then projects' else distinct_projects_loop db limit rest projects')"

definition distinct_project_ids :: "frame_db \<Rightarrow> int list \<Rightarrow> nat \<Rightarrow> int list" where
  "distinct_project_ids db frame_ids limit =
     sort (distinct_projects_loop db limit (chunks_of load_chunk (unique_first frame_ids)) [])"

text \<open>The events of a batch are added together, after the loop.\<close>

definition add_events :: "event list \<Rightarrow> fsession \<Rightarrow> fsession" where
  "add_events es s = on_db (fold add_event es) s"

fun apply_loop ::
  "int \<Rightarrow> (int \<times> frame) list \<Rightarrow> int \<Rightarrow> (frame \<Rightarrow> frame) \<Rightarrow> string \<Rightarrow> string \<Rightarrow> bool \<Rightarrow> int list \<Rightarrow>
   fsession \<Rightarrow> event list \<Rightarrow> bulk_result \<Rightarrow> fsession \<times> event list \<times> bulk_result" where
  "apply_loop now frames actor mutate what action changes_active_set [] s events result = (s, events, result)"
| "apply_loop now frames actor mutate what action changes_active_set (frame_id # ids) s events result =
     (case map_of frames frame_id of
        None \<Rightarrow>
          apply_loop now frames actor mutate what action changes_active_set ids s events
            (result\<lparr>bk_failed := bk_failed result @ [frame_id]\<rparr>)
      | Some f \<Rightarrow>
          (let s1 = on_db (change_frame frame_id mutate) s;
               s2 = (if changes_active_set then mark_dimensions_dirty (fr_project_id f) s1 else s1)
           in apply_loop now frames actor mutate what action changes_active_set ids s2
                (events @ [project_event now (fr_project_id f) ''info'' (frame_message frame_id what)
                   (action_metadata frame_id action) actor])
                (result\<lparr>bk_succeeded := bk_succeeded result @ [frame_id]\<rparr>)))"

definition apply_many ::
  "int \<Rightarrow> int list \<Rightarrow> int \<Rightarrow> (frame \<Rightarrow> frame) \<Rightarrow> string \<Rightarrow> string \<Rightarrow> bool \<Rightarrow> fsession \<Rightarrow> bulk_result \<times> fsession" where
  "apply_many now frame_ids actor mutate what action changes_active_set s =
     (let frames = load_frames_by_id (fs_db s) frame_ids;
          s0 = (if frames \<noteq> [] then on_db ensure_sentinel_admin s else s);
          (s1, events, result) = apply_loop now frames actor mutate what action changes_active_set frame_ids s0 []
            \<lparr>bk_succeeded = [], bk_failed = []\<rparr>
      in (result, add_events events s1))"

definition soft_delete_many :: "int \<Rightarrow> int list \<Rightarrow> int \<Rightarrow> fsession \<Rightarrow> bulk_result \<times> fsession" where
  "soft_delete_many now frame_ids actor s =
     apply_many now frame_ids actor (\<lambda>r. r\<lparr>fr_lifecycle_state := L_Soft_Deleted\<rparr>) ''soft-deleted'' ''soft_delete'' True s"

definition restore_many :: "int \<Rightarrow> int list \<Rightarrow> int \<Rightarrow> fsession \<Rightarrow> bulk_result \<times> fsession" where
  "restore_many now frame_ids actor s =
     apply_many now frame_ids actor (\<lambda>r. r\<lparr>fr_lifecycle_state := L_Active\<rparr>) ''restored'' ''restore'' True s"

definition exclude_many :: "int \<Rightarrow> int list \<Rightarrow> int \<Rightarrow> fsession \<Rightarrow> bulk_result \<times> fsession" where
  "exclude_many now frame_ids actor s =
     apply_many now frame_ids actor (\<lambda>r. r\<lparr>fr_excluded_at := Some now\<rparr>) ''excluded from render'' ''exclude'' False s"

definition include_many :: "int \<Rightarrow> int list \<Rightarrow> int \<Rightarrow> fsession \<Rightarrow> bulk_result \<times> fsession" where
  "include_many now frame_ids actor s =
     apply_many now frame_ids actor (\<lambda>r. r\<lparr>fr_excluded_at := None\<rparr>) ''included in render'' ''include'' False s"

fun offset_loop ::
  "int \<Rightarrow> (int \<times> frame) list \<Rightarrow> int \<Rightarrow> int \<Rightarrow> int list \<Rightarrow> fsession \<Rightarrow> event list \<Rightarrow> offset_result \<Rightarrow>
   (fsession \<times> event list \<times> offset_result) res" where
  "offset_loop now frames actor seconds [] s events result = Inr (s, events, result)"
| "offset_loop now frames actor seconds (frame_id # ids) s events result =
     (case map_of frames frame_id of
        None \<Rightarrow> offset_loop now frames actor seconds ids s events (result\<lparr>of_failed := of_failed result @ [frame_id]\<rparr>)
      | Some f0 \<Rightarrow>
          rbind (get_frame (fs_db s) frame_id) (\<lambda>f.
            case fr_capture_timestamp f of
              None \<Rightarrow>
                offset_loop now frames actor seconds ids s events
                  (result\<lparr>of_skipped_null := of_skipped_null result @ [frame_id]\<rparr>)
            | Some t \<Rightarrow>
                rbind (datetime_add t (seconds * second_us)) (\<lambda>t'.
                  offset_loop now frames actor seconds ids
                    (mark_order_dirty (fr_project_id f) (Some frame_id)
                      (on_db (change_frame frame_id (\<lambda>r. r\<lparr>fr_capture_timestamp := Some t'\<rparr>)) s))
                    (events @ [project_event now (fr_project_id f) ''info'' (frame_message frame_id ''capture timestamp edited'')
                       (action_metadata frame_id ''edit_capture_timestamp'' @
                         [(''previous'', VStr (datetime_isoformat t)), (''new'', VStr (datetime_isoformat t')),
                          (''delta_seconds'', VInt seconds)]) actor])
                    (result\<lparr>of_shifted := of_shifted result @ [frame_id]\<rparr>))))"

definition offset_timestamps_many :: "int \<Rightarrow> int list \<Rightarrow> int \<Rightarrow> int \<Rightarrow> fsession \<Rightarrow> (offset_result \<times> fsession) res" where
  "offset_timestamps_many now frame_ids seconds actor s =
     (let frames = load_frames_by_id (fs_db s) frame_ids;
          s0 = (if frames \<noteq> [] then on_db ensure_sentinel_admin s else s)
      in rbind (offset_loop now frames actor seconds frame_ids s0 []
                  \<lparr>of_shifted = [], of_skipped_null = [], of_failed = []\<rparr>)
           (\<lambda>(s1, events, result). Inr (result, add_events events s1)))"

section \<open>Deleting a frame\<close>

definition project_ref_of :: "frame_project \<Rightarrow> project_ref" where
  "project_ref_of p = \<lparr>pr_id = fp_id p, pr_storage_path = fp_storage_path p\<rparr>"

definition remove_frame_thumbnails ::
  "realpath_fn \<Rightarrow> stat_fn \<Rightarrow> path_settings \<Rightarrow> int \<Rightarrow> int \<Rightarrow> path list \<Rightarrow> path list res" where
  "remove_frame_thumbnails realpath stat_id cfg project_id frame_id disk =
     (case contained_thumbnail_dir realpath stat_id cfg project_id of
        Inl (PathContainmentError i) \<Rightarrow> Inr disk
      | Inl e \<Rightarrow> Inl e
      | Inr cache_dir \<Rightarrow>
          rbind (rmap (thumbnail_file_name frame_id) (sort thumbnail_widths)) (\<lambda>names.
            Inr (filter (\<lambda>p. p \<notin> set (map (\<lambda>n. cache_dir @ [n]) names)) disk)))"

definition delete_row :: "int \<Rightarrow> frame_db \<Rightarrow> frame_db" where
  "delete_row frame_id db = db\<lparr>fd_frames := filter (\<lambda>f. fr_id f \<noteq> frame_id) (fd_frames db)\<rparr>"

text \<open>
  The transaction of a permanent delete, and the path it unlinks after the flush.  \<open>unlink_ok\<close>
  says whether the unlink succeeds (a missing file counts as success).
\<close>

definition delete_target ::
  "realpath_fn \<Rightarrow> stat_fn \<Rightarrow> path_settings \<Rightarrow> frame_db \<Rightarrow> frame \<Rightarrow> path option res" where
  "delete_target realpath stat_id cfg db f =
     (case (fr_file_path f, find_project db (fr_project_id f)) of
        (Some stored, Some p) \<Rightarrow>
          (case resolve_contained_frame_path realpath stat_id cfg (project_ref_of p) stored None of
             Inr q \<Rightarrow> Inr (Some q)
           | Inl (PathContainmentError i) \<Rightarrow> Inr None
           | Inl e \<Rightarrow> Inl e)
      | _ \<Rightarrow> Inr None)"

definition delete_rows :: "int \<Rightarrow> path_settings \<Rightarrow> int \<Rightarrow> frame \<Rightarrow> fsession \<Rightarrow> fsession" where
  "delete_rows now cfg actor f s =
     (let pid = fr_project_id f;
          s1 = on_db (change_project pid (\<lambda>p. if fp_frame_count p > 0 then p\<lparr>fp_frame_count := fp_frame_count p - 1\<rparr> else p)) s;
          s2 = on_db (delete_row (fr_id f)) s1
      in record_event now pid ''warning'' (frame_message (fr_id f) ''permanently deleted'')
           (action_metadata (fr_id f) ''permanent_delete'' @
             [(''file_path'', case fr_file_path f of None \<Rightarrow> VNone
                             | Some stored \<Rightarrow> VStr (path_text (resolve_absolute cfg pid stored)))]) actor
           (mark_dimensions_dirty pid s2))"

definition permanent_delete ::
  "realpath_fn \<Rightarrow> stat_fn \<Rightarrow> path_settings \<Rightarrow> bool \<Rightarrow> int \<Rightarrow> int \<Rightarrow> int \<Rightarrow> bool \<Rightarrow>
   fsession \<times> path list \<Rightarrow> (fsession \<times> path list) res" where
  "permanent_delete realpath stat_id cfg unlink_ok now frame_id actor confirm st =
     (case st of (s, disk) \<Rightarrow>
      if \<not> confirm then Inl ConfirmationRequiredError
      else
       rbind (get_frame (fs_db s) frame_id) (\<lambda>f.
       rbind (delete_target realpath stat_id cfg (fs_db s) f) (\<lambda>target.
       rbind (case target of
                None \<Rightarrow> Inr disk
              | Some p \<Rightarrow> (if unlink_ok then Inr (filter (\<lambda>q. q \<noteq> p) disk) else Inl (OSError ''unlink''))) (\<lambda>disk1.
       rbind (remove_frame_thumbnails realpath stat_id cfg (fr_project_id f) frame_id disk1) (\<lambda>disk2.
         Inr (delete_rows now cfg actor f s, disk2))))))"

section \<open>Writing a frame\<close>

record captured_frame =
  cf_width :: int
  cf_height :: int
  cf_format :: string
  cf_size :: int
  cf_captured_at :: pydt
  cf_scene_metadata :: pyval

record written_frame =
  wf_frame_id :: int
  wf_project_id :: int
  wf_sequence_index :: int
  wf_file_path :: path
  wf_width :: int
  wf_height :: int
  wf_file_size_bytes :: int
  wf_captured_at :: pydt
  wf_project_frame_count :: int
  wf_project_max_frame_count :: "int option"

record write_args =
  wa_origin :: frame_origin
  wa_capture_timestamp :: "pydt option"
  wa_stream_id :: "string option"
  wa_inferred :: bool
  wa_capture_reason :: "string option"

text \<open>What the outside does to one write: the file, the flush and the commit may each fail.\<close>

record write_env =
  we_uuid :: string
  we_file_ok :: bool
  we_flush_ok :: bool
  we_commit_ok :: bool
  we_unlink_ok :: bool

definition extensions :: "(string \<times> string) list" where
  "extensions = [(''jpeg'', ''jpg''), (''jpg'', ''jpg''), (''png'', ''png'')]"

definition extension :: "string \<Rightarrow> string" where
  "extension image_format =
     (let low = map ascii_lower image_format in case map_of extensions low of Some e \<Rightarrow> e | None \<Rightarrow> low)"

definition max_sequence_index :: "frame_db \<Rightarrow> int \<Rightarrow> int option" where
  "max_sequence_index db project_id =
     (let seqs = map fr_sequence_index (filter (\<lambda>f. fr_project_id f = project_id) (fd_frames db))
      in if seqs = [] then None else Some (foldr max seqs (hd seqs)))"

definition next_sequence_index :: "frame_db \<Rightarrow> int \<Rightarrow> int" where
  "next_sequence_index db project_id = (case max_sequence_index db project_id of None \<Rightarrow> 0 | Some m \<Rightarrow> m) + 1"

text \<open>An insert fails on the unique constraint of project and sequence index.\<close>

definition insert_frame :: "frame \<Rightarrow> frame_db \<Rightarrow> (int \<times> frame_db) res" where
  "insert_frame f db =
     (if list_ex (\<lambda>g. fr_project_id g = fr_project_id f \<and> fr_sequence_index g = fr_sequence_index f) (fd_frames db)
      then Inl IntegrityError
      else (let i = fd_last_id db + 1 in Inr (i, db\<lparr>fd_frames := fd_frames db @ [f\<lparr>fr_id := i\<rparr>], fd_last_id := i\<rparr>)))"

definition frame_row :: "int \<Rightarrow> captured_frame \<Rightarrow> write_args \<Rightarrow> int \<Rightarrow> string \<Rightarrow> frame" where
  "frame_row project_id c a seq stored =
     \<lparr>fr_id = 0, fr_project_id = project_id, fr_sequence_index = seq,
      fr_capture_timestamp = Some (to_naive_utc (case wa_capture_timestamp a of Some t \<Rightarrow> t | None \<Rightarrow> cf_captured_at c)),
      fr_file_path = Some stored, fr_width = Some (cf_width c), fr_height = Some (cf_height c),
      fr_file_size_bytes = Some (cf_size c), fr_capture_status = CS_Captured, fr_origin = wa_origin a,
      fr_lifecycle_state = L_Active, fr_excluded_at = None, fr_capture_timestamp_inferred = wa_inferred a,
      fr_stream_id = wa_stream_id a, fr_capture_reason = wa_capture_reason a, fr_scene_metadata = cf_scene_metadata c\<rparr>"

text \<open>
  \<open>write\<close> returns its result and the durable states it passes through, oldest first: what a
  crash at each point leaves of the database and the disk.
\<close>

definition writer_write ::
  "path \<Rightarrow> write_env \<Rightarrow> int \<Rightarrow> captured_frame \<Rightarrow> write_args \<Rightarrow> frame_db \<times> path list \<Rightarrow>
   written_frame res \<times> (frame_db \<times> path list) list" where
  "writer_write frames_base env project_id c a st =
     (case st of (db, disk) \<Rightarrow>
      case find_project db project_id of
        None \<Rightarrow> (Inl (ValueError ''project'' ''does not exist''), [(db, disk)])
      | Some p \<Rightarrow>
          (let seq = next_sequence_index db project_id;
               final_path = frame_dir_under_root frames_base (project_ref_of p) @ [we_uuid env @ ''.'' @ extension (cf_format c)];
               disk1 = disk @ [final_path];
               undone = (db, if we_unlink_ok env then filter (\<lambda>q. q \<noteq> final_path) disk1 else disk1)
           in if \<not> we_file_ok env then (Inl (OSError ''write''), [(db, disk)])
              else
               (case insert_frame (frame_row project_id c a seq (to_stored (project_ref_of p) final_path)) db of
                  Inl e \<Rightarrow> (Inl e, [(db, disk), (db, disk1), undone])
                | Inr (frame_id, db1) \<Rightarrow>
                    if \<not> we_flush_ok env \<or> \<not> we_commit_ok env
                    then (Inl (OSError ''commit''), [(db, disk), (db, disk1), undone])
                    else
                     (let db2 = change_project project_id (\<lambda>q. q\<lparr>fp_frame_count := fp_frame_count q + 1\<rparr>) db1
                      in (Inr \<lparr>wf_frame_id = frame_id, wf_project_id = project_id, wf_sequence_index = seq,
                               wf_file_path = final_path, wf_width = cf_width c, wf_height = cf_height c,
                               wf_file_size_bytes = cf_size c,
                               wf_captured_at = (case wa_capture_timestamp a of Some t \<Rightarrow> t | None \<Rightarrow> cf_captured_at c),
                               wf_project_frame_count = fp_frame_count p + 1,
                               wf_project_max_frame_count = fp_max_frame_count p\<rparr>,
                          [(db, disk), (db, disk1), (db2, disk1)])))))"

end
