(* ===== verification/Frame_Lifecycle.thy ===== *)
theory Frame_Lifecycle
  imports Frame_Store
begin

text \<open>
  What the operations of \<open>Frame_Store\<close> keep.  All but the permanent delete and the writer
  leave a row as it is in everything but its timestamp, its lifecycle state and its exclusion;
  the invariant of the table and the keep-all rule follow from that and from the two others.
\<close>

section \<open>The part of a row no operation changes\<close>

definition row_core :: "frame \<Rightarrow> frame" where
  "row_core f = f\<lparr>fr_capture_timestamp := None, fr_lifecycle_state := L_Active, fr_excluded_at := None\<rparr>"

lemma row_core_fields:
  assumes "row_core f = row_core g"
  shows "fr_id f = fr_id g" "fr_project_id f = fr_project_id g" "fr_sequence_index f = fr_sequence_index g"
    "fr_file_path f = fr_file_path g"
  using arg_cong [where f = fr_id, OF assms] arg_cong [where f = fr_project_id, OF assms]
    arg_cong [where f = fr_sequence_index, OF assms] arg_cong [where f = fr_file_path, OF assms]
  by (simp_all add: row_core_def)

lemma row_core_fields_simps [simp]:
  "fr_id (row_core f) = fr_id f" "fr_project_id (row_core f) = fr_project_id f"
  "fr_sequence_index (row_core f) = fr_sequence_index f" "fr_file_path (row_core f) = fr_file_path f"
  by (simp_all add: row_core_def)

definition core_of :: "frame_db \<Rightarrow> frame list \<times> frame_project list \<times> int" where
  "core_of db = (map row_core (fd_frames db), fd_projects db, fd_last_id db)"

lemma core_of_change_frame [simp]:
  "(\<And>f. row_core (u f) = row_core f) \<Longrightarrow> core_of (change_frame i u db) = core_of db"
  by (simp add: core_of_def change_frame_def)

lemma core_of_add_event [simp]: "core_of (add_event e db) = core_of db"
  by (simp add: core_of_def add_event_def)

lemma core_of_sentinel [simp]: "core_of (ensure_sentinel_admin db) = core_of db"
  by (simp add: core_of_def ensure_sentinel_admin_def)

lemma core_of_add_events [simp]: "core_of (fs_db (add_events es s)) = core_of (fs_db s)"
proof -
  have "core_of (fold add_event es db) = core_of db" for db
    by (induction es arbitrary: db) simp_all
  then show ?thesis by (simp add: add_events_def on_db_def)
qed

lemma fs_db_marks [simp]:
  "fs_db (mark_dimensions_dirty p s) = fs_db s" "fs_db (mark_order_dirty p i s) = fs_db s"
  "fs_db (on_db u s) = u (fs_db s)"
  by (simp_all add: mark_dimensions_dirty_def mark_order_dirty_def on_db_def Let_def split: option.splits)

lemma fs_db_record_event [simp]:
  "fs_db (record_event now p l m md a s) = add_event (project_event now p l m md a) (ensure_sentinel_admin (fs_db s))"
  by (simp add: record_event_def)

lemma row_core_updates [simp]:
  "row_core (f\<lparr>fr_lifecycle_state := x\<rparr>) = row_core f" "row_core (f\<lparr>fr_excluded_at := y\<rparr>) = row_core f"
  "row_core (f\<lparr>fr_capture_timestamp := z\<rparr>) = row_core f"
  by (simp_all add: row_core_def)

lemma single_ops_core:
  "soft_delete now i a s = Inr s' \<Longrightarrow> core_of (fs_db s') = core_of (fs_db s)"
  "restore now i a s = Inr s' \<Longrightarrow> core_of (fs_db s') = core_of (fs_db s)"
  "exclude now i a s = Inr s' \<Longrightarrow> core_of (fs_db s') = core_of (fs_db s)"
  "include_frame now i a s = Inr s' \<Longrightarrow> core_of (fs_db s') = core_of (fs_db s)"
  "edit_capture_timestamp now i t a s = Inr s' \<Longrightarrow> core_of (fs_db s') = core_of (fs_db s)"
  by (auto simp: soft_delete_def restore_def exclude_def include_frame_def edit_capture_timestamp_def Let_def)

lemma apply_loop_core:
  assumes "\<And>f. row_core (mutate f) = row_core f"
  shows "apply_loop now frames a mutate what action ch ids s es r = (s', es', r') \<Longrightarrow>
    core_of (fs_db s') = core_of (fs_db s)"
proof (induction ids arbitrary: s es r)
  case (Cons i ids)
  show ?case
  proof (cases "map_of frames i")
    case None
    then show ?thesis using Cons by (auto intro: Cons.IH)
  next
    case (Some f)
    from Cons.IH Cons.prems Some assms show ?thesis by (auto simp: Let_def)
  qed
qed simp

lemma apply_many_core:
  assumes "\<And>f. row_core (mutate f) = row_core f"
  shows "core_of (fs_db (snd (apply_many now ids a mutate what action ch s))) = core_of (fs_db s)"
proof -
  let ?frames = "load_frames_by_id (fs_db s) ids"
  let ?s0 = "if ?frames \<noteq> [] then on_db ensure_sentinel_admin s else s"
  obtain s1 es r where l: "apply_loop now ?frames a mutate what action ch ids ?s0 [] \<lparr>bk_succeeded = [], bk_failed = []\<rparr> = (s1, es, r)"
    by (metis prod_cases3)
  have "core_of (fs_db s1) = core_of (fs_db ?s0)" by (rule apply_loop_core [OF assms l])
  also have "\<dots> = core_of (fs_db s)" by simp
  finally show ?thesis using l by (simp add: apply_many_def Let_def)
qed

lemma offset_loop_core:
  "offset_loop now frames a secs ids s es r = Inr (s', es', r') \<Longrightarrow> core_of (fs_db s') = core_of (fs_db s)"
proof (induction ids arbitrary: s es r)
  case (Cons i ids)
  show ?case
  proof (cases "map_of frames i")
    case None
    then show ?thesis using Cons by (auto intro: Cons.IH)
  next
    case (Some f0)
    with Cons.prems obtain f where f: "get_frame (fs_db s) i = Inr f" by auto
    show ?thesis
    proof (cases "fr_capture_timestamp f")
      case None
      then show ?thesis using Cons Some f by (auto intro: Cons.IH)
    next
      case (Some t)
      with Cons.prems \<open>map_of frames i = Some f0\<close> f show ?thesis by (auto dest!: Cons.IH)
    qed
  qed
qed simp

lemma offset_many_core:
  "offset_timestamps_many now ids secs a s = Inr (r, s') \<Longrightarrow> core_of (fs_db s') = core_of (fs_db s)"
  by (auto simp: offset_timestamps_many_def Let_def split: if_splits dest!: offset_loop_core)

section \<open>The invariant of the table\<close>

definition rows_of :: "frame_db \<Rightarrow> int \<Rightarrow> frame list" where
  "rows_of db p = filter (\<lambda>f. fr_project_id f = p) (fd_frames db)"

definition slot :: "frame \<Rightarrow> int \<times> int" where
  "slot f = (fr_project_id f, fr_sequence_index f)"

definition frames_wf :: "frame_db \<Rightarrow> bool" where
  "frames_wf db \<longleftrightarrow>
     distinct (map fr_id (fd_frames db)) \<and> (\<forall>f\<in>set (fd_frames db). fr_id f \<le> fd_last_id db) \<and>
     distinct (map slot (fd_frames db)) \<and> (\<forall>f\<in>set (fd_frames db). 1 \<le> fr_sequence_index f) \<and>
     distinct (map fp_id (fd_projects db)) \<and>
     (\<forall>p\<in>set (fd_projects db). fp_frame_count p = int (length (rows_of db (fp_id p)))) \<and>
     (\<forall>f\<in>set (fd_frames db). fr_project_id f \<in> fp_id ` set (fd_projects db))"

lemma frames_wfI:
  assumes "distinct (map fr_id (fd_frames db))" "\<And>f. f \<in> set (fd_frames db) \<Longrightarrow> fr_id f \<le> fd_last_id db"
    "distinct (map slot (fd_frames db))" "\<And>f. f \<in> set (fd_frames db) \<Longrightarrow> 1 \<le> fr_sequence_index f"
    "distinct (map fp_id (fd_projects db))"
    "\<And>p. p \<in> set (fd_projects db) \<Longrightarrow> fp_frame_count p = int (length (rows_of db (fp_id p)))"
    "\<And>f. f \<in> set (fd_frames db) \<Longrightarrow> fr_project_id f \<in> fp_id ` set (fd_projects db)"
  shows "frames_wf db"
  using assms by (simp add: frames_wf_def)

lemma frames_wfD:
  assumes "frames_wf db"
  shows "distinct (map fr_id (fd_frames db))" "\<And>f. f \<in> set (fd_frames db) \<Longrightarrow> fr_id f \<le> fd_last_id db"
    "distinct (map slot (fd_frames db))" "\<And>f. f \<in> set (fd_frames db) \<Longrightarrow> 1 \<le> fr_sequence_index f"
    "distinct (map fp_id (fd_projects db))"
    "\<And>p. p \<in> set (fd_projects db) \<Longrightarrow> fp_frame_count p = int (length (rows_of db (fp_id p)))"
    "\<And>f. f \<in> set (fd_frames db) \<Longrightarrow> fr_project_id f \<in> fp_id ` set (fd_projects db)"
  using assms by (simp_all add: frames_wf_def)

text \<open>The invariant reads only what the core holds.\<close>

definition core_wf :: "frame list \<times> frame_project list \<times> int \<Rightarrow> bool" where
  "core_wf c \<longleftrightarrow>
     (case c of (rows, projects, n) \<Rightarrow>
       frames_wf \<lparr>fd_frames = rows, fd_projects = projects, fd_events = [], fd_last_id = n, fd_sentinel = True\<rparr>)"

lemma frames_wf_core: "frames_wf db = core_wf (core_of db)"
proof -
  have "slot \<circ> row_core = slot" "fr_id \<circ> row_core = fr_id" by (simp_all add: fun_eq_iff slot_def)
  moreover have "length (filter (\<lambda>f. fr_project_id f = p) (map row_core xs)) = length (filter (\<lambda>f. fr_project_id f = p) xs)"
    for p xs by (simp add: filter_map comp_def)
  ultimately show ?thesis by (simp add: core_wf_def core_of_def frames_wf_def rows_of_def)
qed

lemma frames_wf_cong: "core_of db' = core_of db \<Longrightarrow> frames_wf db \<Longrightarrow> frames_wf db'"
  by (simp add: frames_wf_core)

lemma rows_of_change_project [simp]: "rows_of (change_project p u db) q = rows_of db q"
  by (simp add: rows_of_def change_project_def)

lemma rows_of_add_event [simp]: "rows_of (add_event e db) q = rows_of db q" "rows_of (ensure_sentinel_admin db) q = rows_of db q"
  by (simp_all add: rows_of_def add_event_def ensure_sentinel_admin_def)

lemma find_projectD: "find_project db i = Some p \<Longrightarrow> p \<in> set (fd_projects db) \<and> fp_id p = i"
  by (auto simp: find_project_def find_Some_iff)

lemma get_frameD: "get_frame db i = Inr f \<Longrightarrow> f \<in> set (fd_frames db) \<and> fr_id f = i"
  by (auto simp: get_frame_def find_Some_iff split: option.splits)

lemma foldr_max_bounds: "x \<in> set xs \<Longrightarrow> x \<le> foldr max xs (b::int)" "b \<le> foldr max xs b"
  by (induction xs) auto

lemma next_sequence_index_above:
  assumes "f \<in> set (fd_frames db)" "fr_project_id f = p"
  shows "fr_sequence_index f < next_sequence_index db p"
proof -
  let ?seqs = "map fr_sequence_index (filter (\<lambda>f. fr_project_id f = p) (fd_frames db))"
  have mem: "fr_sequence_index f \<in> set ?seqs" using assms by auto
  have "?seqs \<noteq> []" using mem by (metis empty_iff list.set(1))
  with foldr_max_bounds(1) [OF mem, of "hd ?seqs"] show ?thesis by (simp add: next_sequence_index_def max_sequence_index_def Let_def)
qed

lemma next_sequence_index_positive:
  assumes "frames_wf db"
  shows "1 \<le> next_sequence_index db p"
proof (cases "filter (\<lambda>f. fr_project_id f = p) (fd_frames db) = []")
  case True
  then show ?thesis by (simp add: next_sequence_index_def max_sequence_index_def)
next
  case False
  then obtain f where f: "f \<in> set (fd_frames db)" "fr_project_id f = p" by (auto simp: filter_empty_conv)
  from next_sequence_index_above [OF f] frames_wfD(4) [OF assms f(1)] show ?thesis by simp
qed

text \<open>The writer never meets the unique constraint, and its row keeps the invariant.\<close>

lemma insert_next:
  assumes "fr_project_id f = p" "fr_sequence_index f = next_sequence_index db p"
  shows "insert_frame f db = Inr (fd_last_id db + 1,
    db\<lparr>fd_frames := fd_frames db @ [f\<lparr>fr_id := fd_last_id db + 1\<rparr>], fd_last_id := fd_last_id db + 1\<rparr>)"
proof -
  have "\<not> list_ex (\<lambda>g. fr_project_id g = fr_project_id f \<and> fr_sequence_index g = fr_sequence_index f) (fd_frames db)"
    using next_sequence_index_above [of _ db p] assms by (fastforce simp: list_ex_iff)
  then show ?thesis by (simp add: insert_frame_def Let_def)
qed

lemma frames_wf_insert:
  assumes wf: "frames_wf db" and p: "p \<in> set (fd_projects db)" "fp_id p = pid"
    and f: "fr_project_id f = pid" "fr_sequence_index f = next_sequence_index db pid"
    and ins: "insert_frame f db = Inr (i, db1)"
  shows "frames_wf (change_project pid (\<lambda>q. q\<lparr>fp_frame_count := fp_frame_count q + 1\<rparr>) db1)"
proof -
  let ?u = "\<lambda>q. if fp_id q = pid then q\<lparr>fp_frame_count := fp_frame_count q + 1\<rparr> else q"
  let ?g = "f\<lparr>fr_id := fd_last_id db + 1\<rparr>"
  have db1: "db1 = db\<lparr>fd_frames := fd_frames db @ [?g], fd_last_id := fd_last_id db + 1\<rparr>"
    using ins unfolding insert_next [OF f] by blast
  note d = frames_wfD [OF wf]
  have id_u: "fp_id (?u q) = fp_id q" for q by simp
  have ids: "fp_id \<circ> ?u = fp_id" by (auto simp: fun_eq_iff)
  have imgs: "fp_id ` ?u ` S = fp_id ` S" for S by (simp only: image_image id_u)
  define db2 where "db2 = change_project pid (\<lambda>q. q\<lparr>fp_frame_count := fp_frame_count q + 1\<rparr>) db1"
  have db2: "fd_frames db2 = fd_frames db @ [?g]" "fd_projects db2 = map ?u (fd_projects db)" "fd_last_id db2 = fd_last_id db + 1"
    by (simp_all add: db2_def db1 change_project_def)
  have g: "g = ?g \<or> g \<in> set (fd_frames db)" if "g \<in> set (fd_frames db2)" for g using that by (auto simp: db2)
  have "frames_wf db2"
  proof (rule frames_wfI)
    show "distinct (map fr_id (fd_frames db2))" using d(1,2) by (fastforce simp: db2)
    show "distinct (map slot (fd_frames db2))"
      using d(3) next_sequence_index_above [of _ db pid] f by (fastforce simp: slot_def db2)
    show "distinct (map fp_id (fd_projects db2))" using d(5) by (simp only: db2 map_map ids)
  next
    fix g assume "g \<in> set (fd_frames db2)"
    from g [OF this] show "fr_id g \<le> fd_last_id db2" using d(2) [of g] by (auto simp: db2)
  next
    fix g assume "g \<in> set (fd_frames db2)"
    from g [OF this] show "1 \<le> fr_sequence_index g" using d(4) [of g] f next_sequence_index_positive [OF wf, of pid] by auto
  next
    fix q assume "q \<in> set (fd_projects db2)"
    then obtain q0 where "q0 \<in> set (fd_projects db)" "q = ?u q0" by (auto simp: db2)
    then show "fp_frame_count q = int (length (rows_of db2 (fp_id q)))" using d(6) [of q0] f by (simp add: rows_of_def db2)
  next
    fix g assume "g \<in> set (fd_frames db2)"
    from g [OF this] show "fr_project_id g \<in> fp_id ` set (fd_projects db2)"
      unfolding db2 set_map imgs using d(7) [of g] f(1) imageI [OF p(1), of fp_id] p(2) by auto
  qed
  then show ?thesis by (simp only: db2_def)
qed

text \<open>A delete takes one row and one off the count.\<close>

lemma frames_wf_delete:
  assumes wf: "frames_wf db" and f: "f \<in> set (fd_frames db)"
  shows "frames_wf (delete_row (fr_id f) (change_project (fr_project_id f)
    (\<lambda>p. if fp_frame_count p > 0 then p\<lparr>fp_frame_count := fp_frame_count p - 1\<rparr> else p) db))"
proof -
  note d = frames_wfD [OF wf]
  let ?dec = "\<lambda>p. if fp_frame_count p > 0 then p\<lparr>fp_frame_count := fp_frame_count p - 1\<rparr> else p"
  let ?u = "\<lambda>q. if fp_id q = fr_project_id f then ?dec q else q"
  have id_u: "fp_id (?u q) = fp_id q" for q by simp
  have ids: "fp_id \<circ> ?u = fp_id" using id_u by (auto simp: fun_eq_iff)
  have imgs: "fp_id ` ?u ` S = fp_id ` S" for S by (simp only: image_image id_u)
  have len: "length (filter (\<lambda>g. fr_project_id g = q) (filter (\<lambda>g. fr_id g \<noteq> fr_id f) rows)) =
      length (filter (\<lambda>g. fr_project_id g = q) rows) - (if fr_project_id f = q then 1 else 0)"
    if "distinct (map fr_id rows)" "f \<in> set rows" for q rows
    using that
  proof (induction rows)
    case (Cons g rows)
    show ?case
    proof (cases "g = f")
      case True
      with Cons.prems have "filter (\<lambda>g. fr_id g \<noteq> fr_id f) rows = rows" by (auto simp: filter_id_conv image_iff)
      with True show ?thesis by simp
    next
      case False
      with Cons.prems have g: "f \<in> set rows" "fr_id g \<noteq> fr_id f" by (auto simp: image_iff)
      then have "fr_project_id f = q \<Longrightarrow> 0 < length (filter (\<lambda>g. fr_project_id g = q) rows)"
        by (auto simp: filter_empty_conv)
      with Cons g show ?thesis by auto
    qed
  qed simp
  define db2 where "db2 = delete_row (fr_id f) (change_project (fr_project_id f) ?dec db)"
  have db2: "fd_frames db2 = filter (\<lambda>g. fr_id g \<noteq> fr_id f) (fd_frames db)" "fd_projects db2 = map ?u (fd_projects db)"
    "fd_last_id db2 = fd_last_id db"
    by (simp_all add: db2_def delete_row_def change_project_def)
  have g: "g \<in> set (fd_frames db)" if "g \<in> set (fd_frames db2)" for g using that by (auto simp: db2)
  have "frames_wf db2"
  proof (rule frames_wfI)
    show "distinct (map fr_id (fd_frames db2))" unfolding db2 using d(1) by (rule distinct_map_filter)
    show "distinct (map slot (fd_frames db2))" unfolding db2 using d(3) by (rule distinct_map_filter)
    show "distinct (map fp_id (fd_projects db2))" using d(5) by (simp only: db2 map_map ids)
  next
    fix q assume "q \<in> set (fd_projects db2)"
    then obtain q0 where q0: "q0 \<in> set (fd_projects db)" "q = ?u q0" by (auto simp: db2)
    have pos: "fr_project_id f = fp_id q0 \<Longrightarrow> 0 < length (rows_of db (fp_id q0))"
      using f by (auto simp: rows_of_def filter_empty_conv)
    show "fp_frame_count q = int (length (rows_of db2 (fp_id q)))"
      using d(6) [OF q0(1)] q0(2) pos len [OF d(1) f, of "fp_id q0"]
      by (auto simp: rows_of_def db2 of_nat_diff Suc_leI)
  next
    fix g assume "g \<in> set (fd_frames db2)"
    from g [OF this] show "fr_project_id g \<in> fp_id ` set (fd_projects db2)"
      unfolding db2 set_map imgs using d(7) by blast
  qed (use g d(2,4) db2(3) in auto)
  then show ?thesis by (simp only: db2_def)
qed

section \<open>Histories\<close>

definition open_session :: "frame_db \<Rightarrow> fsession" where
  "open_session db = \<lparr>fs_db = db, fs_dims_dirty = [], fs_order_dirty = []\<rparr>"

lemma fs_db_open [simp]: "fs_db (open_session db) = db"
  by (simp add: open_session_def)

text \<open>
  A committed operation, or a write that ended at one of its durable states, a crash included.
  The name the writer takes is a fresh UUID and an extension: one path component that no file has.
\<close>

inductive keep_step :: "path_settings \<Rightarrow> frame_db \<times> path list \<Rightarrow> frame_db \<times> path list \<Rightarrow> bool" for cfg where
  soft_delete: "soft_delete now i a (open_session db) = Inr s \<Longrightarrow> keep_step cfg (db, disk) (fs_db s, disk)"
| restore: "restore now i a (open_session db) = Inr s \<Longrightarrow> keep_step cfg (db, disk) (fs_db s, disk)"
| exclude: "exclude now i a (open_session db) = Inr s \<Longrightarrow> keep_step cfg (db, disk) (fs_db s, disk)"
| include_frame: "include_frame now i a (open_session db) = Inr s \<Longrightarrow> keep_step cfg (db, disk) (fs_db s, disk)"
| edit: "edit_capture_timestamp now i t a (open_session db) = Inr s \<Longrightarrow> keep_step cfg (db, disk) (fs_db s, disk)"
| soft_delete_many: "soft_delete_many now ids a (open_session db) = (r, s) \<Longrightarrow> keep_step cfg (db, disk) (fs_db s, disk)"
| restore_many: "restore_many now ids a (open_session db) = (r, s) \<Longrightarrow> keep_step cfg (db, disk) (fs_db s, disk)"
| exclude_many: "exclude_many now ids a (open_session db) = (r, s) \<Longrightarrow> keep_step cfg (db, disk) (fs_db s, disk)"
| include_many: "include_many now ids a (open_session db) = (r, s) \<Longrightarrow> keep_step cfg (db, disk) (fs_db s, disk)"
| offset_many: "offset_timestamps_many now ids secs a (open_session db) = Inr (r, s) \<Longrightarrow> keep_step cfg (db, disk) (fs_db s, disk)"
| written: "writer_write (ps_frames_root cfg) env pid c args (db, disk) = (w, states) \<Longrightarrow> st \<in> set states \<Longrightarrow>
    component (we_uuid env @ ''.'' @ extension (cf_format c)) \<Longrightarrow>
    (\<And>d. d @ [we_uuid env @ ''.'' @ extension (cf_format c)] \<notin> set disk) \<Longrightarrow> keep_step cfg (db, disk) st"

inductive delete_step ::
  "realpath_fn \<Rightarrow> stat_fn \<Rightarrow> path_settings \<Rightarrow> frame_db \<times> path list \<Rightarrow> frame_db \<times> path list \<Rightarrow> bool"
  for realpath stat_id cfg where
  delete: "permanent_delete realpath stat_id cfg ok now i a confirm (open_session db, disk) = Inr (s, disk') \<Longrightarrow>
    delete_step realpath stat_id cfg (db, disk) (fs_db s, disk')"

inductive_cases delete_stepE: "delete_step realpath stat_id cfg (db, disk) st'"

lemmas many_defs = soft_delete_many_def restore_many_def exclude_many_def include_many_def

lemma many_ops_core:
  "soft_delete_many now ids a s = (r, s') \<Longrightarrow> core_of (fs_db s') = core_of (fs_db s)"
  "restore_many now ids a s = (r, s') \<Longrightarrow> core_of (fs_db s') = core_of (fs_db s)"
  "exclude_many now ids a s = (r, s') \<Longrightarrow> core_of (fs_db s') = core_of (fs_db s)"
  "include_many now ids a s = (r, s') \<Longrightarrow> core_of (fs_db s') = core_of (fs_db s)"
  unfolding many_defs by (metis apply_many_core row_core_updates snd_conv)+

text \<open>What a step that is not a delete does: nothing to the core, or one more row at the end.\<close>

definition wrote :: "path_settings \<Rightarrow> frame_db \<Rightarrow> path list \<Rightarrow> frame_db \<Rightarrow> path list \<Rightarrow> bool" where
  "wrote cfg db disk db' disk' \<longleftrightarrow>
     (\<exists>p pid name f i db1. find_project db pid = Some p \<and> fr_project_id f = pid \<and> component name \<and>
        fr_sequence_index f = next_sequence_index db pid \<and>
        fr_file_path f = Some (to_stored (project_ref_of p) (frame_dir cfg (project_ref_of p) @ [name])) \<and>
        insert_frame f db = Inr (i, db1) \<and>
        db' = change_project pid (\<lambda>q. q\<lparr>fp_frame_count := fp_frame_count q + 1\<rparr>) db1 \<and>
        disk' = disk @ [frame_dir cfg (project_ref_of p) @ [name]])"

lemma wroteI:
  assumes "component name" "find_project db pid = Some p" "fr_project_id f = pid" "fr_sequence_index f = next_sequence_index db pid"
    "fr_file_path f = Some (to_stored (project_ref_of p) (frame_dir cfg (project_ref_of p) @ [name]))"
    "insert_frame f db = Inr (i, db1)"
  shows "wrote cfg db disk (change_project pid (\<lambda>q. q\<lparr>fp_frame_count := fp_frame_count q + 1\<rparr>) db1)
    (disk @ [frame_dir cfg (project_ref_of p) @ [name]])"
  unfolding wrote_def using assms by blast

lemma writer_states:
  assumes "writer_write (ps_frames_root cfg) env pid c args (db, disk) = (w, states)" "(db', disk') \<in> set states"
    and "component (we_uuid env @ ''.'' @ extension (cf_format c))"
    and "\<And>d. d @ [we_uuid env @ ''.'' @ extension (cf_format c)] \<notin> set disk"
  shows "(db' = db \<and> set disk \<subseteq> set disk') \<or> wrote cfg db disk db' disk'"
proof (cases "find_project db pid")
  case None
  then show ?thesis using assms(1,2) by (auto simp: writer_write_def)
next
  case (Some p)
  let ?name = "we_uuid env @ CHR ''.'' # extension (cf_format c)"
  let ?path = "frame_dir cfg (project_ref_of p) @ [?name]"
  let ?f = "frame_row pid c args (next_sequence_index db pid) (to_stored (project_ref_of p) ?path)"
  have f: "fr_project_id ?f = pid" "fr_sequence_index ?f = next_sequence_index db pid" by (simp_all add: frame_row_def)
  obtain i db1 where ins: "insert_frame ?f db = Inr (i, db1)" using insert_next [OF f] by auto
  have name: "component ?name" using assms(3) by simp
  have "?path \<notin> set disk" using assms(4) by auto
  then have keep: "filter (\<lambda>q. q \<noteq> ?path) disk = disk" by (auto simp: filter_id_conv)
  have "(db' = db \<and> set disk \<subseteq> set disk') \<or>
      (db' = change_project pid (\<lambda>q. q\<lparr>fp_frame_count := fp_frame_count q + 1\<rparr>) db1 \<and> disk' = disk @ [?path])"
    using assms(1,2)
    by (auto simp: writer_write_def Some frame_dir_def [symmetric] ins keep Let_def split: if_splits)
  moreover have "fr_file_path ?f = Some (to_stored (project_ref_of p) ?path)" by (simp add: frame_row_def)
  ultimately show ?thesis using wroteI [OF name Some f _ ins] by blast
qed

lemma keep_step_cases:
  assumes "keep_step cfg (db, disk) (db', disk')"
  shows "(core_of db' = core_of db \<and> set disk \<subseteq> set disk') \<or> wrote cfg db disk db' disk'"
  using assms
proof (cases rule: keep_step.cases)
  case (written env pid c args w states)
  from writer_states [OF written(1,2,3,4)] show ?thesis by auto
qed (auto dest!: single_ops_core many_ops_core offset_many_core)

lemma keep_step_wf:
  assumes "keep_step cfg (db, disk) (db', disk')" "frames_wf db"
  shows "frames_wf db'"
  using keep_step_cases [OF assms(1)]
proof
  assume "core_of db' = core_of db \<and> set disk \<subseteq> set disk'"
  then show ?thesis using assms(2) frames_wf_cong by blast
next
  assume "wrote cfg db disk db' disk'"
  then obtain p pid f i db1 where w: "find_project db pid = Some p" "fr_project_id f = pid"
    "fr_sequence_index f = next_sequence_index db pid" "insert_frame f db = Inr (i, db1)"
    "db' = change_project pid (\<lambda>q. q\<lparr>fp_frame_count := fp_frame_count q + 1\<rparr>) db1"
    by (auto simp: wrote_def)
  from find_projectD [OF w(1)] frames_wf_insert [OF assms(2) _ _ w(2,3,4)] w(5) show ?thesis by blast
qed

lemma delete_rows_db:
  "fs_db (delete_rows now cfg a f s) =
     add_event (project_event now (fr_project_id f) ''warning'' (frame_message (fr_id f) ''permanently deleted'')
       (action_metadata (fr_id f) ''permanent_delete'' @
         [(''file_path'', case fr_file_path f of None \<Rightarrow> VNone
                         | Some stored \<Rightarrow> VStr (path_text (resolve_absolute cfg (fr_project_id f) stored)))]) a)
       (ensure_sentinel_admin (delete_row (fr_id f) (change_project (fr_project_id f)
         (\<lambda>p. if fp_frame_count p > 0 then p\<lparr>fp_frame_count := fp_frame_count p - 1\<rparr> else p) (fs_db s))))"
  by (simp add: delete_rows_def Let_def)

lemma permanent_deleteD:
  assumes "permanent_delete realpath stat_id cfg ok now i a confirm (s, disk) = Inr (s', disk')"
  obtains f target where "confirm" "get_frame (fs_db s) i = Inr f" "delete_target realpath stat_id cfg (fs_db s) f = Inr target"
    "s' = delete_rows now cfg a f s"
  using assms by (auto simp: permanent_delete_def split: if_splits)

lemma delete_step_wf:
  assumes "delete_step realpath stat_id cfg (db, disk) (db', disk')" "frames_wf db"
  shows "frames_wf db'"
proof -
  from assms(1) obtain ok now i a confirm s where
    "permanent_delete realpath stat_id cfg ok now i a confirm (open_session db, disk) = Inr (s, disk')" "db' = fs_db s"
    by (auto elim: delete_stepE)
  moreover from permanent_deleteD [OF this(1)] obtain f where "get_frame db i = Inr f" "s = delete_rows now cfg a f (open_session db)"
    by (metis fs_db_open)
  ultimately have "db' = fs_db (delete_rows now cfg a f (open_session db))" "f \<in> set (fd_frames db)"
    using get_frameD by auto
  then show ?thesis using frames_wf_delete [OF assms(2)] by (simp add: delete_rows_db frames_wf_core)
qed

section \<open>Rows and files\<close>

definition files_there :: "path_settings \<Rightarrow> frame_db \<Rightarrow> path list \<Rightarrow> bool" where
  "files_there cfg db disk \<longleftrightarrow>
     (\<forall>f\<in>set (fd_frames db). \<forall>stored. fr_file_path f = Some stored \<longrightarrow>
        resolve_absolute cfg (fr_project_id f) stored \<in> set disk)"

lemma files_thereI:
  "(\<And>f stored. f \<in> set (fd_frames db) \<Longrightarrow> fr_file_path f = Some stored \<Longrightarrow>
     resolve_absolute cfg (fr_project_id f) stored \<in> set disk) \<Longrightarrow> files_there cfg db disk"
  by (simp add: files_there_def)

lemma files_thereD:
  "files_there cfg db disk \<Longrightarrow> f \<in> set (fd_frames db) \<Longrightarrow> fr_file_path f = Some stored \<Longrightarrow>
     resolve_absolute cfg (fr_project_id f) stored \<in> set disk"
  by (simp add: files_there_def)

lemma core_of_rows:
  assumes "core_of db' = core_of db" "f \<in> set (fd_frames db)"
  obtains g where "g \<in> set (fd_frames db')" "row_core g = row_core f"
proof -
  have "row_core f \<in> set (map row_core (fd_frames db'))" using assms by (simp add: core_of_def)
  then show ?thesis using that by auto
qed

lemma files_there_cong:
  assumes "core_of db' = core_of db" "set disk \<subseteq> set disk'" "files_there cfg db disk"
  shows "files_there cfg db' disk'"
proof (rule files_thereI)
  fix f stored assume "f \<in> set (fd_frames db')" "fr_file_path f = Some stored"
  with core_of_rows [OF assms(1) [symmetric]] obtain g where
    "g \<in> set (fd_frames db)" "fr_file_path g = Some stored" "fr_project_id g = fr_project_id f"
    by (metis row_core_fields(2,4))
  from files_thereD [OF assms(3) this(1,2)] this(3) assms(2)
  show "resolve_absolute cfg (fr_project_id f) stored \<in> set disk'" by auto
qed

lemma component_parts: "list_all component (path_parts s)"
proof -
  have "CHR ''/'' \<notin> set c" if "c \<in> set (split_on (CHR ''/'') s)" for c
    using that
  proof (induction s arbitrary: c)
    case (Cons x xs)
    then show ?case by (auto split: if_splits list.splits)
  qed simp
  then show ?thesis by (auto simp: path_parts_def list_all_iff component_def)
qed

lemma show_nat_digits: "show_nat n \<noteq> [] \<and> list_all is_digit (show_nat n)"
proof (induction n rule: show_nat.induct)
  case (1 n)
  then show ?case by (simp add: show_nat.simps [of n] digit_char_facts(1))
qed

lemma component_show_int: "component (show_int i)"
proof -
  have no: "\<not> is_digit (CHR ''/'')" "\<not> is_digit (CHR ''.'')" by (code_simp)+
  have "CHR ''/'' \<notin> set (show_nat n)" "show_nat n \<noteq> ''.''" for n
    using show_nat_digits [of n] no by (auto simp: list_all_iff)
  then show ?thesis using show_nat_digits by (auto simp: component_def show_int_def)
qed

lemma component_frame_dir: "list_all component (ps_frames_root cfg) \<Longrightarrow> list_all component (frame_dir cfg pr)"
  by (simp add: frame_dir_def frame_dir_under_root_def component_parts component_show_int)

lemma wrote_rows:
  assumes "wrote cfg db disk db' disk'"
  obtains p pid name g where "find_project db pid = Some p" "component name" "fd_frames db' = fd_frames db @ [g]"
    "fr_project_id g = pid" "fr_file_path g = Some (to_stored (project_ref_of p) (frame_dir cfg (project_ref_of p) @ [name]))"
    "disk' = disk @ [frame_dir cfg (project_ref_of p) @ [name]]"
proof -
  from assms obtain p pid name f i db1 where w: "find_project db pid = Some p" "fr_project_id f = pid" "component name"
    "fr_sequence_index f = next_sequence_index db pid"
    "fr_file_path f = Some (to_stored (project_ref_of p) (frame_dir cfg (project_ref_of p) @ [name]))"
    "insert_frame f db = Inr (i, db1)"
    "db' = change_project pid (\<lambda>q. q\<lparr>fp_frame_count := fp_frame_count q + 1\<rparr>) db1"
    "disk' = disk @ [frame_dir cfg (project_ref_of p) @ [name]]"
    unfolding wrote_def by blast
  have "fd_frames db' = fd_frames db @ [f\<lparr>fr_id := fd_last_id db + 1\<rparr>]"
    using w(6,7) unfolding insert_next [OF w(2,4)] by (auto simp: change_project_def)
  then show ?thesis using that [OF w(1,3)] w(2,5,8) by simp
qed

text \<open>What a history without deletes keeps: every row's core, every file, and each row's file.\<close>

definition kept :: "path_settings \<Rightarrow> frame_db \<times> path list \<Rightarrow> frame_db \<times> path list \<Rightarrow> bool" where
  "kept cfg st st' \<longleftrightarrow>
     row_core ` set (fd_frames (fst st)) \<subseteq> row_core ` set (fd_frames (fst st')) \<and> set (snd st) \<subseteq> set (snd st') \<and>
     (files_there cfg (fst st) (snd st) \<longrightarrow> files_there cfg (fst st') (snd st'))"

lemma keep_step_kept:
  assumes "keep_step cfg st st'" "list_all component (ps_frames_root cfg)"
  shows "kept cfg st st'"
proof -
  obtain db disk db' disk' where st: "st = (db, disk)" "st' = (db', disk')" by (cases st, cases st')
  from keep_step_cases assms(1) consider "core_of db' = core_of db" "set disk \<subseteq> set disk'" | "wrote cfg db disk db' disk'"
    unfolding st by blast
  then show ?thesis
  proof cases
    case 1
    then have "row_core ` set (fd_frames db) = row_core ` set (fd_frames db')"
      by (metis core_of_def list.set_map prod.inject)
    then show ?thesis using 1 files_there_cong by (simp add: kept_def st)
  next
    case 2
    then obtain p pid name g where w: "find_project db pid = Some p" "component name" "fd_frames db' = fd_frames db @ [g]"
      "fr_project_id g = pid" "fr_file_path g = Some (to_stored (project_ref_of p) (frame_dir cfg (project_ref_of p) @ [name]))"
      "disk' = disk @ [frame_dir cfg (project_ref_of p) @ [name]]" by (rule wrote_rows)
    have pid: "pr_id (project_ref_of p) = pid" using find_projectD [OF w(1)] by (simp add: project_ref_of_def)
    have "files_there cfg db' disk'" if "files_there cfg db disk"
    proof (rule files_thereI)
      fix f stored assume f: "f \<in> set (fd_frames db')" "fr_file_path f = Some stored"
      show "resolve_absolute cfg (fr_project_id f) stored \<in> set disk'"
      proof (cases "f \<in> set (fd_frames db)")
        case True
        from files_thereD [OF that True f(2)] show ?thesis by (simp add: w(6))
      next
        case False
        then have "f = g" using f(1) w(3) by simp
        then show ?thesis
          using f(2) w(4,5,6) stored_roundtrip [OF w(2) component_frame_dir [OF assms(2)], of "project_ref_of p"] pid by simp
      qed
    qed
    then show ?thesis using w(3,6) by (auto simp: kept_def st)
  qed
qed

definition sample_cfg :: path_settings where
  "sample_cfg = \<lparr>ps_frames_root = [''data'', ''frames''], ps_data_dir = [''data''], ps_files = [], ps_allowed_roots = None,
     ps_output_subdir = ''renders''\<rparr>"

definition sample_captured :: captured_frame where
  "sample_captured = \<lparr>cf_width = 4, cf_height = 3, cf_format = ''jpeg'', cf_size = 10, cf_captured_at = Aware 1000000,
     cf_scene_metadata = VNone\<rparr>"

definition sample_args :: write_args where
  "sample_args = \<lparr>wa_origin = O_Captured, wa_capture_timestamp = None, wa_stream_id = None, wa_inferred = False,
     wa_capture_reason = None\<rparr>"

definition sample_db :: frame_db where
  "sample_db = \<lparr>fd_frames = [(frame_row 1 sample_captured sample_args 1 ''a.jpg'')\<lparr>fr_id := 1\<rparr>],
     fd_projects = [\<lparr>fp_id = 1, fp_storage_path = None, fp_frame_count = 1, fp_max_frame_count = None\<rparr>],
     fd_events = [], fd_last_id = 1, fd_sentinel = True\<rparr>"

definition sample_disk :: "path list" where
  "sample_disk = [[''data'', ''frames'', ''1'', ''a.jpg'']]"

definition sample_env :: write_env where
  "sample_env = \<lparr>we_uuid = ''b'', we_file_ok = True, we_flush_ok = True, we_commit_ok = True, we_unlink_ok = True\<rparr>"

definition sample_written :: "frame_db \<times> path list" where
  "sample_written = last (snd (writer_write [''data'', ''frames''] sample_env 1 sample_captured sample_args (sample_db, sample_disk)))"

lemma sample_step: "keep_step sample_cfg (sample_db, sample_disk) sample_written"
proof -
  have root: "ps_frames_root sample_cfg = [''data'', ''frames'']" by (simp add: sample_cfg_def)
  have name: "we_uuid sample_env @ ''.'' @ extension (cf_format sample_captured) = ''b.jpg''" by code_simp
  have "snd (writer_write [''data'', ''frames''] sample_env 1 sample_captured sample_args (sample_db, sample_disk)) \<noteq> []"
    by code_simp
  then have mem: "sample_written \<in> set (snd (writer_write (ps_frames_root sample_cfg) sample_env 1 sample_captured sample_args (sample_db, sample_disk)))"
    unfolding root sample_written_def by (rule last_in_set)
  show ?thesis
    by (rule written [OF prod.collapse [symmetric] mem]) (simp_all only: name, simp_all add: component_def sample_disk_def)
qed



text \<open>
  C30.  Keep-all.  A history of any operations but the permanent delete, writes cut off by a
  crash included, removes no row and no file, changes nothing of a row but its timestamp, its
  lifecycle state and its exclusion, and never leaves a row whose file is missing.
\<close>

theorem keep_all:
  assumes "(keep_step cfg)\<^sup>*\<^sup>* (db, disk) (db', disk')" "list_all component (ps_frames_root cfg)"
  shows "row_core ` set (fd_frames db) \<subseteq> row_core ` set (fd_frames db') \<and> set disk \<subseteq> set disk' \<and>
    (files_there cfg db disk \<longrightarrow> files_there cfg db' disk')"
proof -
  have "kept cfg (db, disk) st'" if "(keep_step cfg)\<^sup>*\<^sup>* (db, disk) st'" for st'
    using that
  proof (induction rule: rtranclp_induct)
    case base
    then show ?case by (simp add: kept_def)
  next
    case (step y z)
    then show ?case using keep_step_kept [OF step(2) assms(2)] unfolding kept_def by blast
  qed
  from this [OF assms(1)] show ?thesis by (simp add: kept_def)
qed

theorem keep_all_witness:
  "row_core ` set (fd_frames sample_db) \<subseteq> row_core ` set (fd_frames (fst sample_written)) \<and>
   set sample_disk \<subseteq> set (snd sample_written) \<and> files_there sample_cfg (fst sample_written) (snd sample_written)"
proof -
  have "resolve_absolute sample_cfg 1 ''a.jpg'' \<in> set sample_disk" by code_simp
  then have "files_there sample_cfg sample_db sample_disk" by (simp add: files_there_def sample_db_def frame_row_def)
  moreover have "list_all component (ps_frames_root sample_cfg)" by code_simp
  ultimately show ?thesis
    using keep_all [of sample_cfg sample_db sample_disk "fst sample_written" "snd sample_written"] sample_step
    by (simp add: r_into_rtranclp)
qed

section \<open>The permanent delete and its commit\<close>

text \<open>
  A delete request: the checks of the service, the delete in the session of the request, and
  the commit when the request ends.  The second component holds its durable states, oldest
  first: the file goes before the commit.
\<close>

definition get_frame_in_project :: "frame_db \<Rightarrow> int \<Rightarrow> int \<Rightarrow> frame res" where
  "get_frame_in_project db project_id frame_id =
     (case get_frame db frame_id of
        Inl e \<Rightarrow> Inl (HTTPException 404)
      | Inr f \<Rightarrow> if fr_project_id f \<noteq> project_id then Inl (HTTPException 404) else Inr f)"

definition permanent_delete_frame ::
  "realpath_fn \<Rightarrow> stat_fn \<Rightarrow> path_settings \<Rightarrow> bool \<Rightarrow> bool \<Rightarrow> int \<Rightarrow> int \<Rightarrow> int \<Rightarrow> int \<Rightarrow> bool \<Rightarrow>
   frame_db \<times> path list \<Rightarrow> unit res \<times> (frame_db \<times> path list) list" where
  "permanent_delete_frame realpath stat_id cfg unlink_ok commit_ok now project_id frame_id actor confirm st =
     (case st of (db, disk) \<Rightarrow>
      if \<not> confirm then (Inl (HTTPException 422), [(db, disk)])
      else
       (case get_frame_in_project db project_id frame_id of
          Inl e \<Rightarrow> (Inl e, [(db, disk)])
        | Inr f \<Rightarrow>
            (let unlinked = (case delete_target realpath stat_id cfg db f of
                               Inr (Some p) \<Rightarrow> if unlink_ok then filter (\<lambda>q. q \<noteq> p) disk else disk
                             | _ \<Rightarrow> disk)
             in case permanent_delete realpath stat_id cfg unlink_ok now frame_id actor confirm (open_session db, disk) of
                  Inl e \<Rightarrow> (Inl e, [(db, disk), (db, unlinked)])
                | Inr (s, disk') \<Rightarrow>
                    if \<not> commit_ok then (Inl (OSError ''commit''), [(db, disk), (db, unlinked), (db, disk')])
                    else (Inr (), [(db, disk), (db, unlinked), (db, disk'), (fs_db s, disk')]))))"

text \<open>
  So a crash or a failed commit after the unlink leaves the row with no file, for every frame
  whose stored path is the file that is unlinked.
\<close>

lemma unlinked_before_commit:
  assumes "get_frame_in_project db pid i = Inr f" "fr_file_path f = Some stored"
    and "delete_target realpath stat_id cfg db f = Inr (Some (resolve_absolute cfg pid stored))"
  shows "\<exists>st \<in> set (snd (permanent_delete_frame realpath stat_id cfg True commit_ok now pid i a True (db, disk))).
    fst st = db \<and> \<not> files_there cfg (fst st) (snd st)"
proof -
  let ?st = "(db, filter (\<lambda>q. q \<noteq> resolve_absolute cfg pid stored) disk)"
  have f: "f \<in> set (fd_frames db)" "fr_project_id f = pid"
    using assms(1) get_frameD by (auto simp: get_frame_in_project_def split: sum.splits if_splits)
  have "?st \<in> set (snd (permanent_delete_frame realpath stat_id cfg True commit_ok now pid i a True (db, disk)))"
    using assms by (auto simp: permanent_delete_frame_def Let_def split: sum.splits)
  moreover have "\<not> files_there cfg db (filter (\<lambda>q. q \<noteq> resolve_absolute cfg pid stored) disk)"
    using f assms(2) by (auto simp: files_there_def)
  ultimately show ?thesis by force
qed

text \<open>A delete unlinks nothing outside the project's own directories.\<close>

lemma delete_target_contained:
  assumes "delete_target realpath stat_id cfg db f = Inr (Some q)"
  obtains p b where "find_project db (fr_project_id f) = Some p"
    "Some b \<in> {realpath (frame_dir cfg (project_ref_of p)), realpath (ps_frames_root cfg @ [show_int (fr_project_id f)])}"
    "is_within stat_id q b"
proof -
  from assms obtain stored p where p: "find_project db (fr_project_id f) = Some p"
    "resolve_contained_frame_path realpath stat_id cfg (project_ref_of p) stored None = Inr q"
    by (auto simp: delete_target_def split: option.splits sum.splits py_error.splits)
  have i: "pr_id (project_ref_of p) = fr_project_id f" using find_projectD [OF p(1)] by (simp add: project_ref_of_def)
  from contained_within [OF p(2)] show ?thesis using that [OF p(1)] unfolding i by metis
qed

end
