(* ===== verification/Frame_Order.thy ===== *)
theory Frame_Order
  imports Frame_Lifecycle
begin

text \<open>
  The browse order of a project (\<open>storage/frames.py\<close>, the re-sequencing of issues 66, 144, 145
  and 263): the check for a broken order, the renumbering of a suffix in one transaction, and
  the check of the neighbours of the frames a change has moved.

  SQLite applies an update row by row and enforces the unique constraint at each row, in an
  order of its own: an update of many rows takes the order as the argument \<open>scan\<close>.
\<close>

section \<open>Order\<close>

definition breaks_order :: "frame \<Rightarrow> frame \<Rightarrow> bool" where
  "breaks_order prev cur =
     (case fr_capture_timestamp cur of
        None \<Rightarrow> False
      | Some t \<Rightarrow> (case fr_capture_timestamp prev of None \<Rightarrow> True | Some p \<Rightarrow> (t, fr_id cur) < (p, fr_id prev)))"

text \<open>\<open>ORDER BY capture_timestamp IS NULL, capture_timestamp, id\<close>.\<close>

definition time_key :: "frame \<Rightarrow> bool \<times> int \<times> int" where
  "time_key f = (case fr_capture_timestamp f of None \<Rightarrow> (True, 0, fr_id f) | Some t \<Rightarrow> (False, t, fr_id f))"

definition by_sequence :: "frame list \<Rightarrow> frame list" where
  "by_sequence rows = sort_key fr_sequence_index rows"

definition min_of :: "int list \<Rightarrow> int option" where
  "min_of xs = (if xs = [] then None else Some (foldr min xs (hd xs)))"

definition max_of :: "int list \<Rightarrow> int option" where
  "max_of xs = (if xs = [] then None else Some (foldr max xs (hd xs)))"

definition timestamps :: "frame list \<Rightarrow> int list" where
  "timestamps fs = map (the \<circ> fr_capture_timestamp) (filter (\<lambda>f. fr_capture_timestamp f \<noteq> None) fs)"

definition earliest_out_of_order_timestamp :: "frame_db \<Rightarrow> int \<Rightarrow> int option" where
  "earliest_out_of_order_timestamp db project_id =
     (let walk = by_sequence (rows_of db project_id)
      in min_of (timestamps (map snd (filter (\<lambda>(prev, cur). breaks_order prev cur) (zip walk (tl walk))))))"

section \<open>Renumbering a suffix\<close>

definition in_suffix :: "int option \<Rightarrow> frame \<Rightarrow> bool" where
  "in_suffix from_ts f =
     (case from_ts of None \<Rightarrow> True
      | Some bound \<Rightarrow> (case fr_capture_timestamp f of None \<Rightarrow> True | Some t \<Rightarrow> t \<ge> bound))"

definition suffix_start :: "frame_db \<Rightarrow> int \<Rightarrow> int option \<Rightarrow> int" where
  "suffix_start db project_id from_ts =
     (case from_ts of None \<Rightarrow> 1
      | Some bound \<Rightarrow>
          (case max_of (map fr_sequence_index (filter (\<lambda>f. \<not> in_suffix from_ts f) (rows_of db project_id))) of
             None \<Rightarrow> 0 | Some m \<Rightarrow> m) + 1)"

definition set_index :: "int \<times> int \<Rightarrow> frame list \<Rightarrow> frame list res" where
  "set_index a rows =
     (case List.find (\<lambda>f. fr_id f = fst a) rows of
        None \<Rightarrow> Inr rows
      | Some f \<Rightarrow>
          if list_ex (\<lambda>g. fr_id g \<noteq> fst a \<and> fr_project_id g = fr_project_id f \<and> fr_sequence_index g = snd a) rows
          then Inl IntegrityError
          else Inr (map (\<lambda>g. if fr_id g = fst a then g\<lparr>fr_sequence_index := snd a\<rparr> else g) rows))"

fun set_sequence_indexes :: "(int \<times> int) list \<Rightarrow> frame list \<Rightarrow> frame list res" where
  "set_sequence_indexes [] rows = Inr rows"
| "set_sequence_indexes (a # asg) rows = rbind (set_index a rows) (set_sequence_indexes asg)"

definition enumerate_from :: "int \<Rightarrow> 'a list \<Rightarrow> ('a \<times> int) list" where
  "enumerate_from start xs = zip xs (map (\<lambda>k. start + int k) [0..<length xs])"

definition suffix_rows :: "frame_db \<Rightarrow> int \<Rightarrow> int option \<Rightarrow> frame list" where
  "suffix_rows db project_id from_ts = sort_key time_key (filter (in_suffix from_ts) (rows_of db project_id))"

definition resequence_project_from ::
  "(frame list \<Rightarrow> frame list) \<Rightarrow> frame_db \<Rightarrow> int \<Rightarrow> int option \<Rightarrow> (nat \<times> frame_db) res" where
  "resequence_project_from scan db project_id from_ts =
     (let start = suffix_start db project_id from_ts;
          ids = map fr_id (suffix_rows db project_id from_ts)
      in if ids = [] then Inr (0, db)
         else
          (let current_max = the (max_of (map fr_sequence_index (rows_of db project_id)));
               offset = current_max + int (length ids) + 1
           in rbind (set_sequence_indexes
                      (map (\<lambda>f. (fr_id f, fr_sequence_index f + offset)) (scan (filter (in_suffix from_ts) (rows_of db project_id))))
                      (fd_frames db)) (\<lambda>parked.
              rbind (set_sequence_indexes (enumerate_from start ids) parked) (\<lambda>rows.
                Inr (length ids, db\<lparr>fd_frames := rows\<rparr>)))))"

definition resequence_project :: "(frame list \<Rightarrow> frame list) \<Rightarrow> frame_db \<Rightarrow> int \<Rightarrow> (nat \<times> frame_db) res" where
  "resequence_project scan db project_id = resequence_project_from scan db project_id None"

definition renumber_bound :: "frame_db \<Rightarrow> int \<Rightarrow> int list \<Rightarrow> int option" where
  "renumber_bound db project_id imported_ids =
     (let imported_min = (if imported_ids = [] then None
            else min_of (timestamps (filter (\<lambda>f. fr_id f \<in> set imported_ids) (fd_frames db))));
          disorder = earliest_out_of_order_timestamp db project_id
      in min_of (map the (filter (\<lambda>t. t \<noteq> None) [imported_min, disorder])))"

definition resequence_after_import ::
  "(frame list \<Rightarrow> frame list) \<Rightarrow> frame_db \<Rightarrow> int \<Rightarrow> int list \<Rightarrow> (nat \<times> frame_db) res" where
  "resequence_after_import scan db project_id imported_ids =
     (case renumber_bound db project_id imported_ids of
        None \<Rightarrow> Inr (0, db)
      | Some bound \<Rightarrow> resequence_project_from scan db project_id (Some bound))"

section \<open>Neighbours\<close>

definition row_before :: "frame_db \<Rightarrow> int \<Rightarrow> int \<Rightarrow> frame option" where
  "row_before db project_id seq =
     (let rows = by_sequence (filter (\<lambda>f. fr_sequence_index f < seq) (rows_of db project_id))
      in if rows = [] then None else Some (last rows))"

definition row_after :: "frame_db \<Rightarrow> int \<Rightarrow> int \<Rightarrow> frame option" where
  "row_after db project_id seq =
     (let rows = by_sequence (filter (\<lambda>f. fr_sequence_index f > seq) (rows_of db project_id))
      in if rows = [] then None else Some (hd rows))"

fun neighbours_out_of_order :: "frame_db \<Rightarrow> int \<Rightarrow> int list \<Rightarrow> bool" where
  "neighbours_out_of_order db project_id [] = False"
| "neighbours_out_of_order db project_id (frame_id # ids) =
     (case List.find (\<lambda>f. fr_id f = frame_id) (rows_of db project_id) of
        None \<Rightarrow> True
      | Some row \<Rightarrow>
          (case row_before db project_id (fr_sequence_index row) of None \<Rightarrow> False | Some b \<Rightarrow> breaks_order b row) \<or>
          (case row_after db project_id (fr_sequence_index row) of None \<Rightarrow> False | Some a \<Rightarrow> breaks_order row a) \<or>
          neighbours_out_of_order db project_id ids)"

section \<open>Least and greatest\<close>

lemma min_of_None [simp]: "min_of xs = None \<longleftrightarrow> xs = []"
  by (simp add: min_of_def)

lemma foldr_min_in: "foldr min xs (b::int) \<in> insert b (set xs)"
  by (induction xs) (auto simp: min_def)

lemma foldr_min_le: "x \<in> set xs \<Longrightarrow> foldr min xs (b::int) \<le> x" "foldr min xs b \<le> b"
  by (induction xs) auto

lemma foldr_max_in: "foldr max xs (b::int) \<in> insert b (set xs)"
  by (induction xs) (auto simp: max_def)

lemma min_of_SomeD:
  assumes "min_of xs = Some m"
  shows "m \<in> set xs" "\<And>x. x \<in> set xs \<Longrightarrow> m \<le> x"
  using assms foldr_min_in [of xs "hd xs"] foldr_min_le(1) [of _ xs "hd xs"] by (auto simp: min_of_def split: if_splits)

lemma max_of_SomeD:
  assumes "max_of xs = Some m"
  shows "m \<in> set xs" "\<And>x. x \<in> set xs \<Longrightarrow> x \<le> m"
  using assms foldr_max_in [of xs "hd xs"] foldr_max_bounds(1) [of _ xs "hd xs"] by (auto simp: max_of_def split: if_splits)

lemma max_of_None [simp]: "max_of xs = None \<longleftrightarrow> xs = []"
  by (simp add: max_of_def)

section \<open>What an order is\<close>

text \<open>The key the check compares: frames without a timestamp are all last and not compared.\<close>

definition walk_key :: "frame \<Rightarrow> bool \<times> int \<times> int" where
  "walk_key f = (case fr_capture_timestamp f of None \<Rightarrow> (True, 0, 0) | Some t \<Rightarrow> (False, t, fr_id f))"

definition in_order :: "frame list \<Rightarrow> bool" where
  "in_order rows \<longleftrightarrow> sorted (map walk_key (by_sequence rows))"

lemma breaks_order_iff: "breaks_order a b \<longleftrightarrow> walk_key b < walk_key a"
  by (auto simp: breaks_order_def walk_key_def less_prod_def' split: option.splits)

lemma walk_key_mono: "time_key f \<le> time_key g \<Longrightarrow> walk_key f \<le> walk_key g"
  by (auto simp: time_key_def walk_key_def less_eq_prod_def split: option.splits)

lemma set_by_sequence [simp]: "set (by_sequence rows) = set rows" "length (by_sequence rows) = length rows"
  by (simp_all add: by_sequence_def)

lemma sorted_by_sequence: "sorted (map fr_sequence_index (by_sequence rows))"
  by (simp add: by_sequence_def)

lemma distinct_by_sequence: "distinct (map f (by_sequence rows)) = distinct (map f rows)"
proof -
  have "mset (map f (by_sequence rows)) = mset (map f rows)" by (simp add: by_sequence_def)
  then show ?thesis by (rule mset_eq_imp_distinct_iff)
qed

lemma in_order_iff:
  assumes "distinct (map fr_sequence_index rows)"
  shows "in_order rows \<longleftrightarrow>
    (\<forall>f\<in>set rows. \<forall>g\<in>set rows. fr_sequence_index f < fr_sequence_index g \<longrightarrow> walk_key f \<le> walk_key g)"
proof -
  let ?xs = "by_sequence rows"
  have d: "distinct (map fr_sequence_index ?xs)" using assms by (simp add: distinct_by_sequence)
  have seq: "fr_sequence_index (?xs ! i) < fr_sequence_index (?xs ! j) \<longleftrightarrow> i < j" if "i < length ?xs" "j < length ?xs" for i j
  proof -
    have le: "fr_sequence_index (?xs ! i) \<le> fr_sequence_index (?xs ! j)" if "i \<le> j" "j < length ?xs" for i j
      using sorted_nth_mono [OF sorted_by_sequence [of rows], of i j] that by simp
    have ne: "fr_sequence_index (?xs ! i) \<noteq> fr_sequence_index (?xs ! j)" if "i \<noteq> j" "i < length ?xs" "j < length ?xs" for i j
      using d that by (metis distinct_conv_nth length_map nth_map)
    show ?thesis using le [of i j] le [of j i] ne [of i j] that by (cases "i < j"; cases "i = j") fastforce+
  qed
  show ?thesis
  proof
    assume o: "in_order rows"
    show "\<forall>f\<in>set rows. \<forall>g\<in>set rows. fr_sequence_index f < fr_sequence_index g \<longrightarrow> walk_key f \<le> walk_key g"
    proof (intro ballI impI)
      fix f g assume fg: "f \<in> set rows" "g \<in> set rows" "fr_sequence_index f < fr_sequence_index g"
      then obtain i j where ij: "i < length ?xs" "j < length ?xs" "f = ?xs ! i" "g = ?xs ! j"
        by (metis in_set_conv_nth set_by_sequence(1))
      then have "i < j" using seq fg(3) by simp
      then show "walk_key f \<le> walk_key g"
        using o ij sorted_nth_mono [of "map walk_key ?xs" i j] by (simp add: in_order_def)
    qed
  next
    assume a: "\<forall>f\<in>set rows. \<forall>g\<in>set rows. fr_sequence_index f < fr_sequence_index g \<longrightarrow> walk_key f \<le> walk_key g"
    have "walk_key (?xs ! i) \<le> walk_key (?xs ! j)" if "i < j" "j < length ?xs" for i j
      using a seq [of i j] that nth_mem [of i ?xs] nth_mem [of j ?xs] by (auto simp del: nth_mem)
    then show "in_order rows"
      unfolding in_order_def sorted_iff_nth_mono_less by simp
  qed
qed

section \<open>The check\<close>

text \<open>
  Between an inverted pair there is a row that sorts below its predecessor and not above the
  second of the pair.
\<close>

lemma inversion_flagged:
  fixes key :: "'a \<Rightarrow> 'b::linorder"
  assumes "i < j" "j < length xs" "key (xs ! j) < key (xs ! i)"
  obtains k where "Suc k < length xs" "key (xs ! Suc k) < key (xs ! k)" "key (xs ! Suc k) \<le> key (xs ! j)"
proof -
  define p where "p = (LEAST p. i < p \<and> key (xs ! p) \<le> key (xs ! j))"
  have p: "i < p \<and> key (xs ! p) \<le> key (xs ! j)" unfolding p_def by (rule LeastI [of _ j]) (use assms in simp)
  have min: "p \<le> q" if "i < q" "key (xs ! q) \<le> key (xs ! j)" for q unfolding p_def by (rule Least_le) (use that in simp)
  obtain k where k: "p = Suc k" using p by (cases p) auto
  have "key (xs ! j) < key (xs ! k)"
  proof (cases "k = i")
    case True
    then show ?thesis using assms(3) by simp
  next
    case False
    then show ?thesis using min [of k] p k by force
  qed
  moreover have "p \<le> j" by (rule min) (use assms in auto)
  ultimately show ?thesis using that [of k] p k assms(2) by fastforce
qed

definition flagged :: "frame list \<Rightarrow> frame list" where
  "flagged walk = map snd (filter (\<lambda>(prev, cur). breaks_order prev cur) (zip walk (tl walk)))"

lemma flagged_iff: "f \<in> set (flagged walk) \<longleftrightarrow> (\<exists>k. Suc k < length walk \<and> f = walk ! Suc k \<and> walk_key f < walk_key (walk ! k))"
proof
  assume "f \<in> set (flagged walk)"
  then obtain a where "(a, f) \<in> set (zip walk (tl walk))" "breaks_order a f" by (auto simp: flagged_def)
  then show "\<exists>k. Suc k < length walk \<and> f = walk ! Suc k \<and> walk_key f < walk_key (walk ! k)"
    by (auto simp: in_set_zip nth_tl breaks_order_iff less_diff_conv)
next
  assume "\<exists>k. Suc k < length walk \<and> f = walk ! Suc k \<and> walk_key f < walk_key (walk ! k)"
  then obtain k where k: "Suc k < length walk" "f = walk ! Suc k" "walk_key f < walk_key (walk ! k)" by blast
  then have "(walk ! k, f) \<in> set (zip walk (tl walk))" by (auto simp: in_set_zip nth_tl intro!: exI [of _ k])
  with k show "f \<in> set (flagged walk)" by (force simp: flagged_def breaks_order_iff)
qed

lemma flagged_timed: "f \<in> set (flagged walk) \<Longrightarrow> fr_capture_timestamp f \<noteq> None"
  by (auto simp: flagged_def breaks_order_def split: option.splits)

lemma earliest_eq: "earliest_out_of_order_timestamp db p = min_of (timestamps (flagged (by_sequence (rows_of db p))))"
  by (simp add: earliest_out_of_order_timestamp_def flagged_def Let_def)

lemma timestamps_flagged: "timestamps (flagged walk) = map (the \<circ> fr_capture_timestamp) (flagged walk)"
proof -
  have "filter (\<lambda>f. fr_capture_timestamp f \<noteq> None) (flagged walk) = flagged walk"
    by (rule filter_True) (simp add: flagged_timed)
  then show ?thesis by (simp add: timestamps_def)
qed

lemma walk_key_le_timed:
  "walk_key f \<le> walk_key g \<Longrightarrow> fr_capture_timestamp g = Some t \<Longrightarrow> \<exists>s. fr_capture_timestamp f = Some s \<and> s \<le> t"
  by (auto simp: walk_key_def less_eq_prod_def split: option.splits)

text \<open>The check answers nothing exactly when the order holds.\<close>

lemma earliest_None_iff: "earliest_out_of_order_timestamp db p = None \<longleftrightarrow> in_order (rows_of db p)"
proof -
  let ?xs = "by_sequence (rows_of db p)"
  have "earliest_out_of_order_timestamp db p = None \<longleftrightarrow> (\<forall>k. Suc k < length ?xs \<longrightarrow> \<not> walk_key (?xs ! Suc k) < walk_key (?xs ! k))"
    unfolding earliest_eq timestamps_flagged min_of_None map_is_Nil_conv
    by (metis flagged_iff list.set_intros(1) neq_Nil_conv empty_iff empty_set)
  also have "\<dots> \<longleftrightarrow> in_order (rows_of db p)"
    unfolding in_order_def sorted_iff_nth_Suc by (auto simp: not_less)
  finally show ?thesis .
qed

text \<open>Its answer is at or before the second row of any inverted pair.\<close>

lemma earliest_bound:
  assumes d: "distinct (map fr_sequence_index (rows_of db p))"
    and fg: "f \<in> set (rows_of db p)" "g \<in> set (rows_of db p)" "fr_sequence_index f < fr_sequence_index g" "walk_key g < walk_key f"
  obtains e t where "earliest_out_of_order_timestamp db p = Some e" "fr_capture_timestamp g = Some t" "e \<le> t"
proof -
  let ?xs = "by_sequence (rows_of db p)"
  obtain i j where ij: "i < length ?xs" "j < length ?xs" "f = ?xs ! i" "g = ?xs ! j"
    using fg(1,2) by (metis in_set_conv_nth set_by_sequence(1))
  have "\<not> j \<le> i"
  proof
    assume "j \<le> i"
    then have "fr_sequence_index g \<le> fr_sequence_index f"
      using sorted_nth_mono [OF sorted_by_sequence [of "rows_of db p"], of j i] ij by simp
    then show False using fg(3) by simp
  qed
  then obtain k where k: "Suc k < length ?xs" "walk_key (?xs ! Suc k) < walk_key (?xs ! k)" "walk_key (?xs ! Suc k) \<le> walk_key g"
    using inversion_flagged [of i j ?xs walk_key] ij fg(4) by (metis not_le)
  let ?h = "?xs ! Suc k"
  have h: "?h \<in> set (flagged ?xs)" using k by (auto simp: flagged_iff)
  obtain t where t: "fr_capture_timestamp g = Some t" using fg(4) by (auto simp: walk_key_def less_prod_def' split: option.splits)
  obtain s where s: "fr_capture_timestamp ?h = Some s" "s \<le> t" using walk_key_le_timed [OF k(3) t] by blast
  have mem: "s \<in> set (timestamps (flagged ?xs))" using h s(1) by (force simp: timestamps_flagged)
  then obtain e where e: "earliest_out_of_order_timestamp db p = Some e" unfolding earliest_eq
    by (metis empty_iff empty_set min_of_None not_Some_eq)
  show ?thesis using that [OF e t] min_of_SomeD(2) [OF e [unfolded earliest_eq] mem] s(2) by simp
qed

section \<open>Writing indexes\<close>

definition reindexed :: "(int \<Rightarrow> int option) \<Rightarrow> frame \<Rightarrow> frame" where
  "reindexed m f = (case m (fr_id f) of None \<Rightarrow> f | Some n \<Rightarrow> f\<lparr>fr_sequence_index := n\<rparr>)"

definition index_under :: "(int \<Rightarrow> int option) \<Rightarrow> frame \<Rightarrow> int" where
  "index_under m f = (case m (fr_id f) of None \<Rightarrow> fr_sequence_index f | Some n \<Rightarrow> n)"

lemma reindexed_simps [simp]:
  "fr_id (reindexed m f) = fr_id f" "fr_project_id (reindexed m f) = fr_project_id f"
  "fr_capture_timestamp (reindexed m f) = fr_capture_timestamp f"
  "fr_sequence_index (reindexed m f) = index_under m f"
  "walk_key (reindexed m f) = walk_key f" "time_key (reindexed m f) = time_key f"
  "(reindexed m f)\<lparr>fr_sequence_index := n\<rparr> = f\<lparr>fr_sequence_index := n\<rparr>"
  by (simp_all add: reindexed_def index_under_def walk_key_def time_key_def split: option.splits)

lemma reindexed_none [simp]: "m (fr_id f) = None \<Longrightarrow> reindexed m f = f"
  by (simp add: reindexed_def)

lemma reindexed_twice: "reindexed m (reindexed m' f) = reindexed (m' ++ m) f"
  by (auto simp: reindexed_def map_add_def split: option.splits)

lemma index_under_twice: "index_under m (reindexed m' f) = index_under (m' ++ m) f"
  by (auto simp: reindexed_def index_under_def map_add_def split: option.splits)

text \<open>
  A list of writes succeeds when each lands on a slot that no other row of the project has at
  that moment; then every row named has its new index.
\<close>

lemma set_indexes_reindex:
  assumes "distinct (map fst asg)"
    and "\<And>i f. i \<in> fst ` set asg \<Longrightarrow> f \<in> set rows \<Longrightarrow> fr_id f = i \<Longrightarrow> fr_project_id f = p"
    and "\<And>k g. k < length asg \<Longrightarrow> g \<in> set rows \<Longrightarrow> fr_project_id g = p \<Longrightarrow> fr_id g \<noteq> fst (asg ! k) \<Longrightarrow>
      index_under (map_of (take k asg)) g \<noteq> snd (asg ! k)"
  shows "set_sequence_indexes asg rows = Inr (map (reindexed (map_of asg)) rows)"
  using assms
proof (induction asg arbitrary: rows)
  case Nil
  then show ?case by (simp add: reindexed_def)
next
  case (Cons a asg)
  obtain i n where a: "a = (i, n)" by (cases a)
  let ?rows1 = "map (reindexed [i \<mapsto> n]) rows"
  have pid: "fr_project_id f = p" if "f \<in> set rows" "fr_id f = i" for f using Cons.prems(2) [of i f] that a by simp
  have free: "\<not> list_ex (\<lambda>g. fr_id g \<noteq> i \<and> fr_project_id g = p \<and> fr_sequence_index g = n) rows"
    using Cons.prems(3) [of 0] a by (auto simp: list_ex_iff index_under_def)
  have upd: "map (\<lambda>g. if fr_id g = i then g\<lparr>fr_sequence_index := n\<rparr> else g) rows = ?rows1"
    by (auto simp: reindexed_def)
  have step: "set_index a rows = Inr ?rows1"
  proof (cases "List.find (\<lambda>f. fr_id f = i) rows")
    case None
    then have "?rows1 = rows" by (auto simp: find_None_iff reindexed_def map_idI)
    then show ?thesis using None by (simp add: set_index_def a)
  next
    case (Some f)
    then have "fr_project_id f = p" using pid by (auto simp: find_Some_iff)
    then show ?thesis using Some free by (simp add: set_index_def a upd [symmetric])
  qed
  have i: "i \<notin> fst ` set asg" using Cons.prems(1) a by simp
  have map: "[i \<mapsto> n] ++ map_of xs = map_of ((i, n) # xs)" if "set xs \<subseteq> set asg" for xs
  proof -
    have "map_of xs i = None" using i that by (auto simp: map_of_eq_None_iff)
    then show ?thesis by (auto simp: map_add_def fun_eq_iff split: option.splits)
  qed
  have "set_sequence_indexes asg ?rows1 = Inr (map (reindexed (map_of asg)) ?rows1)"
  proof (rule Cons.IH)
    show "distinct (map fst asg)" using Cons.prems(1) a by simp
    fix j f assume jf: "j \<in> fst ` set asg" "f \<in> set ?rows1" "fr_id f = j"
    then obtain f0 where "f0 \<in> set rows" "f = reindexed [i \<mapsto> n] f0" by auto
    then show "fr_project_id f = p" using Cons.prems(2) [of j f0] jf(1,3) by simp
  next
    fix k g assume g: "k < length asg" "g \<in> set ?rows1" "fr_project_id g = p" "fr_id g \<noteq> fst (asg ! k)"
    then obtain g0 where g0: "g0 \<in> set rows" "g = reindexed [i \<mapsto> n] g0" by auto
    have "index_under (map_of (take (Suc k) (a # asg))) g0 \<noteq> snd (asg ! k)"
      using Cons.prems(3) [of "Suc k" g0] g g0 by (simp add: fun_upd_def)
    moreover have "index_under (map_of (take k asg)) g = index_under (map_of (take (Suc k) (a # asg))) g0"
      unfolding g0(2) index_under_twice using map [OF set_take_subset] by (simp add: a)
    ultimately show "index_under (map_of (take k asg)) g \<noteq> snd (asg ! k)" by simp
  qed
  then show ?case using step map [OF order_refl] by (simp add: reindexed_twice comp_def a fun_upd_def)
qed

text \<open>The two uses: targets free from the start, and targets that move rows down in order.\<close>

lemma set_indexes_free:
  assumes "distinct (map fst asg)" "distinct (map snd asg)"
    and "\<And>i f. i \<in> fst ` set asg \<Longrightarrow> f \<in> set rows \<Longrightarrow> fr_id f = i \<Longrightarrow> fr_project_id f = p"
    and "\<And>n g. n \<in> snd ` set asg \<Longrightarrow> g \<in> set rows \<Longrightarrow> fr_project_id g = p \<Longrightarrow> fr_sequence_index g \<noteq> n"
  shows "set_sequence_indexes asg rows = Inr (map (reindexed (map_of asg)) rows)"
proof (rule set_indexes_reindex [OF assms(1,3)])
  fix k g assume g: "k < length asg" "g \<in> set rows" "fr_project_id g = p" "fr_id g \<noteq> fst (asg ! k)"
  show "index_under (map_of (take k asg)) g \<noteq> snd (asg ! k)"
  proof (cases "map_of (take k asg) (fr_id g)")
    case None
    then show ?thesis using assms(4) [of "snd (asg ! k)" g] g by (simp add: index_under_def)
  next
    case (Some n)
    then obtain j where j: "j < k" "asg ! j = (fr_id g, n)" using g(1)
      by (metis in_set_conv_nth length_take map_of_SomeD min_less_iff_conj nth_take)
    have "map snd asg ! j \<noteq> map snd asg ! k" using assms(2) g(1) j(1) by (simp add: nth_eq_iff_index_eq del: nth_map)
    then show ?thesis using Some j g(1) by (simp add: index_under_def)
  qed
qed

lemma enumerate_from_facts:
  "map fst (enumerate_from start xs) = xs" "length (enumerate_from start xs) = length xs"
  "k < length xs \<Longrightarrow> enumerate_from start xs ! k = (xs ! k, start + int k)"
  "map snd (enumerate_from start xs) = map (\<lambda>k. start + int k) [0..<length xs]"
  by (simp_all add: enumerate_from_def)

lemma map_of_enumerate:
  assumes "distinct xs" "k < length xs"
  shows "map_of (enumerate_from start xs) (xs ! k) = Some (start + int k)"
proof (rule map_of_is_SomeI)
  show "distinct (map fst (enumerate_from start xs))" using assms(1) by (simp only: enumerate_from_facts)
  show "(xs ! k, start + int k) \<in> set (enumerate_from start xs)"
    using enumerate_from_facts(2) [of start xs] enumerate_from_facts(3) [OF assms(2), of start] assms(2) nth_mem by metis
qed

lemma map_of_enumerate_None: "i \<notin> set xs \<Longrightarrow> map_of (enumerate_from start xs) i = None"
  by (simp add: map_of_eq_None_iff enumerate_from_facts(1) flip: set_map)

section \<open>The renumbered table\<close>

lemma rows_of_facts:
  assumes "frames_wf db"
  shows "distinct (map fr_id (rows_of db p))" "distinct (map fr_sequence_index (rows_of db p))"
    "\<And>f. f \<in> set (rows_of db p) \<Longrightarrow> f \<in> set (fd_frames db) \<and> fr_project_id f = p \<and> 1 \<le> fr_sequence_index f"
proof -
  show "distinct (map fr_id (rows_of db p))"
    unfolding rows_of_def by (rule distinct_map_filter [OF frames_wfD(1) [OF assms]])
  have "distinct (map slot (rows_of db p))"
    unfolding rows_of_def by (rule distinct_map_filter [OF frames_wfD(3) [OF assms]])
  then show "distinct (map fr_sequence_index (rows_of db p))"
    by (auto simp: distinct_map inj_on_def slot_def rows_of_def)
  show "f \<in> set (fd_frames db) \<and> fr_project_id f = p \<and> 1 \<le> fr_sequence_index f" if "f \<in> set (rows_of db p)" for f
    using that frames_wfD(4) [OF assms] by (auto simp: rows_of_def)
qed

lemma id_inj:
  assumes "distinct (map fr_id rows)" "f \<in> set rows" "g \<in> set rows" "fr_id f = fr_id g"
  shows "f = g"
  using assms by (auto simp: distinct_map dest: inj_onD)

lemma seq_inj:
  assumes "distinct (map fr_sequence_index rows)" "f \<in> set rows" "g \<in> set rows" "fr_sequence_index f = fr_sequence_index g"
  shows "f = g"
  using assms by (auto simp: distinct_map dest: inj_onD)

definition with_indexes :: "(int \<Rightarrow> int option) \<Rightarrow> frame_db \<Rightarrow> frame_db" where
  "with_indexes m db = db\<lparr>fd_frames := map (reindexed m) (fd_frames db)\<rparr>"

lemma with_indexes_simps [simp]:
  "fd_frames (with_indexes m db) = map (reindexed m) (fd_frames db)" "fd_projects (with_indexes m db) = fd_projects db"
  "fd_last_id (with_indexes m db) = fd_last_id db" "rows_of (with_indexes m db) p = map (reindexed m) (rows_of db p)"
  by (simp_all add: with_indexes_def rows_of_def filter_map comp_def)

lemma with_indexes_wf:
  assumes wf: "frames_wf db"
    and own: "\<And>f. f \<in> set (fd_frames db) \<Longrightarrow> fr_project_id f \<noteq> p \<Longrightarrow> m (fr_id f) = None"
    and inj: "inj_on (index_under m) (set (rows_of db p))"
    and pos: "\<And>f. f \<in> set (rows_of db p) \<Longrightarrow> 1 \<le> index_under m f"
  shows "frames_wf (with_indexes m db)"
proof (rule frames_wfI)
  note d = frames_wfD [OF wf]
  have ids: "fr_id \<circ> reindexed m = fr_id" by (simp add: fun_eq_iff)
  show "distinct (map fr_id (fd_frames (with_indexes m db)))" using d(1) by (simp add: ids)
  have mine: "f \<in> set (rows_of db p) \<longleftrightarrow> f \<in> set (fd_frames db) \<and> fr_project_id f = p" for f by (auto simp: rows_of_def)
  have same: "f = g" if "f \<in> set (fd_frames db)" "g \<in> set (fd_frames db)" "slot (reindexed m f) = slot (reindexed m g)" for f g
  proof (cases "fr_project_id f = p")
    case True
    then show ?thesis using that inj mine by (auto simp: slot_def inj_on_def)
  next
    case False
    then have "slot f = slot g" using that own [of f] own [of g] by (auto simp: slot_def index_under_def)
    then show ?thesis using d(3) that(1,2) by (auto simp: distinct_map dest: inj_onD)
  qed
  then have "inj_on (slot \<circ> reindexed m) (set (fd_frames db))" by (simp add: inj_on_def)
  moreover have "distinct (fd_frames db)" using d(1) by (simp add: distinct_map)
  ultimately show "distinct (map slot (fd_frames (with_indexes m db)))" by (simp add: distinct_map)
  show "1 \<le> fr_sequence_index f" if f: "f \<in> set (fd_frames (with_indexes m db))" for f
  proof -
    obtain g where g: "g \<in> set (fd_frames db)" "f = reindexed m g" using f by auto
    show ?thesis using pos [of g] own [of g] d(4) [of g] g mine by (cases "fr_project_id g = p") (auto simp: index_under_def)
  qed
  show "fp_frame_count q = int (length (rows_of (with_indexes m db) (fp_id q)))" if "q \<in> set (fd_projects (with_indexes m db))" for q
    using that d(6) [of q] by simp
qed (use frames_wfD [OF wf] in auto)

lemma suffix_start_facts:
  assumes wf: "frames_wf db"
  shows "f \<in> set (rows_of db p) \<Longrightarrow> \<not> in_suffix b f \<Longrightarrow> fr_sequence_index f < suffix_start db p b"
    and "1 \<le> suffix_start db p b"
    and "max_of (map fr_sequence_index (rows_of db p)) = Some m \<Longrightarrow> suffix_start db p b \<le> m + 1"
proof -
  let ?pre = "map fr_sequence_index (filter (\<lambda>f. \<not> in_suffix b f) (rows_of db p))"
  have st: "suffix_start db p b = (case max_of ?pre of None \<Rightarrow> 0 | Some m \<Rightarrow> m) + 1"
    by (cases b) (simp_all add: suffix_start_def in_suffix_def max_of_def)
  show "fr_sequence_index f < suffix_start db p b" if "f \<in> set (rows_of db p)" "\<not> in_suffix b f"
  proof -
    have mem: "fr_sequence_index f \<in> set ?pre" using that by auto
    then obtain k where k: "max_of ?pre = Some k" by (metis empty_iff empty_set max_of_None not_Some_eq)
    show ?thesis using max_of_SomeD(2) [OF k mem] k st by simp
  qed
  show "1 \<le> suffix_start db p b"
  proof (cases "max_of ?pre")
    case (Some k)
    then have "k \<in> set ?pre" by (rule max_of_SomeD(1))
    then obtain f where "f \<in> set (rows_of db p)" "k = fr_sequence_index f" by auto
    then show ?thesis using Some st rows_of_facts(3) [OF wf, of f p] by simp
  qed (simp add: st max_of_def)
  show "suffix_start db p b \<le> m + 1" if m: "max_of (map fr_sequence_index (rows_of db p)) = Some m"
  proof (cases "max_of ?pre")
    case (Some k)
    then have "k \<in> set ?pre" by (rule max_of_SomeD(1))
    then have "k \<le> m" using max_of_SomeD(2) [OF m] by auto
    then show ?thesis using Some st by simp
  next
    case None
    have "m \<in> set (map fr_sequence_index (rows_of db p))" using m by (rule max_of_SomeD(1))
    then obtain f where "f \<in> set (rows_of db p)" "m = fr_sequence_index f" by auto
    then show ?thesis using None st rows_of_facts(3) [OF wf, of f p] by (simp add: max_of_def)
  qed
qed

lemma suffix_rows_facts:
  assumes "frames_wf db"
  shows "set (suffix_rows db p b) = {f \<in> set (rows_of db p). in_suffix b f}" "distinct (map fr_id (suffix_rows db p b))"
    "sorted (map time_key (suffix_rows db p b))"
proof -
  show "set (suffix_rows db p b) = {f \<in> set (rows_of db p). in_suffix b f}" by (auto simp: suffix_rows_def)
  have "mset (map fr_id (suffix_rows db p b)) = mset (map fr_id (filter (in_suffix b) (rows_of db p)))"
    by (simp add: suffix_rows_def)
  moreover have "distinct (map fr_id (filter (in_suffix b) (rows_of db p)))"
    using rows_of_facts(1) [OF assms] by (rule distinct_map_filter)
  ultimately show "distinct (map fr_id (suffix_rows db p b))" using mset_eq_imp_distinct_iff by blast
  show "sorted (map time_key (suffix_rows db p b))" by (simp add: suffix_rows_def)
qed

text \<open>The indexes a renumber gives: the suffix from its start, in order of time.\<close>

definition renumbering :: "frame_db \<Rightarrow> int \<Rightarrow> int option \<Rightarrow> int \<Rightarrow> int option" where
  "renumbering db p b = map_of (enumerate_from (suffix_start db p b) (map fr_id (suffix_rows db p b)))"

lemma renumbering_nth:
  assumes "frames_wf db" "k < length (suffix_rows db p b)"
  shows "renumbering db p b (fr_id (suffix_rows db p b ! k)) = Some (suffix_start db p b + int k)"
  unfolding renumbering_def
  using map_of_enumerate [OF suffix_rows_facts(2) [OF assms(1)], of k "p" b "suffix_start db p b"] assms(2) by simp

lemma renumbering_suffix:
  assumes wf: "frames_wf db" and f: "f \<in> set (rows_of db p)" "in_suffix b f"
  obtains k where "k < length (suffix_rows db p b)" "suffix_rows db p b ! k = f"
    "renumbering db p b (fr_id f) = Some (suffix_start db p b + int k)"
proof -
  have "f \<in> set (suffix_rows db p b)" using f suffix_rows_facts(1) [OF wf, of p b] by simp
  then obtain k where k: "k < length (suffix_rows db p b)" "suffix_rows db p b ! k = f" by (meson in_set_conv_nth)
  with renumbering_nth [OF wf k(1)] that show ?thesis by blast
qed

lemma renumbering_None:
  assumes wf: "frames_wf db" and f: "f \<in> set (fd_frames db)" "fr_project_id f \<noteq> p \<or> \<not> in_suffix b f"
  shows "renumbering db p b (fr_id f) = None"
proof -
  have "fr_id f \<notin> set (map fr_id (suffix_rows db p b))"
  proof
    assume "fr_id f \<in> set (map fr_id (suffix_rows db p b))"
    then obtain g where "g \<in> set (suffix_rows db p b)" "fr_id g = fr_id f" by auto
    then have g: "g \<in> set (rows_of db p)" "in_suffix b g" "fr_id g = fr_id f" using suffix_rows_facts(1) [OF wf, of p b] by auto
    then have "g = f" using id_inj [OF frames_wfD(1) [OF wf], of g f] f(1) rows_of_facts(3) [OF wf] by blast
    then show False using g f(2) rows_of_facts(3) [OF wf] by blast
  qed
  then show ?thesis unfolding renumbering_def by (rule map_of_enumerate_None)
qed

lemma renumbering_index:
  assumes wf: "frames_wf db" and f: "f \<in> set (rows_of db p)"
  shows "in_suffix b f \<Longrightarrow> suffix_start db p b \<le> index_under (renumbering db p b) f"
    and "\<not> in_suffix b f \<Longrightarrow> index_under (renumbering db p b) f = fr_sequence_index f"
proof -
  show "suffix_start db p b \<le> index_under (renumbering db p b) f" if "in_suffix b f"
    by (rule renumbering_suffix [OF wf f that]) (simp add: index_under_def)
  show "index_under (renumbering db p b) f = fr_sequence_index f" if "\<not> in_suffix b f"
    using renumbering_None [OF wf, of f p b] rows_of_facts(3) [OF wf f] that by (simp add: index_under_def)
qed

lemma renumbering_time:
  assumes wf: "frames_wf db" and f: "f \<in> set (rows_of db p)" "in_suffix b f" and g: "g \<in> set (rows_of db p)" "in_suffix b g"
    and "index_under (renumbering db p b) f \<le> index_under (renumbering db p b) g"
  shows "time_key f \<le> time_key g"
proof -
  obtain i where i: "i < length (suffix_rows db p b)" "suffix_rows db p b ! i = f"
    "renumbering db p b (fr_id f) = Some (suffix_start db p b + int i)" by (rule renumbering_suffix [OF wf f])
  obtain j where j: "j < length (suffix_rows db p b)" "suffix_rows db p b ! j = g"
    "renumbering db p b (fr_id g) = Some (suffix_start db p b + int j)" by (rule renumbering_suffix [OF wf g])
  have "i \<le> j" using assms(6) i(3) j(3) by (simp add: index_under_def)
  with sorted_nth_mono [OF suffix_rows_facts(3) [OF wf], of i j p b] i j show ?thesis by simp
qed

lemma renumbering_inj:
  assumes wf: "frames_wf db"
  shows "inj_on (index_under (renumbering db p b)) (set (rows_of db p))"
proof (rule inj_onI)
  fix f g assume fg: "f \<in> set (rows_of db p)" "g \<in> set (rows_of db p)"
    "index_under (renumbering db p b) f = index_under (renumbering db p b) g"
  show "f = g"
  proof (cases "in_suffix b f = in_suffix b g")
    case True
    show ?thesis
    proof (cases "in_suffix b f")
      case True
      with \<open>in_suffix b f = in_suffix b g\<close> fg have "time_key f = time_key g"
        using renumbering_time [OF wf, of f p b g] renumbering_time [OF wf, of g p b f] by fastforce
      then have "fr_id f = fr_id g" by (auto simp: time_key_def split: option.splits)
      then show ?thesis using id_inj [OF rows_of_facts(1) [OF wf]] fg(1,2) by blast
    next
      case False
      with True fg have "fr_sequence_index f = fr_sequence_index g" using renumbering_index(2) [OF wf] by metis
      then show ?thesis using seq_inj [OF rows_of_facts(2) [OF wf]] fg(1,2) by blast
    qed
  next
    case False
    then show ?thesis
      using fg renumbering_index [OF wf fg(1), of b] renumbering_index [OF wf fg(2), of b]
        suffix_start_facts(1) [OF wf fg(1), of b] suffix_start_facts(1) [OF wf fg(2), of b] by fastforce
  qed
qed

lemma renumbering_wf:
  assumes "frames_wf db"
  shows "frames_wf (with_indexes (renumbering db p b) db)"
proof (rule with_indexes_wf [OF assms _ renumbering_inj [OF assms]])
  show "renumbering db p b (fr_id f) = None" if "f \<in> set (fd_frames db)" "fr_project_id f \<noteq> p" for f
    using renumbering_None [OF assms that(1)] that(2) by blast
  show "1 \<le> index_under (renumbering db p b) f" if "f \<in> set (rows_of db p)" for f
    using renumbering_index [OF assms that, of b] suffix_start_facts(2) [OF assms, of p b] rows_of_facts(3) [OF assms that]
    by (cases "in_suffix b f") auto
qed

lemma mset_set_eq: "mset xs = mset ys \<Longrightarrow> set xs = set ys"
  by (metis set_mset_mset)

lemma map_add_overwritten: "dom m \<subseteq> dom m' \<Longrightarrow> m ++ m' = m'"
  by (rule ext) (auto simp: map_add_def domIff subset_iff split: option.splits)

lemma resequence_from_result:
  assumes wf: "frames_wf db" and scan: "\<And>xs. mset (scan xs) = mset xs"
  shows "resequence_project_from scan db p b =
    Inr (length (suffix_rows db p b), with_indexes (renumbering db p b) db)"
proof (cases "suffix_rows db p b = []")
  case True
  then have "renumbering db p b = Map.empty" by (simp add: renumbering_def enumerate_from_def)
  then have "with_indexes (renumbering db p b) db = db" by (simp add: with_indexes_def map_idI)
  then show ?thesis using True by (simp add: resequence_project_from_def)
next
  case False
  let ?S = "filter (in_suffix b) (rows_of db p)"
  let ?ids = "map fr_id (suffix_rows db p b)"
  let ?rows = "fd_frames db"
  define m where "m = the (max_of (map fr_sequence_index (rows_of db p)))"
  define offset where "offset = m + int (length ?ids) + 1"
  let ?park = "map (\<lambda>f. (fr_id f, fr_sequence_index f + offset)) (scan ?S)"
  have "rows_of db p \<noteq> []" using False by (auto simp: suffix_rows_def)
  then obtain m' where "max_of (map fr_sequence_index (rows_of db p)) = Some m'"
    using max_of_None [of "map fr_sequence_index (rows_of db p)"] by fastforce
  then have max: "max_of (map fr_sequence_index (rows_of db p)) = Some m" by (simp add: m_def)
  have le_m: "fr_sequence_index f \<le> m" if "f \<in> set (rows_of db p)" for f using max_of_SomeD(2) [OF max] that by simp
  have setS: "set (scan ?S) = set ?S" using scan [of ?S] by (rule mset_set_eq)
  have dS: "distinct (map fr_id (scan ?S))" "distinct (map fr_sequence_index (scan ?S))"
    using distinct_map_filter [OF rows_of_facts(1) [OF wf, of p], of "in_suffix b"]
      distinct_map_filter [OF rows_of_facts(2) [OF wf, of p], of "in_suffix b"] scan [of ?S]
    by (metis mset_eq_imp_distinct_iff mset_map)+
  have own: "fr_project_id f = p" if "g \<in> set (rows_of db p)" "f \<in> set ?rows" "fr_id f = fr_id g" for f g
    using id_inj [OF frames_wfD(1) [OF wf], of f g] that rows_of_facts(3) [OF wf that(1)] by simp
  have mine: "f \<in> set (rows_of db p)" if "f \<in> set ?rows" "fr_project_id f = p" for f using that by (simp add: rows_of_def)
  have offset: "offset \<ge> m + 1" by (simp add: offset_def)
  have park: "set_sequence_indexes ?park ?rows = Inr (map (reindexed (map_of ?park)) ?rows)"
  proof (rule set_indexes_free)
    show "distinct (map fst ?park)" using dS(1) by (simp add: comp_def)
    have "distinct (map (\<lambda>n. n + offset) (map fr_sequence_index (scan ?S)))" using dS(2) by (simp add: distinct_map inj_on_def)
    then show "distinct (map snd ?park)" by (simp add: comp_def)
    fix i f assume "i \<in> fst ` set ?park" "f \<in> set ?rows" "fr_id f = i"
    then show "fr_project_id f = p" using own setS by auto
  next
    fix n g assume g: "n \<in> snd ` set ?park" "g \<in> set ?rows" "fr_project_id g = p"
    then obtain f where "f \<in> set (rows_of db p)" "n = fr_sequence_index f + offset" using setS by auto
    then show "fr_sequence_index g \<noteq> n" using le_m [OF mine [OF g(2,3)]] rows_of_facts(3) [OF wf] offset by fastforce
  qed
  let ?m1 = "map_of ?park"
  have m1: "?m1 (fr_id f) = Some (fr_sequence_index f + offset)" if "f \<in> set ?S" for f
    by (rule map_of_is_SomeI) (use that setS dS(1) in \<open>auto simp: comp_def\<close>)
  have dom1: "dom ?m1 = set ?ids" using setS by (force simp: dom_map_of_conv_image_fst image_image suffix_rows_def)
  let ?asg = "enumerate_from (suffix_start db p b) ?ids"
  let ?parked = "map (reindexed ?m1) ?rows"
  have start: "suffix_start db p b \<le> m + 1" by (rule suffix_start_facts(3) [OF wf max])
  have assign: "set_sequence_indexes ?asg ?parked = Inr (map (reindexed (map_of ?asg)) ?parked)"
  proof (rule set_indexes_free)
    show "distinct (map fst ?asg)" using suffix_rows_facts(2) [OF wf, of p b] by (simp only: enumerate_from_facts)
    show "distinct (map snd ?asg)" unfolding enumerate_from_facts(4) by (simp add: distinct_map inj_on_def)
    fix i f assume fi: "i \<in> fst ` set ?asg" "f \<in> set ?parked" "fr_id f = i"
    obtain f0 where f0: "f0 \<in> set ?rows" "f = reindexed ?m1 f0" using fi(2) by auto
    have "i \<in> set ?ids" using fi(1) by (simp only: enumerate_from_facts(1) flip: set_map)
    then obtain g where "g \<in> set (rows_of db p)" "fr_id g = i" using suffix_rows_facts(1) [OF wf, of p b] by auto
    then show "fr_project_id f = p" using own [of g f0] f0 fi(3) by simp
  next
    fix n g assume n: "n \<in> snd ` set ?asg" and g: "g \<in> set ?parked" "fr_project_id g = p"
    obtain g0 where g0: "g0 \<in> set ?rows" "g = reindexed ?m1 g0" using g(1) by auto
    then have g0p: "g0 \<in> set (rows_of db p)" using mine g(2) by simp
    have nr: "suffix_start db p b \<le> n" "n < suffix_start db p b + int (length ?ids)"
      using n [folded set_map, unfolded enumerate_from_facts(4)] by auto
    show "fr_sequence_index g \<noteq> n"
    proof (cases "in_suffix b g0")
      case True
      then have "fr_sequence_index g = fr_sequence_index g0 + offset" using g0 m1 g0p by (simp add: index_under_def)
      then show ?thesis using nr start rows_of_facts(3) [OF wf g0p] by (simp add: offset_def)
    next
      case False
      then have "fr_id g0 \<notin> dom ?m1" unfolding dom1
        using id_inj [OF rows_of_facts(1) [OF wf, of p] g0p] suffix_rows_facts(1) [OF wf, of p b] by auto
      then have "fr_sequence_index g = fr_sequence_index g0" using g0 by (simp add: index_under_def domIff)
      then show ?thesis using nr(1) suffix_start_facts(1) [OF wf g0p False] by simp
    qed
  qed
  have "dom (map_of ?asg) = set ?ids" by (simp add: dom_map_of_conv_image_fst enumerate_from_facts(1) flip: set_map)
  then have "?m1 ++ map_of ?asg = map_of ?asg" by (intro map_add_overwritten) (simp add: dom1)
  then have "map (reindexed (map_of ?asg)) ?parked = map (reindexed (renumbering db p b)) ?rows"
    by (simp add: comp_def reindexed_twice renumbering_def)
  then show ?thesis
    using False park assign unfolding resequence_project_from_def Let_def
    by (simp add: with_indexes_def offset_def m_def)
qed

lemma renumbering_in_order:
  assumes wf: "frames_wf db"
    and bound: "\<And>e. earliest_out_of_order_timestamp db p = Some e \<Longrightarrow> b \<le> e"
  shows "in_order (rows_of (with_indexes (renumbering db p (Some b)) db) p)"
proof -
  let ?m = "renumbering db p (Some b)"
  let ?suf = "in_suffix (Some b)"
  have "distinct (map (index_under ?m) (rows_of db p))"
    using renumbering_inj [OF wf, of p "Some b"] rows_of_facts(1) [OF wf, of p] by (auto simp: distinct_map)
  then have d: "distinct (map fr_sequence_index (rows_of (with_indexes ?m db) p))" by (simp add: comp_def)
  have "walk_key f \<le> walk_key g"
    if f: "f \<in> set (rows_of db p)" and g: "g \<in> set (rows_of db p)" and lt: "index_under ?m f < index_under ?m g" for f g
  proof -
    note start = suffix_start_facts(1) [OF wf f, of "Some b"] suffix_start_facts(1) [OF wf g, of "Some b"]
    note idx = renumbering_index [OF wf f, of "Some b"] renumbering_index [OF wf g, of "Some b"]
    consider "?suf f" "?suf g" | "\<not> ?suf f" "?suf g" | "\<not> ?suf g" by blast
    then show ?thesis
    proof cases
      case 1
      with renumbering_time [OF wf f _ g] lt show ?thesis by (auto intro: walk_key_mono)
    next
      case 2
      then show ?thesis by (auto simp: in_suffix_def walk_key_def less_eq_prod_def split: option.splits)
    next
      case 3
      then have "\<not> ?suf f" using idx start lt by fastforce
      show ?thesis
      proof (rule ccontr)
        assume "\<not> walk_key f \<le> walk_key g"
        then have "walk_key g < walk_key f" "fr_sequence_index f < fr_sequence_index g"
          using lt 3 \<open>\<not> ?suf f\<close> idx by auto
        then obtain e t where "earliest_out_of_order_timestamp db p = Some e" "fr_capture_timestamp g = Some t" "e \<le> t"
          using earliest_bound [OF rows_of_facts(2) [OF wf] f g] by blast
        then show False using bound 3 by (auto simp: in_suffix_def)
      qed
    qed
  qed
  then show ?thesis unfolding in_order_iff [OF d] by auto
qed

lemma renumber_bound_le:
  assumes "renumber_bound db p ids = Some b" "earliest_out_of_order_timestamp db p = Some e"
  shows "b \<le> e"
  using min_of_SomeD(2) [OF assms(1) [unfolded renumber_bound_def Let_def], of e] assms(2) by simp

lemma renumber_bound_None: "renumber_bound db p ids = None \<Longrightarrow> earliest_out_of_order_timestamp db p = None"
  by (auto simp: renumber_bound_def Let_def split: if_splits)

text \<open>
  C31.  Renumbering an import restores the browse order.  From any table that satisfies the
  invariant, whatever order SQLite updates rows in, the renumber meets no unique violation and
  ends with the project in order of time; only sequence indexes of that project have changed,
  and the invariant still holds.
\<close>

theorem renumber_restores_order:
  assumes wf: "frames_wf db" and scan: "\<And>xs. mset (scan xs) = mset xs"
  shows "\<exists>n db'. resequence_after_import scan db p ids = Inr (n, db') \<and> in_order (rows_of db' p) \<and> frames_wf db' \<and>
    map (\<lambda>f. f\<lparr>fr_sequence_index := 0\<rparr>) (fd_frames db') = map (\<lambda>f. f\<lparr>fr_sequence_index := 0\<rparr>) (fd_frames db) \<and>
    (\<forall>q. q \<noteq> p \<longrightarrow> rows_of db' q = rows_of db q)"
proof (cases "renumber_bound db p ids")
  case None
  then have "in_order (rows_of db p)" using renumber_bound_None earliest_None_iff by blast
  then show ?thesis using None wf by (simp add: resequence_after_import_def)
next
  case (Some b)
  let ?db = "with_indexes (renumbering db p (Some b)) db"
  have "in_order (rows_of ?db p)" by (rule renumbering_in_order [OF wf]) (rule renumber_bound_le [OF Some])
  moreover have "map (\<lambda>f. f\<lparr>fr_sequence_index := 0\<rparr>) (fd_frames ?db) = map (\<lambda>f. f\<lparr>fr_sequence_index := 0\<rparr>) (fd_frames db)"
    by (simp add: comp_def)
  moreover have "rows_of ?db q = rows_of db q" if "q \<noteq> p" for q
    unfolding with_indexes_simps
    by (rule map_idI) (use renumbering_None [OF wf, of _ p "Some b"] that in \<open>auto simp: rows_of_def\<close>)
  ultimately show ?thesis
    using Some resequence_from_result [OF wf scan] renumbering_wf [OF wf, of p "Some b"]
    by (auto simp: resequence_after_import_def)
qed

definition sample_row :: "int \<Rightarrow> int \<Rightarrow> int \<Rightarrow> frame" where
  "sample_row i n t = (frame_row 1 sample_captured sample_args n ''f.jpg'')\<lparr>fr_id := i, fr_capture_timestamp := Some t\<rparr>"

definition sample_table :: "frame list \<Rightarrow> frame_db" where
  "sample_table rows = \<lparr>fd_frames = rows,
     fd_projects = [\<lparr>fp_id = 1, fp_storage_path = None, fp_frame_count = int (length rows), fp_max_frame_count = None\<rparr>],
     fd_events = [], fd_last_id = int (length rows), fd_sentinel = True\<rparr>"

theorem renumber_restores_order_witness:
  "frames_wf (sample_table [sample_row 1 1 50, sample_row 2 2 90, sample_row 3 3 60]) \<and>
   \<not> in_order (rows_of (sample_table [sample_row 1 1 50, sample_row 2 2 90, sample_row 3 3 60]) 1) \<and>
   (\<exists>n db'. resequence_after_import rev (sample_table [sample_row 1 1 50, sample_row 2 2 90, sample_row 3 3 60]) 1 [3] = Inr (n, db') \<and>
      in_order (rows_of db' 1))"
proof (intro conjI)
  let ?db = "sample_table [sample_row 1 1 50, sample_row 2 2 90, sample_row 3 3 60]"
  show wf: "frames_wf ?db" by code_simp
  show "\<not> in_order (rows_of ?db 1)" by code_simp
  show "\<exists>n db'. resequence_after_import rev ?db 1 [3] = Inr (n, db') \<and> in_order (rows_of db' 1)"
    using renumber_restores_order [OF wf, of rev 1 "[3]"] by auto
qed

section \<open>Neighbours and the full check\<close>

lemma by_sequence_filter: "by_sequence (filter P rows) = filter P (by_sequence rows)"
  by (simp add: by_sequence_def filter_sort)

lemma filter_below_take:
  fixes key :: "'a \<Rightarrow> int"
  assumes "sorted (map key xs)" "distinct (map key xs)" "j < length xs"
  shows "filter (\<lambda>x. key x < key (xs ! j)) xs = take j xs" "filter (\<lambda>x. key x > key (xs ! j)) xs = drop (Suc j) xs"
proof -
  have less: "key (xs ! i) < key (xs ! k)" if "i < k" "k < length xs" for i k
  proof -
    have "map key xs ! i \<noteq> map key xs ! k" using assms(2) that by (simp add: nth_eq_iff_index_eq del: nth_map)
    then show ?thesis using sorted_nth_mono [OF assms(1), of i k] that by simp
  qed
  have split: "xs = take j xs @ xs ! j # drop (Suc j) xs" using assms(3) by (rule id_take_nth_drop)
  have lo: "key x < key (xs ! j)" if x: "x \<in> set (take j xs)" for x
    using x less [of _ j] assms(3) by (auto simp: in_set_conv_nth)
  have hi: "key (xs ! j) < key x" if x: "x \<in> set (drop (Suc j) xs)" for x
    using x less [of j] by (auto simp: in_set_conv_nth)
  have "filter (\<lambda>x. key x < key (xs ! j)) xs = filter (\<lambda>x. key x < key (xs ! j)) (take j xs @ xs ! j # drop (Suc j) xs)"
    using split by simp
  also have "\<dots> = take j xs" using lo hi by (fastforce simp: filter_id_conv filter_empty_conv)
  finally show "filter (\<lambda>x. key x < key (xs ! j)) xs = take j xs" .
  have "filter (\<lambda>x. key x > key (xs ! j)) xs = filter (\<lambda>x. key x > key (xs ! j)) (take j xs @ xs ! j # drop (Suc j) xs)"
    using split by simp
  also have "\<dots> = drop (Suc j) xs" using lo hi by (fastforce simp: filter_id_conv filter_empty_conv)
  finally show "filter (\<lambda>x. key x > key (xs ! j)) xs = drop (Suc j) xs" .
qed

lemma neighbour_rows:
  assumes "distinct (map fr_sequence_index (rows_of db p))" "xs = by_sequence (rows_of db p)" "j < length xs"
  shows "row_before db p (fr_sequence_index (xs ! j)) = (if j = 0 then None else Some (xs ! (j - 1)))"
    and "row_after db p (fr_sequence_index (xs ! j)) = (if Suc j = length xs then None else Some (xs ! Suc j))"
proof -
  have s: "sorted (map fr_sequence_index xs)" "distinct (map fr_sequence_index xs)"
    using assms(1,2) by (simp_all add: sorted_by_sequence distinct_by_sequence)
  note f = filter_below_take [OF s assms(3)]
  have ne: "xs \<noteq> []" using assms(3) by auto
  show "row_before db p (fr_sequence_index (xs ! j)) = (if j = 0 then None else Some (xs ! (j - 1)))"
    unfolding row_before_def by_sequence_filter assms(2) [symmetric] f(1) Let_def
    using assms(3) ne by (auto simp: last_conv_nth min_def)
  show "row_after db p (fr_sequence_index (xs ! j)) = (if Suc j = length xs then None else Some (xs ! Suc j))"
    unfolding row_after_def by_sequence_filter assms(2) [symmetric] f(2) Let_def
    using assms(3) by (auto simp: hd_drop_conv_nth)
qed

lemma neighbours_iff:
  assumes wf: "frames_wf db" and xs: "xs = by_sequence (rows_of db p)"
  shows "neighbours_out_of_order db p ids \<longleftrightarrow>
    (\<exists>i\<in>set ids. i \<notin> fr_id ` set (rows_of db p)) \<or>
    (\<exists>k. Suc k < length xs \<and> (fr_id (xs ! k) \<in> set ids \<or> fr_id (xs ! Suc k) \<in> set ids) \<and> breaks_order (xs ! k) (xs ! Suc k))"
proof (induction ids)
  case Nil
  then show ?case by simp
next
  case (Cons i ids)
  show ?case
  proof (cases "List.find (\<lambda>f. fr_id f = i) (rows_of db p)")
    case None
    then have "i \<notin> fr_id ` set (rows_of db p)" by (auto simp: find_None_iff)
    then show ?thesis using None by simp
  next
    case (Some f)
    then have f: "f \<in> set (rows_of db p)" "fr_id f = i" by (auto simp: find_Some_iff)
    then obtain j where j: "j < length xs" "f = xs ! j" using xs by (metis in_set_conv_nth set_by_sequence(1))
    have dx: "distinct (map fr_id xs)" using rows_of_facts(1) [OF wf, of p] xs by (simp add: distinct_by_sequence)
    have pos: "fr_id (xs ! k) = i \<longleftrightarrow> k = j" if "k < length xs" for k
      using dx that j f(2) by (metis distinct_conv_nth length_map nth_map)
    note nb = neighbour_rows [OF rows_of_facts(2) [OF wf] xs j(1)]
    have own: "((case row_before db p (fr_sequence_index f) of None \<Rightarrow> False | Some b \<Rightarrow> breaks_order b f) \<or>
        (case row_after db p (fr_sequence_index f) of None \<Rightarrow> False | Some a \<Rightarrow> breaks_order f a)) \<longleftrightarrow>
        (\<exists>k. Suc k < length xs \<and> (fr_id (xs ! k) = i \<or> fr_id (xs ! Suc k) = i) \<and> breaks_order (xs ! k) (xs ! Suc k))"
      (is "?L \<longleftrightarrow> ?R")
    proof
      assume ?L
      then consider "j \<noteq> 0" "breaks_order (xs ! (j - 1)) (xs ! j)" | "Suc j < length xs" "breaks_order (xs ! j) (xs ! Suc j)"
        unfolding j(2) nb using j(1) by (auto split: if_splits)
      then show ?R using j(1) f(2) j(2) by cases (auto intro: exI [of _ "j - 1"] exI [of _ j])
    next
      assume ?R
      then obtain k where k: "Suc k < length xs" "k = j \<or> Suc k = j" "breaks_order (xs ! k) (xs ! Suc k)"
        using pos Suc_lessD by blast
      then show ?L unfolding j(2) nb by auto
    qed
    have mem: "i \<in> fr_id ` set (rows_of db p)" using f by auto
    show ?thesis using own Cons.IH mem
      by (simp only: neighbours_out_of_order.simps Some option.case list.set insert_iff ball_simps bex_simps) blast
  qed
qed

text \<open>A change of timestamps alone.\<close>

definition retimed :: "(int \<Rightarrow> int option option) \<Rightarrow> frame \<Rightarrow> frame" where
  "retimed t f = (case t (fr_id f) of None \<Rightarrow> f | Some v \<Rightarrow> f\<lparr>fr_capture_timestamp := v\<rparr>)"

lemma retimed_simps [simp]:
  "fr_id (retimed t f) = fr_id f" "fr_project_id (retimed t f) = fr_project_id f"
  "fr_sequence_index (retimed t f) = fr_sequence_index f" "row_core (retimed t f) = row_core f"
  "t (fr_id f) = None \<Longrightarrow> retimed t f = f"
  by (simp_all add: retimed_def split: option.splits)

lemma sort_key_map: "(\<And>x. key (u x) = key x) \<Longrightarrow> sort_key key (map u xs) = map u (sort_key key xs)"
proof (induction xs)
  case (Cons x xs)
  have "insort_key key (u x) (map u ys) = map u (insort_key key x ys)" for ys
    using Cons.prems by (induction ys) auto
  then show ?case using Cons by simp
qed simp

lemma core_of_retimed: "fd_frames db' = map (retimed t) (fd_frames db) \<Longrightarrow> fd_projects db' = fd_projects db \<Longrightarrow>
  fd_last_id db' = fd_last_id db \<Longrightarrow> core_of db' = core_of db"
  by (simp add: core_of_def comp_def)

lemma neighbours_exact:
  assumes wf': "frames_wf db'" and o: "in_order (rows_of db p)" and rows: "rows_of db' p = map (retimed t) (rows_of db p)"
    and ids: "dom t \<subseteq> set ids" "set ids \<subseteq> fr_id ` set (rows_of db p)"
  shows "neighbours_out_of_order db' p ids \<longleftrightarrow> earliest_out_of_order_timestamp db' p \<noteq> None"
proof -
  let ?xs = "by_sequence (rows_of db p)"
  have xs': "map (retimed t) ?xs = by_sequence (rows_of db' p)"
    unfolding rows by_sequence_def by (rule sort_key_map [symmetric]) simp
  let ?ys = "map (retimed t) ?xs"
  have same: "fr_id ` set (rows_of db' p) = fr_id ` set (rows_of db p)" unfolding rows by (simp add: image_image)
  have "\<not> breaks_order (?xs ! k) (?xs ! Suc k)" if "Suc k < length ?xs" for k
    using o that unfolding in_order_def breaks_order_iff not_less
    by (metis Suc_lessD length_map nth_map sorted_iff_nth_Suc)
  then have named: "fr_id (?ys ! k) \<in> set ids \<or> fr_id (?ys ! Suc k) \<in> set ids"
    if "Suc k < length ?ys" "breaks_order (?ys ! k) (?ys ! Suc k)" for k
    using that ids(1) by (auto simp del: set_by_sequence) (metis Suc_lessD domIff in_mono retimed_simps(5) set_by_sequence(2))
  have "earliest_out_of_order_timestamp db' p \<noteq> None \<longleftrightarrow> (\<exists>k. Suc k < length ?ys \<and> breaks_order (?ys ! k) (?ys ! Suc k))"
    unfolding earliest_None_iff in_order_def xs' [symmetric] sorted_iff_nth_Suc breaks_order_iff by (auto simp: not_le)
  moreover have "neighbours_out_of_order db' p ids \<longleftrightarrow>
      (\<exists>k. Suc k < length ?ys \<and> (fr_id (?ys ! k) \<in> set ids \<or> fr_id (?ys ! Suc k) \<in> set ids) \<and> breaks_order (?ys ! k) (?ys ! Suc k))"
    unfolding neighbours_iff [OF wf' xs'] same using ids(2) by blast
  ultimately show ?thesis using named by blast
qed

end
