(* ===== verification/Frame_Renumber.thy ===== *)
theory Frame_Renumber
  imports Frame_Order
begin

text \<open>
  The renumber that releases the write lock between chunks (\<open>resequence_project_chunked\<close> of
  \<open>storage/frames.py\<close>), one transaction at a time, so that captures, edits and deletes can land
  between two of them; and \<open>restore_project_order\<close>, which runs it after a change of timestamps.
\<close>

section \<open>The run\<close>

definition renumber_chunk_rows :: nat where "renumber_chunk_rows = 5000"

definition targeted_check_max_frames :: nat where "targeted_check_max_frames = 64"

text \<open>What the run keeps between transactions; \<open>rr_parking\<close> and \<open>rr_assigned\<close> say how far it is.\<close>

record renumber_run =
  rr_project :: int
  rr_chunk :: nat
  rr_start :: int
  rr_offset :: int
  rr_order :: "int list"
  rr_parking :: "(int \<times> int) list"
  rr_assigned :: nat

datatype run_state = Writing renumber_run | Compacting int renumber_run | Finished renumber_run

datatype plan_result = Whole nat frame_db | Chunked frame_db renumber_run

definition park_rows :: "(int \<times> int) list \<Rightarrow> int \<Rightarrow> frame list \<Rightarrow> frame list res" where
  "park_rows rows offset frames = set_sequence_indexes (map (\<lambda>(i, n). (i, n + offset)) rows) frames"

definition parking_list :: "frame list \<Rightarrow> (int \<times> int) list" where
  "parking_list rows = rev (sort_key snd (map (\<lambda>f. (fr_id f, fr_sequence_index f)) rows))"

text \<open>The first transaction: the plan, from one snapshot, and the first chunk.\<close>

definition plan_renumber ::
  "(frame list \<Rightarrow> frame list) \<Rightarrow> nat option \<Rightarrow> frame_db \<Rightarrow> int \<Rightarrow> int list \<Rightarrow> plan_result res" where
  "plan_renumber scan chunk_rows db project_id imported_ids =
     (let chunk = max 1 (case chunk_rows of None \<Rightarrow> renumber_chunk_rows | Some n \<Rightarrow> n)
      in case renumber_bound db project_id imported_ids of
           None \<Rightarrow> Inr (Whole 0 db)
         | Some bound \<Rightarrow>
             (let rows = suffix_rows db project_id (Some bound);
                  size = length (filter (in_suffix (Some bound)) (rows_of db project_id))
              in if size \<le> chunk
                 then rbind (resequence_project_from scan db project_id (Some bound)) (\<lambda>(n, db'). Inr (Whole n db'))
                 else
                  (let current_max = the (max_of (map fr_sequence_index (rows_of db project_id)));
                       offset = current_max + int (length rows) + 1;
                       parking = parking_list rows
                   in rbind (park_rows (take chunk parking) offset (fd_frames db)) (\<lambda>frames.
                        Inr (Chunked (db\<lparr>fd_frames := frames\<rparr>)
                          \<lparr>rr_project = project_id, rr_chunk = chunk,
                           rr_start = suffix_start db project_id (Some bound), rr_offset = offset,
                           rr_order = map fr_id rows, rr_parking = drop chunk parking, rr_assigned = 0\<rparr>)))))"

text \<open>One pass over the rows above the renumbered range.\<close>

definition compact_pass :: "nat \<Rightarrow> int \<Rightarrow> int \<Rightarrow> frame_db \<Rightarrow> (nat \<times> frame_db) res" where
  "compact_pass limit project_id next_index db =
     (let tail = take limit (by_sequence (filter (\<lambda>f. fr_sequence_index f \<ge> next_index) (rows_of db project_id)))
      in rbind (set_sequence_indexes
                 (map (\<lambda>(f, target). (fr_id f, target))
                   (filter (\<lambda>(f, target). target \<noteq> fr_sequence_index f) (enumerate_from next_index tail))) (fd_frames db))
           (\<lambda>frames. Inr (length tail, db\<lparr>fd_frames := frames\<rparr>)))"

text \<open>Each later transaction.\<close>

fun advance :: "nat \<Rightarrow> frame_db \<times> run_state \<Rightarrow> (frame_db \<times> run_state) res" where
  "advance limit (db, Writing r) =
     (if rr_parking r \<noteq> [] then
        rbind (park_rows (take (rr_chunk r) (rr_parking r)) (rr_offset r) (fd_frames db)) (\<lambda>frames.
          Inr (db\<lparr>fd_frames := frames\<rparr>, Writing (r\<lparr>rr_parking := drop (rr_chunk r) (rr_parking r)\<rparr>)))
      else if rr_assigned r < length (rr_order r) then
        rbind (set_sequence_indexes
                (enumerate_from (rr_start r + int (rr_assigned r)) (take (rr_chunk r) (drop (rr_assigned r) (rr_order r))))
                (fd_frames db)) (\<lambda>frames.
          Inr (db\<lparr>fd_frames := frames\<rparr>, Writing (r\<lparr>rr_assigned := min (length (rr_order r)) (rr_assigned r + rr_chunk r)\<rparr>)))
      else Inr (db, Compacting (rr_start r + int (length (rr_order r))) r))"
| "advance limit (db, Compacting next_index r) =
     rbind (compact_pass limit (rr_project r) next_index db) (\<lambda>(n, db').
       Inr (db', if n < limit then Finished r else Compacting (next_index + int n) r))"
| "advance limit (db, Finished r) = Inr (db, Finished r)"

text \<open>The run with nothing in between.  It might not end; that it does is a lemma.\<close>

partial_function (option) run_to_end :: "nat \<Rightarrow> frame_db \<times> run_state \<Rightarrow> (frame_db res) option" where
  "run_to_end limit st =
     (case snd st of
        Finished r \<Rightarrow> Some (Inr (fst st))
      | _ \<Rightarrow> (case advance limit st of Inl e \<Rightarrow> Some (Inl e) | Inr st' \<Rightarrow> run_to_end limit st'))"

definition resequence_project_chunked ::
  "(frame list \<Rightarrow> frame list) \<Rightarrow> nat option \<Rightarrow> frame_db \<Rightarrow> int \<Rightarrow> int list \<Rightarrow> ((nat \<times> frame_db) res) option" where
  "resequence_project_chunked scan chunk_rows db project_id imported_ids =
     (case plan_renumber scan chunk_rows db project_id imported_ids of
        Inl e \<Rightarrow> Some (Inl e)
      | Inr (Whole n db') \<Rightarrow> Some (Inr (n, db'))
      | Inr (Chunked db' r) \<Rightarrow>
          (case run_to_end renumber_chunk_rows (db', Writing r) of
             None \<Rightarrow> None
           | Some (Inl e) \<Rightarrow> Some (Inl e)
           | Some (Inr db'') \<Rightarrow> Some (Inr (length (rr_order r), db''))))"

definition restore_project_order ::
  "(frame list \<Rightarrow> frame list) \<Rightarrow> frame_db \<Rightarrow> int \<Rightarrow> int list option \<Rightarrow> ((nat \<times> frame_db) res) option" where
  "restore_project_order scan db project_id frame_ids =
     (let targeted = (case frame_ids of None \<Rightarrow> False | Some ids \<Rightarrow> length ids \<le> targeted_check_max_frames)
      in if targeted \<and> \<not> neighbours_out_of_order db project_id (the frame_ids) then Some (Inr (0, db))
         else if earliest_out_of_order_timestamp db project_id = None then Some (Inr (0, db))
         else resequence_project_chunked scan None db project_id [])"

text \<open>The commit hook: every marked project, in id order; an exception is logged and the next one goes on.\<close>

fun restore_marked :: "(frame list \<Rightarrow> frame list) \<Rightarrow> (int \<times> int list option) list \<Rightarrow> frame_db \<Rightarrow> frame_db option" where
  "restore_marked scan [] db = Some db"
| "restore_marked scan ((project_id, moved) # rest) db =
     (case restore_project_order scan db project_id moved of
        None \<Rightarrow> None
      | Some (Inl e) \<Rightarrow> restore_marked scan rest db
      | Some (Inr (n, db')) \<Rightarrow> restore_marked scan rest db')"

definition restore_order_after_commit :: "(frame list \<Rightarrow> frame list) \<Rightarrow> fsession \<Rightarrow> frame_db option" where
  "restore_order_after_commit scan s = restore_marked scan (sort_key fst (fs_order_dirty s)) (fs_db s)"

section \<open>The plan\<close>

text \<open>The index a row had when the run was planned.\<close>

definition old_index :: "frame_db \<Rightarrow> int \<Rightarrow> int" where
  "old_index db i = (case List.find (\<lambda>f. fr_id f = i) (fd_frames db) of None \<Rightarrow> 0 | Some f \<Rightarrow> fr_sequence_index f)"

lemma old_index_row:
  assumes "frames_wf db" "f \<in> set (fd_frames db)"
  shows "old_index db (fr_id f) = fr_sequence_index f"
proof (cases "List.find (\<lambda>g. fr_id g = fr_id f) (fd_frames db)")
  case None
  then show ?thesis using assms(2) by (auto simp: find_None_iff)
next
  case (Some g)
  then have "g = f" using id_inj [OF frames_wfD(1) [OF assms(1)], of g f] assms(2) by (auto simp: find_Some_iff)
  then show ?thesis using Some by (simp add: old_index_def)
qed

text \<open>What the later transactions rely on.\<close>

definition planned :: "frame_db \<Rightarrow> int \<Rightarrow> int \<Rightarrow> renumber_run \<Rightarrow> bool" where
  "planned db p b r \<longleftrightarrow>
     rr_project r = p \<and> 0 < rr_chunk r \<and> rr_start r = suffix_start db p (Some b) \<and>
     rr_order r = map fr_id (suffix_rows db p (Some b)) \<and>
     (\<exists>m. max_of (map fr_sequence_index (rows_of db p)) = Some m \<and> rr_offset r = m + int (length (rr_order r)) + 1) \<and>
     (\<exists>k. rr_parking r = drop k (parking_list (suffix_rows db p (Some b)))) \<and>
     rr_assigned r \<le> length (rr_order r) \<and> (rr_parking r \<noteq> [] \<longrightarrow> rr_assigned r = 0)"

lemma plannedD:
  assumes "planned db p b r"
  shows "rr_project r = p" "0 < rr_chunk r" "rr_start r = suffix_start db p (Some b)"
    "rr_order r = map fr_id (suffix_rows db p (Some b))"
    "rr_assigned r \<le> length (rr_order r)" "rr_parking r \<noteq> [] \<Longrightarrow> rr_assigned r = 0"
  using assms by (auto simp: planned_def)

lemma sort_key_desc: "sorted_wrt (\<lambda>a b. f b \<le> (f a :: 'b::linorder)) (rev (sort_key f xs))"
  unfolding sorted_wrt_rev using sorted_sort_key [of f xs] by (simp add: sorted_map)

lemma parking_list_facts:
  assumes "frames_wf db"
  shows "set (parking_list (suffix_rows db p b)) = (\<lambda>f. (fr_id f, fr_sequence_index f)) ` set (suffix_rows db p b)"
    and "distinct (map fst (parking_list (suffix_rows db p b)))" "distinct (map snd (parking_list (suffix_rows db p b)))"
    and "sorted_wrt (\<lambda>x y. snd y < snd x) (parking_list (suffix_rows db p b))"
proof -
  let ?xs = "map (\<lambda>f. (fr_id f, fr_sequence_index f)) (suffix_rows db p b)"
  have ms: "mset (parking_list (suffix_rows db p b)) = mset ?xs" by (simp add: parking_list_def)
  show "set (parking_list (suffix_rows db p b)) = (\<lambda>f. (fr_id f, fr_sequence_index f)) ` set (suffix_rows db p b)"
    using mset_set_eq [OF ms] by simp
  have d1: "distinct (map fst ?xs)" using suffix_rows_facts(2) [OF assms, of p b] by (simp add: comp_def)
  have "mset (map fr_sequence_index (suffix_rows db p b)) = mset (map fr_sequence_index (filter (in_suffix b) (rows_of db p)))"
    by (simp add: suffix_rows_def)
  from mset_eq_imp_distinct_iff [OF this] distinct_map_filter [OF rows_of_facts(2) [OF assms, of p], of "in_suffix b"]
  have d2: "distinct (map snd ?xs)" by (simp add: comp_def)
  show df: "distinct (map fst (parking_list (suffix_rows db p b)))"
    using d1 ms by (metis mset_eq_imp_distinct_iff mset_map)
  show ds: "distinct (map snd (parking_list (suffix_rows db p b)))"
    using d2 ms by (metis mset_eq_imp_distinct_iff mset_map)
  have le: "sorted_wrt (\<lambda>x y. snd y \<le> snd x) (parking_list (suffix_rows db p b))"
    unfolding parking_list_def by (rule sort_key_desc)
  show "sorted_wrt (\<lambda>x y. snd y < snd x) (parking_list (suffix_rows db p b))"
    unfolding sorted_wrt_iff_nth_less
  proof (intro allI impI)
    fix i j assume ij: "i < j" "j < length (parking_list (suffix_rows db p b))"
    let ?ps = "parking_list (suffix_rows db p b)"
    have "snd (?ps ! j) \<le> snd (?ps ! i)" using le ij by (simp add: sorted_wrt_iff_nth_less)
    moreover have "map snd ?ps ! i \<noteq> map snd ?ps ! j" using ds ij by (simp add: nth_eq_iff_index_eq del: nth_map)
    ultimately show "snd (?ps ! j) < snd (?ps ! i)" using ij by simp
  qed
qed

text \<open>With a bound at or below the first disorder, the prefix lies below the suffix.\<close>

lemma prefix_below_suffix:
  assumes wf: "frames_wf db" and bound: "\<And>e. earliest_out_of_order_timestamp db p = Some e \<Longrightarrow> b \<le> e"
    and f: "f \<in> set (rows_of db p)" "\<not> in_suffix (Some b) f" and g: "g \<in> set (rows_of db p)" "in_suffix (Some b) g"
  shows "fr_sequence_index f < fr_sequence_index g"
proof (rule ccontr)
  assume "\<not> fr_sequence_index f < fr_sequence_index g"
  moreover have "f \<noteq> g" using f g by auto
  ultimately have "fr_sequence_index g < fr_sequence_index f"
    using seq_inj [OF rows_of_facts(2) [OF wf] f(1) g(1)] by fastforce
  moreover have "walk_key f < walk_key g"
    using f(2) g(2) by (auto simp: in_suffix_def walk_key_def less_prod_def' split: option.splits)
  ultimately obtain e t where "earliest_out_of_order_timestamp db p = Some e" "fr_capture_timestamp f = Some t" "e \<le> t"
    using earliest_bound [OF rows_of_facts(2) [OF wf] g(1) f(1)] by blast
  then show False using bound f(2) by (auto simp: in_suffix_def)
qed

lemma suffix_at_start:
  assumes wf: "frames_wf db" and bound: "\<And>e. earliest_out_of_order_timestamp db p = Some e \<Longrightarrow> b \<le> e"
    and g: "g \<in> set (rows_of db p)" "in_suffix (Some b) g"
  shows "suffix_start db p (Some b) \<le> fr_sequence_index g"
proof -
  let ?pre = "map fr_sequence_index (filter (\<lambda>f. \<not> in_suffix (Some b) f) (rows_of db p))"
  show ?thesis
  proof (cases "max_of ?pre")
    case None
    then show ?thesis using rows_of_facts(3) [OF wf g(1)] by (simp add: suffix_start_def max_of_def)
  next
    case (Some m)
    then have "m \<in> set ?pre" by (rule max_of_SomeD(1))
    then obtain f where f: "f \<in> set (rows_of db p)" "\<not> in_suffix (Some b) f" "m = fr_sequence_index f" by auto
    have "fr_sequence_index f < fr_sequence_index g" by (rule prefix_below_suffix [OF wf bound f(1,2) g])
    with Some f(3) show ?thesis by (simp add: suffix_start_def)
  qed
qed

section \<open>The state of a run\<close>

text \<open>A row of the project is seen as its id and its index.\<close>

definition cells :: "frame_db \<Rightarrow> int \<Rightarrow> (int \<times> int) set" where
  "cells db p = (\<lambda>f. (fr_id f, fr_sequence_index f)) ` set (rows_of db p)"

lemma cells_iff: "(i, n) \<in> cells db p \<longleftrightarrow> (\<exists>f\<in>set (rows_of db p). fr_id f = i \<and> fr_sequence_index f = n)"
  by (auto simp: cells_def)

lemma cells_core:
  assumes "core_of db' = core_of db"
  shows "cells db' p = cells db p"
proof -
  have c: "cells d p = (\<lambda>f. (fr_id f, fr_sequence_index f)) ` set (filter (\<lambda>f. fr_project_id f = p) (map row_core (fd_frames d)))" for d
    by (simp add: cells_def rows_of_def filter_map comp_def image_image)
  show ?thesis using assms unfolding c by (simp add: core_of_def)
qed

lemma cells_with_indexes: "cells (with_indexes m db) p = (\<lambda>(i, n). (i, case m i of None \<Rightarrow> n | Some n' \<Rightarrow> n')) ` cells db p"
  by (auto simp: cells_def image_image index_under_def)

lemma cells_inj:
  assumes "frames_wf db"
  shows "(i, n) \<in> cells db p \<Longrightarrow> (i, n') \<in> cells db p \<Longrightarrow> n = n'"
    and "(i, n) \<in> cells db p \<Longrightarrow> (i', n) \<in> cells db p \<Longrightarrow> i = i'"
proof -
  show "n = n'" if "(i, n) \<in> cells db p" "(i, n') \<in> cells db p"
    using that id_inj [OF rows_of_facts(1) [OF assms, of p]] unfolding cells_iff by metis
  show "i = i'" if "(i, n) \<in> cells db p" "(i', n) \<in> cells db p"
    using that seq_inj [OF rows_of_facts(2) [OF assms, of p]] unfolding cells_iff by metis
qed

lemma cells_range:
  assumes "frames_wf db" "(i, n) \<in> cells db p"
  shows "i \<le> fd_last_id db" "1 \<le> n"
  using assms rows_of_facts(3) [OF assms(1)] frames_wfD(2) [OF assms(1)] by (auto simp: cells_iff)

text \<open>The index of a row of the plan: final, parked, or still its old one.\<close>

definition run_index :: "frame_db \<Rightarrow> renumber_run \<Rightarrow> int \<Rightarrow> int" where
  "run_index db0 r i =
     (if i \<in> set (take (rr_assigned r) (rr_order r)) then the (map_of (enumerate_from (rr_start r) (rr_order r)) i)
      else if i \<in> set (rr_order r) \<and> i \<notin> fst ` set (rr_parking r) then old_index db0 i + rr_offset r
      else old_index db0 i)"

definition waiting :: "renumber_run \<Rightarrow> int set" where
  "waiting r = set (drop (rr_assigned r) (rr_order r))"

definition parked_left :: "renumber_run \<Rightarrow> (int \<times> int) set \<Rightarrow> bool" where
  "parked_left r C \<longleftrightarrow> (\<exists>(i, n)\<in>C. rr_offset r < n) \<or> fst ` C \<inter> waiting r = {}"

definition run_base :: "frame_db \<Rightarrow> renumber_run \<Rightarrow> (int \<times> int) set \<Rightarrow> bool" where
  "run_base db0 r C \<longleftrightarrow>
     (\<forall>(i, n)\<in>C. i \<le> fd_last_id db0 \<longrightarrow> i \<in> fr_id ` set (rows_of db0 (rr_project r)) \<and> n = run_index db0 r i) \<and>
     (\<forall>(i, n)\<in>C. fd_last_id db0 < i \<longrightarrow> (\<forall>(j, k)\<in>C. j < i \<longrightarrow> k < n)) \<and>
     ((\<forall>(i, n)\<in>C. fd_last_id db0 < i \<longrightarrow> rr_offset r < n \<and> (\<forall>(j, k)\<in>set (rr_parking r). k + rr_offset r < n)) \<or>
      fst ` C \<inter> waiting r = {})"

definition run_inv :: "frame_db \<Rightarrow> renumber_run \<Rightarrow> (int \<times> int) set \<Rightarrow> bool" where
  "run_inv db0 r C \<longleftrightarrow> run_base db0 r C \<and> parked_left r C"

lemma run_baseD:
  assumes "run_base db0 r C"
  shows "\<And>i n. (i, n) \<in> C \<Longrightarrow> i \<le> fd_last_id db0 \<Longrightarrow> i \<in> fr_id ` set (rows_of db0 (rr_project r))"
    "\<And>i n. (i, n) \<in> C \<Longrightarrow> i \<le> fd_last_id db0 \<Longrightarrow> n = run_index db0 r i"
    "\<And>i n j k. (i, n) \<in> C \<Longrightarrow> fd_last_id db0 < i \<Longrightarrow> (j, k) \<in> C \<Longrightarrow> j < i \<Longrightarrow> k < n"
    "\<And>i n j. (i, n) \<in> C \<Longrightarrow> fd_last_id db0 < i \<Longrightarrow> j \<in> fst ` C \<Longrightarrow> j \<in> waiting r \<Longrightarrow> rr_offset r < n"
    "\<And>i n j j' k. (i, n) \<in> C \<Longrightarrow> fd_last_id db0 < i \<Longrightarrow> j \<in> fst ` C \<Longrightarrow> j \<in> waiting r \<Longrightarrow> (j', k) \<in> set (rr_parking r) \<Longrightarrow>
      k + rr_offset r < n"
proof -
  note a = assms [unfolded run_base_def]
  show "i \<in> fr_id ` set (rows_of db0 (rr_project r))" if "(i, n) \<in> C" "i \<le> fd_last_id db0" for i n
    using conjunct1 [OF a] that by auto
  show "n = run_index db0 r i" if "(i, n) \<in> C" "i \<le> fd_last_id db0" for i n
    using conjunct1 [OF a] that by auto
  show "k < n" if "(i, n) \<in> C" "fd_last_id db0 < i" "(j, k) \<in> C" "j < i" for i n j k
    using conjunct1 [OF conjunct2 [OF a]] that by blast
  show "rr_offset r < n" if "(i, n) \<in> C" "fd_last_id db0 < i" "j \<in> fst ` C" "j \<in> waiting r" for i n j
    using conjunct2 [OF conjunct2 [OF a]] that by blast
  show "k + rr_offset r < n" if "(i, n) \<in> C" "fd_last_id db0 < i" "j \<in> fst ` C" "j \<in> waiting r" "(j', k) \<in> set (rr_parking r)" for i n j j' k
    using conjunct2 [OF conjunct2 [OF a]] that by blast
qed

lemma run_baseI:
  assumes "\<And>i n. (i, n) \<in> C \<Longrightarrow> i \<le> fd_last_id db0 \<Longrightarrow> i \<in> fr_id ` set (rows_of db0 (rr_project r)) \<and> n = run_index db0 r i"
    "\<And>i n j k. (i, n) \<in> C \<Longrightarrow> fd_last_id db0 < i \<Longrightarrow> (j, k) \<in> C \<Longrightarrow> j < i \<Longrightarrow> k < n"
    "\<And>i n j. (i, n) \<in> C \<Longrightarrow> fd_last_id db0 < i \<Longrightarrow> j \<in> fst ` C \<Longrightarrow> j \<in> waiting r \<Longrightarrow>
      rr_offset r < n \<and> (\<forall>(j', k)\<in>set (rr_parking r). k + rr_offset r < n)"
  shows "run_base db0 r C"
  unfolding run_base_def
proof (intro conjI)
  show "\<forall>(i, n)\<in>C. i \<le> fd_last_id db0 \<longrightarrow> i \<in> fr_id ` set (rows_of db0 (rr_project r)) \<and> n = run_index db0 r i"
    using assms(1) by blast
  show "\<forall>(i, n)\<in>C. fd_last_id db0 < i \<longrightarrow> (\<forall>(j, k)\<in>C. j < i \<longrightarrow> k < n)" using assms(2) by blast
  show "(\<forall>(i, n)\<in>C. fd_last_id db0 < i \<longrightarrow> rr_offset r < n \<and> (\<forall>(j, k)\<in>set (rr_parking r). k + rr_offset r < n)) \<or>
      fst ` C \<inter> waiting r = {}" using assms(3) by blast
qed

lemma run_invI: "run_base db0 r C \<Longrightarrow> parked_left r C \<Longrightarrow> run_inv db0 r C"
  by (simp add: run_inv_def)

lemma run_invD:
  assumes "run_inv db0 r C"
  shows "run_base db0 r C" "parked_left r C"
  using assms by (simp_all add: run_inv_def)

section \<open>Where the indexes of a run lie\<close>

definition sound_plan :: "frame_db \<Rightarrow> int \<Rightarrow> int \<Rightarrow> renumber_run \<Rightarrow> bool" where
  "sound_plan db0 p b r \<longleftrightarrow>
     frames_wf db0 \<and> planned db0 p b r \<and> (\<forall>e. earliest_out_of_order_timestamp db0 p = Some e \<longrightarrow> b \<le> e)"

lemma sound_planD:
  assumes "sound_plan db0 p b r"
  shows "frames_wf db0" "planned db0 p b r" "\<And>e. earliest_out_of_order_timestamp db0 p = Some e \<Longrightarrow> b \<le> e"
  using assms by (auto simp: sound_plan_def)

lemma plan_order:
  assumes "sound_plan db0 p b r"
  shows "distinct (rr_order r)" "set (rr_order r) \<subseteq> fr_id ` set (rows_of db0 p)"
  using suffix_rows_facts(1,2) [OF sound_planD(1) [OF assms], of p "Some b"] plannedD(4) [OF sound_planD(2) [OF assms]]
  by auto

lemma plan_ordered:
  assumes sp: "sound_plan db0 p b r" and i: "i \<in> set (rr_order r)"
  shows "rr_start r \<le> old_index db0 i" "1 \<le> old_index db0 i" "old_index db0 i < rr_offset r"
proof -
  note wf = sound_planD(1) [OF sp] and pl = sound_planD(2) [OF sp]
  obtain f where f: "f \<in> set (rows_of db0 p)" "in_suffix (Some b) f" "fr_id f = i"
    using i suffix_rows_facts(1) [OF wf, of p "Some b"] plannedD(4) [OF pl] by auto
  have old: "old_index db0 i = fr_sequence_index f" using old_index_row [OF wf] rows_of_facts(3) [OF wf f(1)] f(3) by auto
  show "rr_start r \<le> old_index db0 i" unfolding old plannedD(3) [OF pl]
    by (rule suffix_at_start [OF wf sound_planD(3) [OF sp] f(1,2)])
  show "1 \<le> old_index db0 i" unfolding old using rows_of_facts(3) [OF wf f(1)] by simp
  from pl obtain m where m: "max_of (map fr_sequence_index (rows_of db0 p)) = Some m" "rr_offset r = m + int (length (rr_order r)) + 1"
    unfolding planned_def by blast
  show "old_index db0 i < rr_offset r" using max_of_SomeD(2) [OF m(1), of "fr_sequence_index f"] f(1) old m(2) by simp
qed

lemma plan_prefix:
  assumes sp: "sound_plan db0 p b r" and i: "i \<in> fr_id ` set (rows_of db0 p)" "i \<notin> set (rr_order r)"
  shows "1 \<le> old_index db0 i" "old_index db0 i < rr_start r"
proof -
  note wf = sound_planD(1) [OF sp] and pl = sound_planD(2) [OF sp]
  obtain f where f: "f \<in> set (rows_of db0 p)" "fr_id f = i" using i by auto
  have old: "old_index db0 i = fr_sequence_index f" using old_index_row [OF wf] rows_of_facts(3) [OF wf f(1)] f(2) by auto
  have "\<not> in_suffix (Some b) f" using f i(2) suffix_rows_facts(1) [OF wf, of p "Some b"] plannedD(4) [OF pl] by auto
  then show "old_index db0 i < rr_start r" unfolding old plannedD(3) [OF pl] by (rule suffix_start_facts(1) [OF wf f(1)])
  show "1 \<le> old_index db0 i" unfolding old using rows_of_facts(3) [OF wf f(1)] by simp
qed

lemma plan_start:
  assumes sp: "sound_plan db0 p b r"
  shows "1 \<le> rr_start r" "rr_start r + int (length (rr_order r)) \<le> rr_offset r"
proof -
  note wf = sound_planD(1) [OF sp] and pl = sound_planD(2) [OF sp]
  show "1 \<le> rr_start r" unfolding plannedD(3) [OF pl] by (rule suffix_start_facts(2) [OF wf])
  from pl obtain m where m: "max_of (map fr_sequence_index (rows_of db0 p)) = Some m" "rr_offset r = m + int (length (rr_order r)) + 1"
    unfolding planned_def by blast
  show "rr_start r + int (length (rr_order r)) \<le> rr_offset r"
    using suffix_start_facts(3) [OF wf m(1), of "Some b"] m(2) plannedD(3) [OF pl] by simp
qed

lemma old_index_inj:
  assumes sp: "sound_plan db0 p b r" and ij: "i \<in> fr_id ` set (rows_of db0 p)" "j \<in> fr_id ` set (rows_of db0 p)"
    and "old_index db0 i = old_index db0 j"
  shows "i = j"
proof -
  note wf = sound_planD(1) [OF sp]
  obtain f g where fg: "f \<in> set (rows_of db0 p)" "fr_id f = i" "g \<in> set (rows_of db0 p)" "fr_id g = j" using ij by auto
  then have "fr_sequence_index f = fr_sequence_index g"
    using assms(4) old_index_row [OF wf, of f] old_index_row [OF wf, of g] rows_of_facts(3) [OF wf] by auto
  then show ?thesis using seq_inj [OF rows_of_facts(2) [OF wf, of p]] fg by auto
qed

lemma plan_parking:
  assumes sp: "sound_plan db0 p b r"
  shows "distinct (map fst (rr_parking r))" "distinct (map snd (rr_parking r))"
    "\<And>i n. (i, n) \<in> set (rr_parking r) \<Longrightarrow> i \<in> set (rr_order r) \<and> n = old_index db0 i"
    "\<And>i j k. i \<in> set (rr_order r) \<Longrightarrow> i \<notin> fst ` set (rr_parking r) \<Longrightarrow> (j, k) \<in> set (rr_parking r) \<Longrightarrow> k < old_index db0 i"
proof -
  note wf = sound_planD(1) [OF sp] and pl = sound_planD(2) [OF sp]
  let ?full = "parking_list (suffix_rows db0 p (Some b))"
  obtain k0 where k0: "rr_parking r = drop k0 ?full" using pl unfolding planned_def by blast
  note pf = parking_list_facts [OF wf, of p "Some b"]
  show "distinct (map fst (rr_parking r))" using pf(2) by (simp add: k0 drop_map [symmetric])
  show "distinct (map snd (rr_parking r))" using pf(3) by (simp add: k0 drop_map [symmetric])
  have mem: "i \<in> set (rr_order r) \<and> n = old_index db0 i" if "(i, n) \<in> set ?full" for i n
  proof -
    obtain f where f: "f \<in> set (suffix_rows db0 p (Some b))" "i = fr_id f" "n = fr_sequence_index f" using \<open>(i, n) \<in> set ?full\<close> pf(1) by auto
    then have "f \<in> set (fd_frames db0)" using suffix_rows_facts(1) [OF wf, of p "Some b"] rows_of_facts(3) [OF wf] by auto
    then show ?thesis using f plannedD(4) [OF pl] old_index_row [OF wf] by auto
  qed
  show "i \<in> set (rr_order r) \<and> n = old_index db0 i" if "(i, n) \<in> set (rr_parking r)" for i n
    using mem that k0 set_drop_subset by (metis subsetD)
  show "k < old_index db0 i" if i: "i \<in> set (rr_order r)" "i \<notin> fst ` set (rr_parking r)" and jk: "(j, k) \<in> set (rr_parking r)" for i j k
  proof -
    obtain n where n: "(i, n) \<in> set ?full" using i(1) pf(1) plannedD(4) [OF pl] by auto
    then have "(i, n) \<in> set (take k0 ?full)" using i(2) k0 by (metis Un_iff append_take_drop_id fst_conv image_eqI set_append)
    then have "snd (j, k) < snd (i, n)"
      using pf(4) jk k0 sorted_wrt_append [of "\<lambda>x y. snd y < snd x" "take k0 ?full" "drop k0 ?full"] by fastforce
    then show ?thesis using mem [OF n] by simp
  qed
qed

lemma assigned_index:
  assumes sp: "sound_plan db0 p b r" and k: "k < length (rr_order r)"
  shows "map_of (enumerate_from (rr_start r) (rr_order r)) (rr_order r ! k) = Some (rr_start r + int k)"
  by (rule map_of_enumerate [OF plan_order(1) [OF sp] k])

lemma run_index_cases:
  assumes sp: "sound_plan db0 p b r" and i: "i \<in> fr_id ` set (rows_of db0 p)"
  obtains (prefix) "i \<notin> set (rr_order r)" "run_index db0 r i = old_index db0 i" "old_index db0 i < rr_start r"
  | (assigned) k where "k < rr_assigned r" "i = rr_order r ! k" "run_index db0 r i = rr_start r + int k"
  | (parked) "i \<in> waiting r" "i \<notin> fst ` set (rr_parking r)" "run_index db0 r i = old_index db0 i + rr_offset r"
  | (unparked) "i \<in> waiting r" "i \<in> fst ` set (rr_parking r)" "run_index db0 r i = old_index db0 i"
proof (cases "i \<in> set (rr_order r)")
  case False
  then have "run_index db0 r i = old_index db0 i" by (auto simp: run_index_def dest: in_set_takeD)
  then show ?thesis using prefix [OF False] plan_prefix(2) [OF sp i False] by blast
next
  case ord: True
  show ?thesis
  proof (cases "i \<in> set (take (rr_assigned r) (rr_order r))")
    case True
    then obtain k where k: "k < rr_assigned r" "k < length (rr_order r)" "i = rr_order r ! k" by (auto simp: in_set_conv_nth)
    then show ?thesis using assigned [OF k(1,3)] True assigned_index [OF sp k(2)] by (simp add: run_index_def)
  next
    case False
    then have w: "i \<in> waiting r" using ord unfolding waiting_def by (metis Un_iff append_take_drop_id set_append)
    show ?thesis
      by (cases "i \<in> fst ` set (rr_parking r)") (use parked [OF w] unparked [OF w] False ord in \<open>simp_all add: run_index_def\<close>)
  qed
qed

section \<open>Writes to rows that may be gone\<close>

lemma set_index_ids: "set_index a rows = Inr rows' \<Longrightarrow> map fr_id rows' = map fr_id rows"
  by (auto simp: set_index_def split: option.splits if_splits)

lemma set_index_absent: "fst a \<notin> fr_id ` set rows \<Longrightarrow> set_index a rows = Inr rows"
proof -
  assume "fst a \<notin> fr_id ` set rows"
  then have "List.find (\<lambda>f. fr_id f = fst a) rows = None" by (auto simp: find_None_iff image_iff)
  then show ?thesis by (simp add: set_index_def)
qed

lemma set_indexes_present:
  "set_sequence_indexes asg rows = set_sequence_indexes (filter (\<lambda>a. fst a \<in> fr_id ` set rows) asg) rows"
proof (induction asg arbitrary: rows)
  case (Cons a asg)
  show ?case
  proof (cases "fst a \<in> fr_id ` set rows")
    case True
    show ?thesis
    proof (cases "set_index a rows")
      case (Inr rows1)
      then have "fr_id ` set rows1 = fr_id ` set rows" using set_index_ids by (metis list.set_map)
      then show ?thesis using True Inr Cons.IH [of rows1] by simp
    qed (use True in simp)
  next
    case False
    then show ?thesis using Cons.IH [of rows] by (simp add: set_index_absent)
  qed
qed simp

lemma map_of_filter_fst: "P i \<Longrightarrow> map_of (filter (\<lambda>a. P (fst a)) asg) i = map_of asg i"
  by (induction asg) auto

lemma set_indexes_reached:
  assumes "distinct (map fst asg)" "distinct (map snd asg)"
    and own: "\<And>f. f \<in> set rows \<Longrightarrow> fr_id f \<in> fst ` set asg \<Longrightarrow> fr_project_id f = p"
    and free: "\<And>i n g. (i, n) \<in> set asg \<Longrightarrow> i \<in> fr_id ` set rows \<Longrightarrow> g \<in> set rows \<Longrightarrow> fr_project_id g = p \<Longrightarrow> fr_sequence_index g \<noteq> n"
  shows "set_sequence_indexes asg rows = Inr (map (reindexed (map_of asg)) rows)"
proof -
  let ?asg = "filter (\<lambda>a. fst a \<in> fr_id ` set rows) asg"
  have "set_sequence_indexes ?asg rows = Inr (map (reindexed (map_of ?asg)) rows)"
  proof (rule set_indexes_free)
    show "distinct (map fst ?asg)" "distinct (map snd ?asg)" using assms(1,2) by (auto intro: distinct_map_filter)
    fix i f assume "i \<in> fst ` set ?asg" "f \<in> set rows" "fr_id f = i"
    then show "fr_project_id f = p" using own [of f] by auto
  next
    fix n g assume "n \<in> snd ` set ?asg" "g \<in> set rows" "fr_project_id g = p"
    then show "fr_sequence_index g \<noteq> n" using free by auto
  qed
  moreover have "map (reindexed (map_of ?asg)) rows = map (reindexed (map_of asg)) rows"
    by (simp add: reindexed_def map_of_filter_fst [where P = "\<lambda>i. i \<in> fr_id ` set rows"])
  ultimately show ?thesis using set_indexes_present [of asg rows] by simp
qed

section \<open>Each transaction\<close>

definition own_rows :: "frame_db \<Rightarrow> int \<Rightarrow> frame_db \<Rightarrow> bool" where
  "own_rows db0 p db \<longleftrightarrow>
     fd_last_id db0 \<le> fd_last_id db \<and>
     (\<forall>f\<in>set (fd_frames db). fr_id f \<in> fr_id ` set (rows_of db0 p) \<longrightarrow> fr_project_id f = p)"

lemma own_rowsD:
  "own_rows db0 p db \<Longrightarrow> f \<in> set (fd_frames db) \<Longrightarrow> fr_id f \<in> fr_id ` set (rows_of db0 p) \<Longrightarrow> fr_project_id f = p"
  by (simp add: own_rows_def)

lemma own_rows_with_indexes: "own_rows db0 p (with_indexes m db) = own_rows db0 p db"
  by (simp add: own_rows_def)

lemma cell_of_row: "f \<in> set (fd_frames db) \<Longrightarrow> fr_project_id f = p \<Longrightarrow> (fr_id f, fr_sequence_index f) \<in> cells db p"
  by (auto simp: cells_def rows_of_def)

lemma present_cell:
  assumes "own_rows db0 p db" "i \<in> fr_id ` set (fd_frames db)" "i \<in> fr_id ` set (rows_of db0 p)"
  obtains n where "(i, n) \<in> cells db p"
  using assms cell_of_row own_rowsD by (metis imageE)

text \<open>
  A list of writes to rows of the plan, each to a slot no row of the project has, keeps the
  table's invariant.
\<close>

lemma run_write:
  assumes wf: "frames_wf db" and own: "own_rows db0 p db" and d: "distinct (map fst asg)" "distinct (map snd asg)"
    and ids: "fst ` set asg \<subseteq> fr_id ` set (rows_of db0 p)"
    and pos: "\<And>i n. (i, n) \<in> set asg \<Longrightarrow> 1 \<le> n"
    and free: "\<And>i n j. (i, n) \<in> set asg \<Longrightarrow> i \<in> fst ` cells db p \<Longrightarrow> (j, n) \<notin> cells db p"
  shows "set_sequence_indexes asg (fd_frames db) = Inr (fd_frames (with_indexes (map_of asg) db))"
    and "frames_wf (with_indexes (map_of asg) db)"
proof -
  have p: "fr_project_id f = p" if "f \<in> set (fd_frames db)" "fr_id f \<in> fst ` set asg" for f
    using own_rowsD [OF own that(1)] that(2) ids by blast
  have "set_sequence_indexes asg (fd_frames db) = Inr (map (reindexed (map_of asg)) (fd_frames db))"
  proof (rule set_indexes_reached [OF d p])
    fix i n g assume i: "(i, n) \<in> set asg" "i \<in> fr_id ` set (fd_frames db)" and g: "g \<in> set (fd_frames db)" "fr_project_id g = p"
    obtain f where f: "f \<in> set (fd_frames db)" "i = fr_id f" using i(2) by auto
    have "fr_project_id f = p" using p [OF f(1)] i(1) f(2) by force
    then have "(i, fr_sequence_index f) \<in> cells db p" using cell_of_row [OF f(1)] f(2) by simp
    then have "i \<in> fst ` cells db p" by force
    then show "fr_sequence_index g \<noteq> n" using free [OF i(1)] cell_of_row [OF g] by metis
  qed
  then show "set_sequence_indexes asg (fd_frames db) = Inr (fd_frames (with_indexes (map_of asg) db))" by simp
  show "frames_wf (with_indexes (map_of asg) db)"
  proof (rule with_indexes_wf [OF wf])
    show "map_of asg (fr_id f) = None" if "f \<in> set (fd_frames db)" "fr_project_id f \<noteq> p" for f
      using p [OF that(1)] that(2) by (auto simp: map_of_eq_None_iff)
    show "1 \<le> index_under (map_of asg) f" if "f \<in> set (rows_of db p)" for f
      using rows_of_facts(3) [OF wf that] pos by (auto simp: index_under_def split: option.splits dest!: map_of_SomeD)
    show "inj_on (index_under (map_of asg)) (set (rows_of db p))"
    proof (rule inj_onI)
      fix f g assume f: "f \<in> set (rows_of db p)" and g: "g \<in> set (rows_of db p)"
        and eq: "index_under (map_of asg) f = index_under (map_of asg) g"
      have cf: "(fr_id f, fr_sequence_index f) \<in> cells db p" "(fr_id g, fr_sequence_index g) \<in> cells db p"
        using f g by (auto simp: cells_def)
      then have pf: "fr_id f \<in> fst ` cells db p" "fr_id g \<in> fst ` cells db p" by force+
      show "f = g"
      proof (cases "map_of asg (fr_id f)"; cases "map_of asg (fr_id g)")
        fix n n' assume n: "map_of asg (fr_id f) = Some n" "map_of asg (fr_id g) = Some n'"
        then have "n = n'" using eq by (simp add: index_under_def)
        moreover have "(fr_id f, n) \<in> set asg" "(fr_id g, n') \<in> set asg" using n by (auto dest: map_of_SomeD)
        ultimately have "fr_id f = fr_id g" using d(2) by (metis distinct_map fst_conv inj_onD snd_conv)
        then show ?thesis using id_inj [OF rows_of_facts(1) [OF wf] f g] by simp
      next
        fix n assume n: "map_of asg (fr_id f) = Some n" "map_of asg (fr_id g) = None"
        then show ?thesis using eq free [OF map_of_SomeD [OF n(1)] pf(1)] cf(2) by (auto simp: index_under_def)
      next
        fix n assume n: "map_of asg (fr_id f) = None" "map_of asg (fr_id g) = Some n"
        then show ?thesis using eq free [OF map_of_SomeD [OF n(2)] pf(2)] cf(1) by (auto simp: index_under_def)
      next
        assume "map_of asg (fr_id f) = None" "map_of asg (fr_id g) = None"
        then show ?thesis using eq seq_inj [OF rows_of_facts(2) [OF wf] f g] by (simp add: index_under_def)
      qed
    qed
  qed
qed

lemma old_ids:
  assumes "sound_plan db0 p b r" "i \<in> fr_id ` set (rows_of db0 p)"
  shows "i \<le> fd_last_id db0"
  using assms frames_wfD(2) [OF sound_planD(1) [OF assms(1)]] rows_of_facts(3) [OF sound_planD(1) [OF assms(1)]] by auto

lemma cells_written:
  assumes "(i, n) \<in> cells (with_indexes m db) p"
  obtains n0 where "(i, n0) \<in> cells db p" "n = (case m i of None \<Rightarrow> n0 | Some n' \<Rightarrow> n')"
  using assms unfolding cells_with_indexes by auto

lemma cells_ids [simp]: "fst ` cells (with_indexes m db) p = fst ` cells db p"
  unfolding cells_with_indexes by force

text \<open>What a transaction of writes must show to keep the invariant of the run.\<close>

lemma run_written:
  assumes inv: "run_base db0 r (cells db p)"
    and same: "rr_project r' = rr_project r" "rr_offset r' = rr_offset r" "waiting r' \<subseteq> waiting r" "set (rr_parking r') \<subseteq> set (rr_parking r)"
    and old: "\<And>i n. (i, n) \<in> set asg \<Longrightarrow> i \<le> fd_last_id db0"
    and index: "\<And>i n. (i, n) \<in> cells db p \<Longrightarrow> i \<le> fd_last_id db0 \<Longrightarrow>
      run_index db0 r' i = (case map_of asg i of None \<Rightarrow> run_index db0 r i | Some n' \<Rightarrow> n')"
    and below: "\<And>i n j m. (i, n) \<in> set asg \<Longrightarrow> i \<in> fst ` cells db p \<Longrightarrow> (j, m) \<in> cells db p \<Longrightarrow> fd_last_id db0 < j \<Longrightarrow> n < m"
  shows "run_base db0 r' (cells (with_indexes (map_of asg) db) p)"
proof -
  have late: "(i, n) \<in> cells db p" if "(i, n) \<in> cells (with_indexes (map_of asg) db) p" "fd_last_id db0 < i" for i n
  proof -
    have "map_of asg i = None" using old that(2) by (force simp: map_of_eq_None_iff)
    then show ?thesis using that(1) by (auto elim: cells_written)
  qed
  show ?thesis
  proof (rule run_baseI; (unfold same cells_ids)?)
    fix i n assume i: "(i, n) \<in> cells (with_indexes (map_of asg) db) p" "i \<le> fd_last_id db0"
    from i(1) obtain n0 where n0: "(i, n0) \<in> cells db p" "n = (case map_of asg i of None \<Rightarrow> n0 | Some n' \<Rightarrow> n')"
      by (rule cells_written)
    have "n = run_index db0 r' i" using n0(2) index [OF n0(1) i(2)] run_baseD(2) [OF inv n0(1) i(2)] by (simp split: option.splits)
    then show "i \<in> fr_id ` set (rows_of db0 (rr_project r)) \<and> n = run_index db0 r' i"
      using run_baseD(1) [OF inv n0(1) i(2)] by blast
  next
    fix i n j k assume i: "(i, n) \<in> cells (with_indexes (map_of asg) db) p" "fd_last_id db0 < i"
      and j: "(j, k) \<in> cells (with_indexes (map_of asg) db) p" "j < i"
    from j(1) obtain k0 where k0: "(j, k0) \<in> cells db p" "k = (case map_of asg j of None \<Rightarrow> k0 | Some n' \<Rightarrow> n')"
      by (rule cells_written)
    show "k < n"
    proof (cases "map_of asg j")
      case None
      then show ?thesis using k0 run_baseD(3) [OF inv late [OF i] i(2) k0(1) j(2)] by simp
    next
      case (Some k')
      have "j \<in> fst ` cells db p" using k0(1) by force
      then show ?thesis using below [OF map_of_SomeD [OF Some] _ late [OF i] i(2)] Some k0(2) by simp
    qed
  next
    fix i n j assume i: "(i, n) \<in> cells (with_indexes (map_of asg) db) p" "fd_last_id db0 < i"
      and j: "j \<in> fst ` cells db p" "j \<in> waiting r'"
    have w: "j \<in> waiting r" using j(2) same(3) by blast
    have "k + rr_offset r < n" if "(j', k) \<in> set (rr_parking r')" for j' k
      using run_baseD(5) [OF inv late [OF i] i(2) j(1) w] that same(4) by blast
    then show "rr_offset r < n \<and> (\<forall>(j', k)\<in>set (rr_parking r'). k + rr_offset r < n)"
      using run_baseD(4) [OF inv late [OF i] i(2) j(1) w] by blast
  qed
qed

text \<open>Parking a chunk.\<close>

definition park_writes :: "renumber_run \<Rightarrow> (int \<times> int) list" where
  "park_writes r = map (\<lambda>(i, n). (i, n + rr_offset r)) (take (rr_chunk r) (rr_parking r))"

lemma park_writes_facts:
  assumes sp: "sound_plan db0 p b r"
  shows "fst ` set (park_writes r) = fst ` set (take (rr_chunk r) (rr_parking r))"
    "distinct (map fst (park_writes r))" "distinct (map snd (park_writes r))"
    "\<And>i n. (i, n) \<in> set (park_writes r) \<Longrightarrow> i \<in> set (rr_order r) \<and> (i, old_index db0 i) \<in> set (rr_parking r) \<and> n = old_index db0 i + rr_offset r"
proof -
  note pk = plan_parking [OF sp]
  have maps: "map fst (park_writes r) = map fst (take (rr_chunk r) (rr_parking r))"
    "map snd (park_writes r) = map (\<lambda>n. n + rr_offset r) (map snd (take (rr_chunk r) (rr_parking r)))"
    by (auto simp: park_writes_def)
  show "fst ` set (park_writes r) = fst ` set (take (rr_chunk r) (rr_parking r))" using maps(1) by (metis list.set_map)
  show "distinct (map fst (park_writes r))" unfolding maps using pk(1) by (simp add: take_map [symmetric])
  have "distinct (map snd (take (rr_chunk r) (rr_parking r)))" using pk(2) by (simp add: take_map [symmetric])
  then show "distinct (map snd (park_writes r))" unfolding maps by (simp only: distinct_map inj_on_def) auto
  fix i n assume "(i, n) \<in> set (park_writes r)"
  then obtain n0 where "(i, n0) \<in> set (rr_parking r)" "n = n0 + rr_offset r" by (auto simp: park_writes_def dest: in_set_takeD)
  then show "i \<in> set (rr_order r) \<and> (i, old_index db0 i) \<in> set (rr_parking r) \<and> n = old_index db0 i + rr_offset r"
    using pk(3) by auto
qed

lemma park_writes_free:
  assumes sp: "sound_plan db0 p b r" and inv: "run_base db0 r (cells db p)" and some: "rr_parking r \<noteq> []"
    and i: "(i, n) \<in> set (park_writes r)" "i \<in> fst ` cells db p"
  shows "(j, n) \<notin> cells db p" "\<And>j m. (j, m) \<in> cells db p \<Longrightarrow> fd_last_id db0 < j \<Longrightarrow> n < m"
proof -
  note pl = sound_planD(2) [OF sp] and a = park_writes_facts(4) [OF sp i(1)]
  have zero: "rr_assigned r = 0" by (rule plannedD(6) [OF pl some])
  then have waiting: "waiting r = set (rr_order r)" by (simp add: waiting_def)
  have pos: "1 \<le> old_index db0 i" using plan_ordered(2) [OF sp] a by blast
  show above: "n < m" if "(j, m) \<in> cells db p" "fd_last_id db0 < j" for j m
    using run_baseD(5) [OF inv that i(2)] a waiting by blast
  show "(j, n) \<notin> cells db p"
  proof
    assume j: "(j, n) \<in> cells db p"
    then have le: "j \<le> fd_last_id db0" using above [OF j] by fastforce
    have jr: "j \<in> fr_id ` set (rows_of db0 p)" "n = run_index db0 r j"
      using run_baseD(1,2) [OF inv j le] plannedD(1) [OF pl] by auto
    show False
      using sp jr(1)
    proof (cases rule: run_index_cases)
      case prefix
      then show False using jr(2) a pos plan_start [OF sp] by simp
    next
      case (assigned k)
      then show False using zero by simp
    next
      case parked
      then show False using jr(2) a plan_parking(4) [OF sp _ parked(2), of i "old_index db0 i"] waiting by simp
    next
      case unparked
      then show False using jr(2) a pos plan_ordered(3) [OF sp, of j] waiting by simp
    qed
  qed
qed

lemma park_step:
  assumes sp: "sound_plan db0 p b r" and wf: "frames_wf db" and own: "own_rows db0 p db"
    and inv: "run_base db0 r (cells db p)" and some: "rr_parking r \<noteq> []"
  defines "r' \<equiv> r\<lparr>rr_parking := drop (rr_chunk r) (rr_parking r)\<rparr>" and "db' \<equiv> with_indexes (map_of (park_writes r)) db"
  shows "park_rows (take (rr_chunk r) (rr_parking r)) (rr_offset r) (fd_frames db) = Inr (fd_frames db')"
    and "frames_wf db'" and "sound_plan db0 p b r'" and "run_base db0 r' (cells db' p)"
proof -
  note f = park_writes_facts [OF sp] and free = park_writes_free [OF sp inv some]
  have zero: "rr_assigned r = 0" by (rule plannedD(6) [OF sound_planD(2) [OF sp] some])
  have ids: "fst ` set (park_writes r) \<subseteq> fr_id ` set (rows_of db0 p)" using f(4) plan_order(2) [OF sp] by auto
  have pos: "1 \<le> n" if "(i, n) \<in> set (park_writes r)" for i n
    using f(4) [OF that] plan_ordered(2,3) [OF sp, of i] by simp
  note w = run_write [OF wf own f(2,3) ids pos free(1)]
  show "park_rows (take (rr_chunk r) (rr_parking r)) (rr_offset r) (fd_frames db) = Inr (fd_frames db')"
    using w(1) by (simp add: park_rows_def park_writes_def db'_def)
  show "frames_wf db'" unfolding db'_def by (rule w(2))
  show "sound_plan db0 p b r'" using sp zero by (auto simp: sound_plan_def planned_def r'_def)
  have split: "fst ` set (rr_parking r) = fst ` set (take (rr_chunk r) (rr_parking r)) \<union> fst ` set (drop (rr_chunk r) (rr_parking r))"
    by (simp only: set_append [symmetric] image_Un [symmetric] append_take_drop_id)
  have "distinct (map fst (take (rr_chunk r) (rr_parking r)) @ map fst (drop (rr_chunk r) (rr_parking r)))"
    using plan_parking(1) [OF sp] by (simp only: map_append [symmetric] append_take_drop_id)
  then have apart: "fst ` set (take (rr_chunk r) (rr_parking r)) \<inter> fst ` set (drop (rr_chunk r) (rr_parking r)) = {}"
    unfolding distinct_append set_map by blast
  show "run_base db0 r' (cells db' p)"
    unfolding db'_def
  proof (rule run_written [OF inv])
    show "rr_project r' = rr_project r" "rr_offset r' = rr_offset r" "waiting r' \<subseteq> waiting r" "set (rr_parking r') \<subseteq> set (rr_parking r)"
      by (auto simp: r'_def waiting_def dest: in_set_dropD)
    show "i \<le> fd_last_id db0" if "(i, n) \<in> set (park_writes r)" for i n
      using old_ids [OF sp] ids that by force
    show "run_index db0 r' i = (case map_of (park_writes r) i of None \<Rightarrow> run_index db0 r i | Some n' \<Rightarrow> n')" for i
    proof (cases "map_of (park_writes r) i")
      case (Some n')
      then have m: "(i, n') \<in> set (park_writes r)" by (rule map_of_SomeD)
      then have "i \<in> fst ` set (take (rr_chunk r) (rr_parking r))" using f(1) by force
      then have "i \<notin> fst ` set (drop (rr_chunk r) (rr_parking r))" using apart by blast
      then show ?thesis using f(4) [OF m] zero Some by (simp add: run_index_def r'_def)
    next
      case None
      then have "i \<notin> fst ` set (take (rr_chunk r) (rr_parking r))" using f(1) by (simp add: map_of_eq_None_iff)
      then show ?thesis using None split zero by (simp add: run_index_def r'_def)
    qed
  qed (rule free(2))
qed

lemma park_leaves:
  fixes r :: renumber_run
  assumes sp: "sound_plan db0 p b r"
    and some: "(i, n) \<in> cells db p" "rr_offset r < n \<or> i \<in> fst ` set (park_writes r)"
  shows "parked_left (r\<lparr>rr_parking := ps\<rparr>) (cells (with_indexes (map_of (park_writes r)) db) p)"
proof -
  let ?n = "case map_of (park_writes r) i of None \<Rightarrow> n | Some n' \<Rightarrow> n'"
  have "(i, ?n) \<in> cells (with_indexes (map_of (park_writes r)) db) p" using some(1) unfolding cells_with_indexes by force
  moreover have "rr_offset r < ?n"
  proof (cases "map_of (park_writes r) i")
    case None
    then have "rr_offset r < n" using some(2) by (simp add: map_of_eq_None_iff)
    then show ?thesis using None by simp
  next
    case (Some n')
    show ?thesis using park_writes_facts(4) [OF sp map_of_SomeD [OF Some]] plan_ordered(2) [OF sp, of i] Some by simp
  qed
  ultimately show ?thesis unfolding parked_left_def by force
qed

text \<open>Assigning a chunk.\<close>

definition assign_writes :: "renumber_run \<Rightarrow> (int \<times> int) list" where
  "assign_writes r = enumerate_from (rr_start r + int (rr_assigned r)) (take (rr_chunk r) (drop (rr_assigned r) (rr_order r)))"

lemma assign_writes_iff:
  "(i, n) \<in> set (assign_writes r) \<longleftrightarrow>
     (\<exists>k. rr_assigned r \<le> k \<and> k < rr_assigned r + rr_chunk r \<and> k < length (rr_order r) \<and> i = rr_order r ! k \<and> n = rr_start r + int k)"
proof
  assume "(i, n) \<in> set (assign_writes r)"
  then obtain j where "j < length (assign_writes r)" "assign_writes r ! j = (i, n)" by (meson in_set_conv_nth)
  then show "\<exists>k. rr_assigned r \<le> k \<and> k < rr_assigned r + rr_chunk r \<and> k < length (rr_order r) \<and> i = rr_order r ! k \<and> n = rr_start r + int k"
    by (intro exI [of _ "rr_assigned r + j"]) (auto simp: assign_writes_def enumerate_from_facts)
next
  assume "\<exists>k. rr_assigned r \<le> k \<and> k < rr_assigned r + rr_chunk r \<and> k < length (rr_order r) \<and> i = rr_order r ! k \<and> n = rr_start r + int k"
  then obtain k where k: "rr_assigned r \<le> k" "k < rr_assigned r + rr_chunk r" "k < length (rr_order r)" "i = rr_order r ! k" "n = rr_start r + int k"
    by blast
  let ?xs = "take (rr_chunk r) (drop (rr_assigned r) (rr_order r))"
  have l: "k - rr_assigned r < length ?xs" and "?xs ! (k - rr_assigned r) = rr_order r ! k" using k(1-3) by auto
  then have "assign_writes r ! (k - rr_assigned r) = (i, n)"
    unfolding assign_writes_def enumerate_from_facts(3) [OF l] using k(1,4,5) by simp
  then show "(i, n) \<in> set (assign_writes r)"
    using l nth_mem [of "k - rr_assigned r" "assign_writes r"] by (simp add: assign_writes_def enumerate_from_facts(2))
qed

lemma assign_writes_facts:
  assumes sp: "sound_plan db0 p b r"
  shows "distinct (map fst (assign_writes r))" "distinct (map snd (assign_writes r))"
    "\<And>k. k < length (rr_order r) \<Longrightarrow> map_of (assign_writes r) (rr_order r ! k) =
      (if rr_assigned r \<le> k \<and> k < rr_assigned r + rr_chunk r then Some (rr_start r + int k) else None)"
    "\<And>i. i \<notin> set (rr_order r) \<Longrightarrow> map_of (assign_writes r) i = None"
proof -
  note d = plan_order(1) [OF sp]
  show df: "distinct (map fst (assign_writes r))" using d by (simp add: assign_writes_def enumerate_from_facts(1))
  show "distinct (map snd (assign_writes r))" by (simp add: assign_writes_def enumerate_from_facts(4) distinct_map inj_on_def)
  show "map_of (assign_writes r) i = None" if "i \<notin> set (rr_order r)" for i
    using that assign_writes_iff [of i _ r] by (force simp: map_of_eq_None_iff)
  fix k assume k: "k < length (rr_order r)"
  show "map_of (assign_writes r) (rr_order r ! k) =
      (if rr_assigned r \<le> k \<and> k < rr_assigned r + rr_chunk r then Some (rr_start r + int k) else None)"
  proof (cases "rr_assigned r \<le> k \<and> k < rr_assigned r + rr_chunk r")
    case True
    then have "(rr_order r ! k, rr_start r + int k) \<in> set (assign_writes r)" unfolding assign_writes_iff using k by blast
    then show ?thesis using True df by simp
  next
    case False
    have "(rr_order r ! k, n) \<notin> set (assign_writes r)" for n
    proof
      assume "(rr_order r ! k, n) \<in> set (assign_writes r)"
      then obtain k' where "rr_assigned r \<le> k'" "k' < rr_assigned r + rr_chunk r" "k' < length (rr_order r)" "rr_order r ! k = rr_order r ! k'"
        unfolding assign_writes_iff by blast
      then show False using False nth_eq_iff_index_eq [OF d k, of k'] by simp
    qed
    then show ?thesis using False by (force simp: map_of_eq_None_iff)
  qed
qed

lemma run_index_nth:
  assumes sp: "sound_plan db0 p b r" and k: "k < length (rr_order r)"
  shows "run_index db0 r (rr_order r ! k) =
    (if k < rr_assigned r then rr_start r + int k
     else if rr_order r ! k \<in> fst ` set (rr_parking r) then old_index db0 (rr_order r ! k)
     else old_index db0 (rr_order r ! k) + rr_offset r)"
proof -
  note d = plan_order(1) [OF sp]
  have "rr_order r ! k \<in> set (take (rr_assigned r) (rr_order r)) \<longleftrightarrow> k < rr_assigned r"
  proof
    assume "rr_order r ! k \<in> set (take (rr_assigned r) (rr_order r))"
    then obtain k' where "k' < rr_assigned r" "k' < length (rr_order r)" "rr_order r ! k = rr_order r ! k'" by (auto simp: in_set_conv_nth)
    then show "k < rr_assigned r" using nth_eq_iff_index_eq [OF d k, of k'] by simp
  next
    assume "k < rr_assigned r"
    then show "rr_order r ! k \<in> set (take (rr_assigned r) (rr_order r))" using k by (force simp: in_set_conv_nth)
  qed
  then show ?thesis using assigned_index [OF sp k] k by (auto simp: run_index_def)
qed

lemma waiting_nth:
  assumes "sound_plan db0 p b r" "k < length (rr_order r)"
  shows "rr_order r ! k \<in> waiting r \<longleftrightarrow> rr_assigned r \<le> k"
proof
  assume "rr_order r ! k \<in> waiting r"
  then obtain k' where "rr_assigned r + k' < length (rr_order r)" "rr_order r ! k = rr_order r ! (rr_assigned r + k')"
    by (auto simp: waiting_def in_set_conv_nth less_diff_conv add.commute)
  then show "rr_assigned r \<le> k" using nth_eq_iff_index_eq [OF plan_order(1) [OF assms(1)] assms(2), of "rr_assigned r + k'"] by simp
next
  assume "rr_assigned r \<le> k"
  then have "drop (rr_assigned r) (rr_order r) ! (k - rr_assigned r) = rr_order r ! k" "k - rr_assigned r < length (drop (rr_assigned r) (rr_order r))"
    using assms(2) by auto
  then show "rr_order r ! k \<in> waiting r" unfolding waiting_def using nth_mem by metis
qed

lemma assign_writes_free:
  assumes sp: "sound_plan db0 p b r" and inv: "run_base db0 r (cells db p)" and none: "rr_parking r = []"
    and i: "(i, n) \<in> set (assign_writes r)" "i \<in> fst ` cells db p"
  shows "(j, n) \<notin> cells db p" "\<And>j m. (j, m) \<in> cells db p \<Longrightarrow> fd_last_id db0 < j \<Longrightarrow> n < m"
proof -
  note pl = sound_planD(2) [OF sp]
  obtain k where k: "rr_assigned r \<le> k" "k < length (rr_order r)" "i = rr_order r ! k" "n = rr_start r + int k"
    using i(1) unfolding assign_writes_iff by blast
  have w: "i \<in> waiting r" using waiting_nth [OF sp k(2)] k(1,3) by simp
  have off: "n < rr_offset r" using plan_start(2) [OF sp] k(2,4) by simp
  show above: "n < m" if "(j, m) \<in> cells db p" "fd_last_id db0 < j" for j m
    using run_baseD(4) [OF inv that i(2) w] off by simp
  show "(j, n) \<notin> cells db p"
  proof
    assume j: "(j, n) \<in> cells db p"
    then have le: "j \<le> fd_last_id db0" using above [OF j] by fastforce
    have jr: "j \<in> fr_id ` set (rows_of db0 p)" "n = run_index db0 r j"
      using run_baseD(1,2) [OF inv j le] plannedD(1) [OF pl] by auto
    show False
      using sp jr(1)
    proof (cases rule: run_index_cases)
      case prefix
      then show False using jr(2) k(4) by simp
    next
      case (assigned k')
      then show False using jr(2) k(1,4) by simp
    next
      case parked
      have "j \<in> set (rr_order r)" using parked(1) by (auto simp: waiting_def dest: in_set_dropD)
      then show False using jr(2) parked(3) off plan_ordered(2) [OF sp, of j] by simp
    next
      case unparked
      then show False using none by simp
    qed
  qed
qed

lemma assign_step:
  assumes sp: "sound_plan db0 p b r" and wf: "frames_wf db" and own: "own_rows db0 p db"
    and inv: "run_base db0 r (cells db p)" and none: "rr_parking r = []"
  defines "r' \<equiv> r\<lparr>rr_assigned := min (length (rr_order r)) (rr_assigned r + rr_chunk r)\<rparr>" and "db' \<equiv> with_indexes (map_of (assign_writes r)) db"
  shows "set_sequence_indexes (assign_writes r) (fd_frames db) = Inr (fd_frames db')"
    and "frames_wf db'" and "sound_plan db0 p b r'" and "run_base db0 r' (cells db' p)"
proof -
  note f = assign_writes_facts [OF sp] and free = assign_writes_free [OF sp inv none]
  have mem: "i \<in> set (rr_order r)" if "(i, n) \<in> set (assign_writes r)" for i n using that by (auto simp: assign_writes_iff)
  have ids: "fst ` set (assign_writes r) \<subseteq> fr_id ` set (rows_of db0 p)" using mem plan_order(2) [OF sp] by auto
  have pos: "1 \<le> n" if "(i, n) \<in> set (assign_writes r)" for i n
    using that plan_start(1) [OF sp] by (auto simp: assign_writes_iff)
  note w = run_write [OF wf own f(1,2) ids pos free(1)]
  show "set_sequence_indexes (assign_writes r) (fd_frames db) = Inr (fd_frames db')" using w(1) by (simp add: db'_def)
  show "frames_wf db'" unfolding db'_def by (rule w(2))
  show sp': "sound_plan db0 p b r'" using sp none by (auto simp: sound_plan_def planned_def r'_def)
  have order: "rr_order r' = rr_order r" by (simp add: r'_def)
  show "run_base db0 r' (cells db' p)"
    unfolding db'_def
  proof (rule run_written [OF inv])
    show "rr_project r' = rr_project r" "rr_offset r' = rr_offset r" "set (rr_parking r') \<subseteq> set (rr_parking r)" by (simp_all add: r'_def)
    show sub: "waiting r' \<subseteq> waiting r" using plannedD(5) [OF sound_planD(2) [OF sp]] by (auto simp: r'_def waiting_def min_def intro: set_drop_subset_set_drop [THEN subsetD, rotated])
    show "i \<le> fd_last_id db0" if "(i, n) \<in> set (assign_writes r)" for i n
      using old_ids [OF sp] ids that by force
    show "run_index db0 r' i = (case map_of (assign_writes r) i of None \<Rightarrow> run_index db0 r i | Some n' \<Rightarrow> n')" for i
    proof (cases "i \<in> set (rr_order r)")
      case True
      then obtain k where k: "k < length (rr_order r)" "i = rr_order r ! k" by (auto simp: in_set_conv_nth)
      then show ?thesis
        using f(3) [OF k(1)] run_index_nth [OF sp k(1)] run_index_nth [OF sp', of k, unfolded order] none by (simp add: r'_def)
    next
      case False
      then show ?thesis using f(4) [OF False] by (auto simp: run_index_def r'_def dest: in_set_takeD)
    qed
  qed (rule free(2))
qed

lemma assign_leaves:
  assumes sp: "sound_plan db0 p b r" and inv: "run_base db0 r (cells db p)" and none: "rr_parking r = []"
  defines "r' \<equiv> r\<lparr>rr_assigned := min (length (rr_order r)) (rr_assigned r + rr_chunk r)\<rparr>"
  shows "parked_left r' (cells (with_indexes (map_of (assign_writes r)) db) p)"
proof (cases "fst ` cells db p \<inter> waiting r' = {}")
  case True
  then show ?thesis by (simp add: parked_left_def)
next
  case False
  have order: "rr_order r' = rr_order r" by (simp add: r'_def)
  have sp': "sound_plan db0 p b r'" using sp none by (auto simp: sound_plan_def planned_def r'_def)
  obtain i n where i: "(i, n) \<in> cells db p" "i \<in> waiting r'" using False by auto
  have "i \<in> set (rr_order r)" using i(2) order by (auto simp: waiting_def dest: in_set_dropD)
  then obtain k where k: "k < length (rr_order r)" "i = rr_order r ! k" by (auto simp: in_set_conv_nth)
  then have "rr_assigned r' \<le> k" using waiting_nth [OF sp', of k] i(2) order by simp
  then have late: "rr_assigned r + rr_chunk r \<le> k" using k(1) by (simp add: r'_def)
  have "i \<le> fd_last_id db0" using old_ids [OF sp] plan_order(2) [OF sp] k nth_mem by fastforce
  then have "n = old_index db0 i + rr_offset r"
    using run_baseD(2) [OF inv i(1)] run_index_nth [OF sp k(1)] late none k(2) by simp
  then have "rr_offset r' < n" using plan_ordered(2) [OF sp, of i] k by (simp add: r'_def)
  moreover have "map_of (assign_writes r) i = None" using assign_writes_facts(3) [OF sp k(1)] late k(2) by simp
  then have "(i, n) \<in> cells (with_indexes (map_of (assign_writes r)) db) p" using i(1) unfolding cells_with_indexes by force
  ultimately show ?thesis unfolding parked_left_def by blast
qed

end
