(* ===== verification/Renumber_Steps.thy ===== *)
theory Renumber_Steps
  imports Frame_Renumber
begin

text \<open>
  The chunked renumber with other work between its transactions: captures, edits, lifecycle
  changes and deletes.  No transaction meets the unique constraint, the listing is coherent at
  every moment, and with nothing in between the run ends with what the single transaction gives.
\<close>

section \<open>Closing the gap above the renumbered range\<close>

lemma enumerate_from_Cons [simp]: "enumerate_from s (x # xs) = (x, s) # enumerate_from (s + 1) xs"
proof -
  have "map (\<lambda>k. s + int k) [0..<Suc (length xs)] = s # map (\<lambda>k. s + 1 + int k) [0..<length xs]"
    by (simp only: upt_conv_Cons [OF zero_less_Suc] map_Suc_upt [symmetric] list.map) (simp add: comp_def)
  then show ?thesis by (simp add: enumerate_from_def del: upt_Suc)
qed

lemma enumerate_from_Nil [simp]: "enumerate_from s [] = []"
  by (simp add: enumerate_from_def)

definition ascending :: "int \<Rightarrow> frame list \<Rightarrow> bool" where
  "ascending s ts \<longleftrightarrow> sorted_wrt (<) ((s - 1) # map fr_sequence_index ts)"

lemma ascending_Cons: "ascending s (t # ts) \<longleftrightarrow> s \<le> fr_sequence_index t \<and> ascending (fr_sequence_index t + 1) ts"
  by (force simp: ascending_def)

lemma ascending_mono: "ascending s ts \<Longrightarrow> s' \<le> s \<Longrightarrow> ascending s' ts"
  by (force simp: ascending_def)

lemma ascending_nth: "ascending s ts \<Longrightarrow> k < length ts \<Longrightarrow> s + int k \<le> fr_sequence_index (ts ! k)"
proof (induction ts arbitrary: s k)
  case (Cons t ts)
  show ?case
  proof (cases k)
    case (Suc j)
    then show ?thesis using Cons.IH [of "fr_sequence_index t + 1" j] Cons.prems by (simp add: ascending_Cons)
  qed (use Cons.prems in \<open>simp add: ascending_Cons\<close>)
qed simp

text \<open>
  Rows moved down in order, into slots that only they hold: no write collides, whether or not
  the writes that change nothing are left out.
\<close>

lemma compact_writes:
  assumes "ascending s ts" "set ts \<subseteq> set rows" "distinct (map fr_id rows)" "distinct (map fr_id ts)" "\<And>t. t \<in> set ts \<Longrightarrow> fr_project_id t = p"
    and "\<And>g t. g \<in> set rows \<Longrightarrow> fr_project_id g = p \<Longrightarrow> g \<notin> set ts \<Longrightarrow> t \<in> set ts \<Longrightarrow> fr_sequence_index g < s \<or> fr_sequence_index t < fr_sequence_index g"
  shows "set_sequence_indexes (map (\<lambda>(f, n). (fr_id f, n)) (filter (\<lambda>(f, n). n \<noteq> fr_sequence_index f) (enumerate_from s ts))) rows =
    Inr (map (reindexed (map_of (enumerate_from s (map fr_id ts)))) rows)"
  using assms
proof (induction ts arbitrary: s rows)
  case Nil
  then show ?case by (simp add: reindexed_def)
next
  case (Cons t ts)
  let ?rows1 = "map (reindexed [fr_id t \<mapsto> s]) rows"
  have t: "t \<in> set rows" "s \<le> fr_sequence_index t" "fr_project_id t = p" "ascending (fr_sequence_index t + 1) ts"
    using Cons.prems(1,2,5) by (auto simp: ascending_Cons)
  have above: "fr_sequence_index t < fr_sequence_index u" if "u \<in> set ts" for u
    using t(4) that by (auto simp: ascending_def)
  have other: "fr_id u \<noteq> fr_id t" if "u \<in> set ts" for u using Cons.prems(4) that by (force simp: image_iff)
  have "set_sequence_indexes [(fr_id t, s)] rows = Inr (map (reindexed (map_of [(fr_id t, s)])) rows)" if "s \<noteq> fr_sequence_index t"
  proof (rule set_indexes_free [where p = p])
    show "fr_project_id f = p" if "i \<in> fst ` set [(fr_id t, s)]" "f \<in> set rows" "fr_id f = i" for i f
      using id_inj [OF Cons.prems(3) t(1), of f] that t(3) by auto
    show "fr_sequence_index g \<noteq> n" if n: "n \<in> snd ` set [(fr_id t, s)]" and g: "g \<in> set rows" "fr_project_id g = p" for n g
      using Cons.prems(6) [OF g, of t] above [of g] t(2) n \<open>s \<noteq> fr_sequence_index t\<close> by (cases "g \<in> set (t # ts)") auto
  qed simp_all
  then have one: "set_index (fr_id t, s) rows = Inr ?rows1" if "s \<noteq> fr_sequence_index t"
    using that by (cases "set_index (fr_id t, s) rows") simp_all
  have same: "?rows1 = rows" if "s = fr_sequence_index t"
  proof (rule map_idI)
    fix x assume "x \<in> set rows"
    then show "reindexed [fr_id t \<mapsto> s] x = x" using id_inj [OF Cons.prems(3) t(1), of x] that by (cases "fr_id x = fr_id t") (simp_all add: reindexed_def)
  qed
  have "set_sequence_indexes (map (\<lambda>(f, n). (fr_id f, n)) (filter (\<lambda>(f, n). n \<noteq> fr_sequence_index f) (enumerate_from (s + 1) ts))) ?rows1 =
    Inr (map (reindexed (map_of (enumerate_from (s + 1) (map fr_id ts)))) ?rows1)"
  proof (rule Cons.IH)
    show "ascending (s + 1) ts" using ascending_mono [OF t(4)] t(2) by simp
    show "set ts \<subseteq> set ?rows1"
    proof
      fix u assume u: "u \<in> set ts"
      then have "reindexed [fr_id t \<mapsto> s] u = u" using other by simp
      then show "u \<in> set ?rows1" using u Cons.prems(2) by force
    qed
    show "distinct (map fr_id ?rows1)" "distinct (map fr_id ts)" using Cons.prems(3,4) by (simp_all add: comp_def)
    show "fr_project_id u = p" if "u \<in> set ts" for u using Cons.prems(5) that by simp
    fix g u assume g: "g \<in> set ?rows1" "fr_project_id g = p" "g \<notin> set ts" and u: "u \<in> set ts"
    from g(1) obtain g0 where g0: "g0 \<in> set rows" "g = reindexed [fr_id t \<mapsto> s] g0" by auto
    show "fr_sequence_index g < s + 1 \<or> fr_sequence_index u < fr_sequence_index g"
    proof (cases "fr_id g0 = fr_id t")
      case False
      then have "g = g0" using g0(2) by simp
      then have "fr_sequence_index g < s \<or> fr_sequence_index u < fr_sequence_index g"
        using Cons.prems(6) [of g u] g0(1) g(2,3) u False by auto
      then show ?thesis by linarith
    qed (simp add: g0(2) index_under_def)
  qed
  moreover have "[fr_id t \<mapsto> s] ++ map_of (enumerate_from (s + 1) (map fr_id ts)) = map_of (enumerate_from s (map fr_id (t # ts)))"
    using map_of_enumerate_None [of "fr_id t" "map fr_id ts" "s + 1"] Cons.prems(4)
    by (auto simp: map_add_def fun_eq_iff split: option.splits)
  ultimately show ?case using one same by (cases "s = fr_sequence_index t") (simp_all add: reindexed_twice comp_def fun_upd_def)
qed

definition tail_rows :: "nat \<Rightarrow> int \<Rightarrow> int \<Rightarrow> frame_db \<Rightarrow> frame list" where
  "tail_rows limit p s db = take limit (by_sequence (filter (\<lambda>f. fr_sequence_index f \<ge> s) (rows_of db p)))"

definition closing :: "int \<Rightarrow> frame list \<Rightarrow> int \<Rightarrow> int option" where
  "closing s ts = map_of (enumerate_from s (map fr_id ts))"

lemma strictly_by_sequence:
  assumes "distinct (map fr_sequence_index rows)"
  shows "sorted_wrt (<) (map fr_sequence_index (by_sequence rows))"
  using sorted_by_sequence [of rows] assms by (simp add: strict_sorted_iff distinct_by_sequence)

lemma tail_rows_facts:
  assumes wf: "frames_wf db"
  shows "ascending s (tail_rows limit p s db)" "set (tail_rows limit p s db) \<subseteq> set (rows_of db p)"
    "distinct (map fr_id (tail_rows limit p s db))"
    "\<And>g t. g \<in> set (rows_of db p) \<Longrightarrow> g \<notin> set (tail_rows limit p s db) \<Longrightarrow> t \<in> set (tail_rows limit p s db) \<Longrightarrow>
      fr_sequence_index g < s \<or> fr_sequence_index t < fr_sequence_index g"
    "length (tail_rows limit p s db) < limit \<Longrightarrow> g \<in> set (rows_of db p) \<Longrightarrow> s \<le> fr_sequence_index g \<Longrightarrow> g \<in> set (tail_rows limit p s db)"
proof -
  let ?all = "by_sequence (filter (\<lambda>f. fr_sequence_index f \<ge> s) (rows_of db p))"
  have d: "distinct (map fr_sequence_index (filter (\<lambda>f. fr_sequence_index f \<ge> s) (rows_of db p)))"
    "distinct (map fr_id (filter (\<lambda>f. fr_sequence_index f \<ge> s) (rows_of db p)))"
    using rows_of_facts(1,2) [OF wf, of p] by (auto intro: distinct_map_filter)
  have srt: "sorted_wrt (<) (map fr_sequence_index ?all)" by (rule strictly_by_sequence [OF d(1)])
  show "ascending s (tail_rows limit p s db)" unfolding ascending_def sorted_wrt.simps tail_rows_def take_map [symmetric]
    using sorted_wrt_take [OF srt] by (auto simp: take_map dest!: in_set_takeD)
  show "set (tail_rows limit p s db) \<subseteq> set (rows_of db p)" by (auto simp: tail_rows_def dest!: in_set_takeD)
  show "distinct (map fr_id (tail_rows limit p s db))" unfolding tail_rows_def take_map [symmetric]
    by (rule distinct_take) (simp only: distinct_by_sequence d(2))
  show "fr_sequence_index g < s \<or> fr_sequence_index t < fr_sequence_index g"
    if g: "g \<in> set (rows_of db p)" "g \<notin> set (tail_rows limit p s db)" and t: "t \<in> set (tail_rows limit p s db)" for g t
  proof (cases "fr_sequence_index g < s")
    case False
    then have "g \<in> set ?all" using g(1) by simp
    then have "g \<in> set (take limit ?all) \<union> set (drop limit ?all)" by (simp only: set_append [symmetric] append_take_drop_id)
    then have "g \<in> set (drop limit ?all)" using g(2) by (simp add: tail_rows_def)
    moreover have "sorted_wrt (\<lambda>x y. fr_sequence_index x < fr_sequence_index y) (take limit ?all @ drop limit ?all)"
      using srt by (simp add: sorted_wrt_map)
    ultimately show ?thesis using t unfolding tail_rows_def sorted_wrt_append by blast
  qed simp
  show "g \<in> set (tail_rows limit p s db)"
    if "length (tail_rows limit p s db) < limit" "g \<in> set (rows_of db p)" "s \<le> fr_sequence_index g"
    using that by (auto simp: tail_rows_def min_def split: if_splits)
qed

lemma closing_facts:
  fixes p s :: int and limit :: nat
  assumes wf: "frames_wf db"
  defines "m \<equiv> closing s (tail_rows limit p s db)"
  shows "f \<in> set (rows_of db p) \<Longrightarrow> fr_sequence_index f < s \<Longrightarrow> index_under m f = fr_sequence_index f"
    "f \<in> set (rows_of db p) \<Longrightarrow> s \<le> fr_sequence_index f \<Longrightarrow> s \<le> index_under m f"
    "f \<in> set (rows_of db p) \<Longrightarrow> g \<in> set (rows_of db p) \<Longrightarrow> fr_sequence_index f < fr_sequence_index g \<Longrightarrow> index_under m f < index_under m g"
    "f \<in> set (fd_frames db) \<Longrightarrow> f \<notin> set (rows_of db p) \<Longrightarrow> m (fr_id f) = None"
proof -
  let ?ts = "tail_rows limit p s db"
  note t = tail_rows_facts [OF wf, where s = s and limit = limit and p = p]
  have idx: "index_under m (?ts ! k) = s + int k" if "k < length ?ts" for k
    using map_of_enumerate [OF t(3), of k s] that by (simp add: m_def closing_def index_under_def)
  have out: "m (fr_id f) = None" if "f \<in> set (fd_frames db)" "f \<notin> set ?ts" for f
  proof -
    have "fr_id f \<notin> fr_id ` set ?ts"
      using that t(2) id_inj [OF frames_wfD(1) [OF wf] that(1)] rows_of_facts(3) [OF wf] by blast
    then show ?thesis by (simp add: m_def closing_def map_of_enumerate_None)
  qed
  have rows: "f \<in> set (fd_frames db)" if "f \<in> set (rows_of db p)" for f using rows_of_facts(3) [OF wf that] by blast
  have inside: "s \<le> fr_sequence_index f" if "f \<in> set ?ts" for f using t(1) that by (auto simp: ascending_def)
  show low: "index_under m f = fr_sequence_index f" if "f \<in> set (rows_of db p)" "fr_sequence_index f < s" for f
    using out [OF rows [OF that(1)]] inside [of f] that(2) by (cases "f \<in> set ?ts") (simp_all add: index_under_def)
  show "m (fr_id f) = None" if "f \<in> set (fd_frames db)" "f \<notin> set (rows_of db p)" for f
    using out [OF that(1)] t(2) that(2) by blast
  have high: "s \<le> index_under m f \<and> index_under m f \<le> fr_sequence_index f" if f: "f \<in> set (rows_of db p)" "s \<le> fr_sequence_index f" for f
  proof (cases "f \<in> set ?ts")
    case True
    then obtain k where "k < length ?ts" "f = ?ts ! k" by (auto simp: in_set_conv_nth)
    then show ?thesis using idx ascending_nth [OF t(1)] by simp
  qed (use out [OF rows [OF f(1)]] f(2) in \<open>simp add: index_under_def\<close>)
  then show "s \<le> index_under m f" if "f \<in> set (rows_of db p)" "s \<le> fr_sequence_index f" for f using that by blast
  show "index_under m f < index_under m g"
    if f: "f \<in> set (rows_of db p)" and g: "g \<in> set (rows_of db p)" and less: "fr_sequence_index f < fr_sequence_index g" for f g
  proof (cases "fr_sequence_index f < s \<or> g \<notin> set ?ts")
    case True
    then show ?thesis
    proof
      assume "fr_sequence_index f < s"
      then show ?thesis using low [OF f] low [OF g] high [OF g] less by (cases "fr_sequence_index g < s") auto
    next
      assume "g \<notin> set ?ts"
      then have "index_under m g = fr_sequence_index g" using out [OF rows [OF g]] by (simp add: index_under_def)
      then show ?thesis using low [OF f] high [OF f] less by (cases "fr_sequence_index f < s") auto
    qed
  next
    case False
    then have f_in: "f \<in> set ?ts" using t(4) [OF f _, of g] less by (cases "f \<in> set ?ts") auto
    obtain j where j: "j < length ?ts" "f = ?ts ! j" using f_in by (auto simp: in_set_conv_nth)
    obtain k where k: "k < length ?ts" "g = ?ts ! k" using False by (auto simp: in_set_conv_nth)
    have "j < k"
    proof (rule ccontr)
      assume "\<not> j < k"
      moreover have "sorted_wrt (\<lambda>x y. fr_sequence_index x < fr_sequence_index y) ?ts" using t(1) by (simp add: ascending_def sorted_wrt_map)
      ultimately have "j = k \<or> fr_sequence_index (?ts ! k) < fr_sequence_index (?ts ! j)"
        using j(1) by (metis linorder_neqE_nat sorted_wrt_nth_less)
      then show False using less j(2) k(2) by auto
    qed
    then show ?thesis using idx j k by simp
  qed
qed

lemma compact_pass_result:
  fixes p :: int and limit :: nat
  assumes wf: "frames_wf db" and s: "1 \<le> s"
  defines "ts \<equiv> tail_rows limit p s db"
  shows "compact_pass limit p s db = Inr (length ts, with_indexes (closing s ts) db)" "frames_wf (with_indexes (closing s ts) db)"
proof -
  note t = tail_rows_facts [OF wf, where s = s and limit = limit and p = p] and c = closing_facts [OF wf, where p = p and s = s and limit = limit]
  have "set_sequence_indexes (map (\<lambda>(f, n). (fr_id f, n)) (filter (\<lambda>(f, n). n \<noteq> fr_sequence_index f) (enumerate_from s ts))) (fd_frames db) =
    Inr (map (reindexed (map_of (enumerate_from s (map fr_id ts)))) (fd_frames db))"
  proof (rule compact_writes [where p = p])
    show "set ts \<subseteq> set (fd_frames db)" using t(2) rows_of_facts(3) [OF wf] by (auto simp: ts_def)
    show "fr_project_id x = p" if "x \<in> set ts" for x using t(2) rows_of_facts(3) [OF wf] that by (auto simp: ts_def)
    show "fr_sequence_index g < s \<or> fr_sequence_index x < fr_sequence_index g"
      if "g \<in> set (fd_frames db)" "fr_project_id g = p" "g \<notin> set ts" "x \<in> set ts" for g x
      using t(4) [of g x] that by (simp add: ts_def rows_of_def)
  qed (use t(1,3) frames_wfD(1) [OF wf] in \<open>simp_all add: ts_def\<close>)
  then show "compact_pass limit p s db = Inr (length ts, with_indexes (closing s ts) db)"
    by (simp add: compact_pass_def tail_rows_def [symmetric] ts_def closing_def with_indexes_def Let_def)
  show "frames_wf (with_indexes (closing s ts) db)"
  proof (rule with_indexes_wf [OF wf])
    show "closing s ts (fr_id f) = None" if "f \<in> set (fd_frames db)" "fr_project_id f \<noteq> p" for f
      using c(4) that by (simp add: ts_def rows_of_def)
    show "inj_on (index_under (closing s ts)) (set (rows_of db p))"
      using c(3) seq_inj [OF rows_of_facts(2) [OF wf, of p]] by (intro inj_onI) (metis less_irrefl linorder_neqE ts_def)
    show "1 \<le> index_under (closing s ts) f" if "f \<in> set (rows_of db p)" for f
      using c(1,2) [of f] that rows_of_facts(3) [OF wf that] s by (cases "fr_sequence_index f < s") (auto simp: ts_def)
  qed
qed

section \<open>The run and what happens between its transactions\<close>

fun run_of :: "run_state \<Rightarrow> renumber_run" where
  "run_of (Writing r) = r"
| "run_of (Compacting next_index r) = r"
| "run_of (Finished r) = r"

definition all_assigned :: "renumber_run \<Rightarrow> bool" where
  "all_assigned r \<longleftrightarrow> rr_parking r = [] \<and> rr_assigned r = length (rr_order r)"

fun stage_ok :: "run_state \<Rightarrow> bool" where
  "stage_ok (Writing r) = True"
| "stage_ok (Compacting next_index r) = (all_assigned r \<and> rr_start r + int (length (rr_order r)) \<le> next_index)"
| "stage_ok (Finished r) = all_assigned r"

definition state_inv :: "frame_db \<Rightarrow> int \<Rightarrow> int \<Rightarrow> frame_db \<times> run_state \<Rightarrow> bool" where
  "state_inv db0 p b st \<longleftrightarrow>
     frames_wf (fst st) \<and> own_rows db0 p (fst st) \<and> sound_plan db0 p b (run_of (snd st)) \<and>
     run_inv db0 (run_of (snd st)) (cells (fst st) p) \<and> stage_ok (snd st)"

lemma state_invD:
  assumes "state_inv db0 p b (db, st)"
  shows "frames_wf db" "own_rows db0 p db" "sound_plan db0 p b (run_of st)" "run_inv db0 (run_of st) (cells db p)" "stage_ok st"
  using assms by (simp_all add: state_inv_def)

lemma waiting_all_assigned: "all_assigned r \<Longrightarrow> waiting r = {}"
  by (simp add: all_assigned_def waiting_def)

lemma compact_keeps:
  fixes limit :: nat
  assumes sp: "sound_plan db0 p b r" and wf: "frames_wf db" and inv: "run_base db0 r (cells db p)"
    and fin: "all_assigned r" and s: "rr_start r + int (length (rr_order r)) \<le> s"
  defines "m \<equiv> closing s (tail_rows limit p s db)"
  shows "run_base db0 r (cells (with_indexes m db) p)"
proof (rule run_baseI)
  note c = closing_facts [OF wf, where p = p and s = s and limit = limit, folded m_def]
  have cell: "\<exists>f\<in>set (rows_of db p). fr_id f = i \<and> index_under m f = n" if "(i, n) \<in> cells (with_indexes m db) p" for i n
    using that by (auto simp: cells_iff)
  show "i \<in> fr_id ` set (rows_of db0 (rr_project r)) \<and> n = run_index db0 r i"
    if i: "(i, n) \<in> cells (with_indexes m db) p" "i \<le> fd_last_id db0" for i n
  proof -
    obtain f where f: "f \<in> set (rows_of db p)" "fr_id f = i" "index_under m f = n" using cell [OF i(1)] by blast
    then have old: "(i, fr_sequence_index f) \<in> cells db p" by (auto simp: cells_iff)
    have row: "i \<in> fr_id ` set (rows_of db0 p)"
      using run_baseD(1) [OF inv old i(2)] plannedD(1) [OF sound_planD(2) [OF sp]] by simp
    have "fr_sequence_index f < s"
      using sp row
    proof (cases rule: run_index_cases)
      case prefix
      then show ?thesis using run_baseD(2) [OF inv old i(2)] s by simp
    next
      case (assigned k)
      then show ?thesis using run_baseD(2) [OF inv old i(2)] s fin by (simp add: all_assigned_def)
    qed (use waiting_all_assigned [OF fin] in auto)
    then show ?thesis using c(1) [OF f(1)] f(3) run_baseD(1,2) [OF inv old i(2)] by simp
  qed
  show "k < n" if i: "(i, n) \<in> cells (with_indexes m db) p" "fd_last_id db0 < i" and j: "(j, k) \<in> cells (with_indexes m db) p" "j < i"
    for i n j k
  proof -
    obtain f where f: "f \<in> set (rows_of db p)" "fr_id f = i" "index_under m f = n" using cell [OF i(1)] by blast
    obtain g where g: "g \<in> set (rows_of db p)" "fr_id g = j" "index_under m g = k" using cell [OF j(1)] by blast
    have "(i, fr_sequence_index f) \<in> cells db p" "(j, fr_sequence_index g) \<in> cells db p" using f g by (auto simp: cells_iff)
    from run_baseD(3) [OF inv this(1) i(2) this(2) j(2)] show ?thesis using c(3) [OF g(1) f(1)] f(3) g(3) by simp
  qed
qed (use waiting_all_assigned [OF fin] in auto)

text \<open>No transaction of the run can fail, and each keeps the invariant.\<close>

definition only_project :: "frame_db \<Rightarrow> int \<Rightarrow> (int \<Rightarrow> int option) \<Rightarrow> bool" where
  "only_project db p m \<longleftrightarrow> (\<forall>f\<in>set (fd_frames db). fr_project_id f \<noteq> p \<longrightarrow> m (fr_id f) = None)"

lemma only_project_writes:
  assumes "own_rows db0 p db" "fst ` set asg \<subseteq> fr_id ` set (rows_of db0 p)"
  shows "only_project db p (map_of asg)"
proof -
  have "map_of asg (fr_id f) = None" if f: "f \<in> set (fd_frames db)" "fr_project_id f \<noteq> p" for f
    using own_rowsD [OF assms(1) f(1)] f(2) assms(2) by (auto simp: map_of_eq_None_iff)
  then show ?thesis by (simp add: only_project_def)
qed

lemma with_indexes_empty [simp]: "with_indexes Map.empty db = db"
  by (simp add: with_indexes_def map_idI)

lemma advance_sound:
  assumes inv: "state_inv db0 p b (db, st)"
  obtains m st' where "advance limit (db, st) = Inr (with_indexes m db, st')" "state_inv db0 p b (with_indexes m db, st')"
    "only_project db p m"
proof -
  note d = state_invD [OF inv]
  show ?thesis
  proof (cases st)
    case (Writing r)
    with d have r: "sound_plan db0 p b r" "run_inv db0 r (cells db p)" by simp_all
    consider (park) "rr_parking r \<noteq> []" | (assign) "rr_parking r = []" "rr_assigned r < length (rr_order r)"
      | (fin) "rr_parking r = []" "rr_assigned r = length (rr_order r)"
      using plannedD(5) [OF sound_planD(2) [OF r(1)]] by force
    then show ?thesis
    proof cases
      case park
      note p = park_step [OF r(1) d(1,2) run_invD(1) [OF r(2)] park]
      have "parked_left (r\<lparr>rr_parking := drop (rr_chunk r) (rr_parking r)\<rparr>) (cells (with_indexes (map_of (park_writes r)) db) p)"
      proof (cases "fst ` cells db p \<inter> waiting r = {}")
        case True
        then show ?thesis by (simp add: parked_left_def waiting_def)
      next
        case False
        then obtain i n where "(i, n) \<in> cells db p" "rr_offset r < n" using run_invD(2) [OF r(2)] unfolding parked_left_def by blast
        then show ?thesis using park_leaves [OF r(1)] by blast
      qed
      note q = run_invI [OF p(4) this]
      have "fst ` set (park_writes r) \<subseteq> fr_id ` set (rows_of db0 p)"
        using park_writes_facts(4) [OF r(1)] plan_order(2) [OF r(1)] by force
      note o = only_project_writes [OF d(2) this]
      show ?thesis
        by (rule that [of "map_of (park_writes r)" "Writing (r\<lparr>rr_parking := drop (rr_chunk r) (rr_parking r)\<rparr>)"])
          (use p q o park Writing d(2) in \<open>simp_all add: state_inv_def own_rows_with_indexes with_indexes_def [symmetric]\<close>)
    next
      case assign
      note p = assign_step [OF r(1) d(1,2) run_invD(1) [OF r(2)] assign(1)]
      note q = run_invI [OF p(4) assign_leaves [OF r(1) run_invD(1) [OF r(2)] assign(1)]]
      have "fst ` set (assign_writes r) \<subseteq> fr_id ` set (rows_of db0 p)"
        using plan_order(2) [OF r(1)] by (force simp: assign_writes_iff)
      note o = only_project_writes [OF d(2) this]
      show ?thesis
        by (rule that [of "map_of (assign_writes r)"
              "Writing (r\<lparr>rr_assigned := min (length (rr_order r)) (rr_assigned r + rr_chunk r)\<rparr>)"])
          (use p q o assign Writing d(2) in \<open>simp_all add: state_inv_def own_rows_with_indexes with_indexes_def [symmetric] assign_writes_def\<close>)
    next
      case fin
      show ?thesis
        by (rule that [of Map.empty "Compacting (rr_start r + int (length (rr_order r))) r"])
          (use fin Writing inv in \<open>simp_all add: state_inv_def all_assigned_def only_project_def\<close>)
    qed
  next
    case (Compacting s r)
    with d have r: "sound_plan db0 p b r" "run_inv db0 r (cells db p)" "all_assigned r" "rr_start r + int (length (rr_order r)) \<le> s"
      by simp_all
    have s: "1 \<le> s" using plan_start(1) [OF r(1)] r(4) by simp
    let ?ts = "tail_rows limit p s db"
    note c = compact_pass_result [OF d(1) s, where p = p and limit = limit] 
      and k = compact_keeps [OF r(1) d(1) run_invD(1) [OF r(2)] r(3,4), where limit = limit]
    have o: "only_project db p (closing s ?ts)"
      using closing_facts(4) [OF d(1), where p = p and s = s and limit = limit] by (auto simp: only_project_def rows_of_def)
    have left: "parked_left r C" for C using waiting_all_assigned [OF r(3)] by (simp add: parked_left_def)
    show ?thesis
      by (rule that [of "closing s ?ts" "if length ?ts < limit then Finished r else Compacting (s + int (length ?ts)) r"])
        (use c k o Compacting d(2) r plannedD(1) [OF sound_planD(2) [OF r(1)]] in \<open>simp_all add: state_inv_def own_rows_with_indexes run_inv_def left\<close>)
  next
    case (Finished r)
    show ?thesis by (rule that [of Map.empty st]) (use Finished inv in \<open>simp_all add: only_project_def\<close>)
  qed
qed

lemma own_rows_core: "core_of db' = core_of db \<Longrightarrow> own_rows db0 p db \<Longrightarrow> own_rows db0 p db'"
proof -
  assume core: "core_of db' = core_of db" and own: "own_rows db0 p db"
  have "fr_project_id f = p" if f: "f \<in> set (fd_frames db')" "fr_id f \<in> fr_id ` set (rows_of db0 p)" for f
  proof -
    obtain g where "g \<in> set (fd_frames db)" "row_core g = row_core f" using core_of_rows [OF core [symmetric] f(1)] by blast
    then show ?thesis using own_rowsD [OF own, of g] f(2) row_core_fields(1,2) by metis
  qed
  then show ?thesis using own core by (simp add: own_rows_def core_of_def)
qed

lemma wrote_cell:
  assumes "wrote cfg db disk db' disk'"
  obtains g where "fd_frames db' = fd_frames db @ [g]" "fr_id g = fd_last_id db + 1" "fd_last_id db' = fd_last_id db + 1"
    "fr_sequence_index g = next_sequence_index db (fr_project_id g)"
proof -
  from assms obtain pid f i db1 where w: "fr_project_id f = pid" "fr_sequence_index f = next_sequence_index db pid"
    "insert_frame f db = Inr (i, db1)" "db' = change_project pid (\<lambda>q. q\<lparr>fp_frame_count := fp_frame_count q + 1\<rparr>) db1"
    unfolding wrote_def by blast
  show ?thesis
    by (rule that [of "f\<lparr>fr_id := fd_last_id db + 1\<rparr>"]) (use w in \<open>auto simp: insert_next [OF w(1,2)] change_project_def\<close>)
qed

text \<open>A capture takes the index after every row of the project.\<close>

lemma capture_keeps:
  assumes sp: "sound_plan db0 p b r" and inv: "run_inv db0 r C"
    and new: "fd_last_id db0 < i" "\<And>j k. (j, k) \<in> C \<Longrightarrow> j < i \<and> k < n"
  shows "run_inv db0 r (insert (i, n) C)"
proof (rule run_invI)
  have left: "parked_left r C" by (rule run_invD(2) [OF inv])
  have w: "waiting r \<subseteq> set (rr_order r)" by (auto simp: waiting_def dest: in_set_dropD)
  have i_new: "i \<notin> waiting r" using new(1) old_ids [OF sp] plan_order(2) [OF sp] w by fastforce
  show "parked_left r (insert (i, n) C)" using left i_new unfolding parked_left_def by auto
  note base = run_invD(1) [OF inv]
  show "run_base db0 r (insert (i, n) C)"
  proof (rule run_baseI)
    show "i' \<in> fr_id ` set (rows_of db0 (rr_project r)) \<and> n' = run_index db0 r i'" if "(i', n') \<in> insert (i, n) C" "i' \<le> fd_last_id db0" for i' n'
      using that new(1) run_baseD(1,2) [OF base, of i' n'] by auto
    show "k < n'" if "(i', n') \<in> insert (i, n) C" "fd_last_id db0 < i'" "(j, k) \<in> insert (i, n) C" "j < i'" for i' n' j k
      using that new(2) [of j k] new(2) [of i' n'] run_baseD(3) [OF base, of i' n' j k] by auto
  next
    fix i' n' j assume i': "(i', n') \<in> insert (i, n) C" "fd_last_id db0 < i'" and j: "j \<in> fst ` insert (i, n) C" "j \<in> waiting r"
    have jC: "j \<in> fst ` C" using j i_new by auto
    show "rr_offset r < n' \<and> (\<forall>(j', k)\<in>set (rr_parking r). k + rr_offset r < n')"
    proof (cases "(i', n') = (i, n)")
      case False
      then show ?thesis using i' run_baseD(4,5) [OF base _ i'(2) jC j(2)] by blast
    next
      case True
      obtain a m where a: "(a, m) \<in> C" "rr_offset r < m" using left jC j(2) unfolding parked_left_def by blast
      have mn: "m < n" using new(2) [OF a(1)] by blast
      have above: "k + rr_offset r < m" if k: "(j', k) \<in> set (rr_parking r)" for j' k
      proof (cases "fd_last_id db0 < a")
        case True
        from run_baseD(5) [OF base a(1) True jC j(2) k] show ?thesis .
      next
        case False
        then have old: "a \<in> fr_id ` set (rows_of db0 p)" "m = run_index db0 r a"
          using run_baseD(1,2) [OF base a(1)] plannedD(1) [OF sound_planD(2) [OF sp]] by auto
        show ?thesis
          using sp old(1)
        proof (cases rule: run_index_cases)
          case prefix
          then show ?thesis using old(2) a(2) plan_start(2) [OF sp] by simp
        next
          case (assigned l)
          then show ?thesis using old(2) a(2) plan_start(2) [OF sp] plannedD(5) [OF sound_planD(2) [OF sp]] by simp
        next
          case parked
          then show ?thesis using old(2) plan_parking(4) [OF sp _ parked(2) k] w by auto
        next
          case unparked
          then show ?thesis using old(2) a(2) plan_ordered(3) [OF sp, of a] w by auto
        qed
      qed
      show ?thesis using True a(2) mn above by fastforce
    qed
  qed
qed

lemma keep_keeps:
  assumes step: "keep_step cfg (db, disk) (db', disk')" and inv: "state_inv db0 p b (db, st)"
  shows "state_inv db0 p b (db', st)"
proof -
  note d = state_invD [OF inv]
  have wf: "frames_wf db'" by (rule keep_step_wf [OF step d(1)])
  have "own_rows db0 p db' \<and> run_inv db0 (run_of st) (cells db' p)"
    using keep_step_cases [OF step]
  proof
    assume "core_of db' = core_of db \<and> set disk \<subseteq> set disk'"
    then show ?thesis using own_rows_core [of db' db] cells_core [of db' db] d(2,4) by simp
  next
    assume "wrote cfg db disk db' disk'"
    then obtain g where g: "fd_frames db' = fd_frames db @ [g]" "fr_id g = fd_last_id db + 1" "fd_last_id db' = fd_last_id db + 1"
      "fr_sequence_index g = next_sequence_index db (fr_project_id g)" by (rule wrote_cell)
    have last: "fd_last_id db0 \<le> fd_last_id db" using d(2) by (simp add: own_rows_def)
    have "fr_id g \<notin> fr_id ` set (rows_of db0 p)" using old_ids [OF d(3), of "fr_id g"] last g(2) by auto
    then have own: "own_rows db0 p db'" using d(2) g(1,3) by (auto simp: own_rows_def)
    show ?thesis
    proof (cases "fr_project_id g = p")
      case True
      have "j < fr_id g \<and> k < fr_sequence_index g" if "(j, k) \<in> cells db p" for j k
        using cells_range(1) [OF d(1) that] that next_sequence_index_above [of _ db p] g(2,4) True
        by (auto simp: cells_iff rows_of_def)
      moreover have "cells db' p = insert (fr_id g, fr_sequence_index g) (cells db p)" using g(1) True by (auto simp: cells_def rows_of_def)
      ultimately show ?thesis using capture_keeps [OF d(3,4), of "fr_id g"] last g(2) own by simp
    next
      case False
      then have "cells db' p = cells db p" using g(1) by (simp add: cells_def rows_of_def)
      then show ?thesis using own d(4) by simp
    qed
  qed
  then show ?thesis using wf d(3,5) by (simp add: state_inv_def)
qed

text \<open>A delete takes rows away; the run needs one row to stay above the offset while it writes.\<close>

lemma delete_step_rows:
  assumes "delete_step realpath stat_id cfg (db, disk) (db', disk')"
  shows "set (fd_frames db') \<subseteq> set (fd_frames db)" "fd_last_id db' = fd_last_id db"
proof -
  from assms obtain ok now i a confirm s where s:
    "permanent_delete realpath stat_id cfg ok now i a confirm (open_session db, disk) = Inr (s, disk')" "db' = fs_db s"
    by (auto elim: delete_stepE)
  from permanent_deleteD [OF s(1)] obtain f where "s = delete_rows now cfg a f (open_session db)" by blast
  then have "db' = fs_db (delete_rows now cfg a f (open_session db))" using s(2) by simp
  then show "set (fd_frames db') \<subseteq> set (fd_frames db)" "fd_last_id db' = fd_last_id db"
    by (auto simp: delete_rows_db add_event_def ensure_sentinel_admin_def delete_row_def change_project_def)
qed

lemma fewer_cells:
  assumes inv: "run_inv db0 r C" and sub: "C' \<subseteq> C" and left: "parked_left r C'"
  shows "run_inv db0 r C'"
proof (rule run_invI [OF run_baseI left])
  note base = run_invD(1) [OF inv]
  show "i \<in> fr_id ` set (rows_of db0 (rr_project r)) \<and> n = run_index db0 r i" if "(i, n) \<in> C'" "i \<le> fd_last_id db0" for i n
    using run_baseD(1,2) [OF base] that sub by blast
  show "k < n" if "(i, n) \<in> C'" "fd_last_id db0 < i" "(j, k) \<in> C'" "j < i" for i n j k
    using run_baseD(3) [OF base] that sub by blast
  show "rr_offset r < n \<and> (\<forall>(j', k)\<in>set (rr_parking r). k + rr_offset r < n)"
    if i: "(i, n) \<in> C'" "fd_last_id db0 < i" "j \<in> fst ` C'" "j \<in> waiting r" for i n j
  proof -
    have "(i, n) \<in> C" "j \<in> fst ` C" using i sub by auto
    then show ?thesis using run_baseD(4,5) [OF base _ i(2) _ i(4)] by blast
  qed
qed

lemma delete_keeps:
  assumes step: "delete_step realpath stat_id cfg (db, disk) (db', disk')" and inv: "state_inv db0 p b (db, st)"
    and left: "parked_left (run_of st) (cells db' p)"
  shows "state_inv db0 p b (db', st)"
proof -
  note d = state_invD [OF inv] and rows = delete_step_rows [OF step]
  have "own_rows db0 p db'" using d(2) rows by (auto simp: own_rows_def)
  moreover have "cells db' p \<subseteq> cells db p" using rows(1) by (auto simp: cells_def rows_of_def)
  ultimately show ?thesis using fewer_cells [OF d(4) _ left] delete_step_wf [OF step d(1)] d(3,5) by (simp add: state_inv_def)
qed

section \<open>The first transaction\<close>

lemma own_rows_self:
  assumes "frames_wf db"
  shows "own_rows db p db"
proof -
  have "fr_project_id f = p" if f: "f \<in> set (fd_frames db)" "fr_id f \<in> fr_id ` set (rows_of db p)" for f
  proof -
    obtain g where g: "g \<in> set (rows_of db p)" "fr_id f = fr_id g" using f(2) by auto
    then show ?thesis using id_inj [OF frames_wfD(1) [OF assms] f(1), of g] rows_of_facts(3) [OF assms g(1)] by simp
  qed
  then show ?thesis by (simp add: own_rows_def)
qed

text \<open>The run as it stands before its first chunk.\<close>

definition initial_run :: "nat \<Rightarrow> frame_db \<Rightarrow> int \<Rightarrow> int \<Rightarrow> renumber_run" where
  "initial_run chunk db p b =
     \<lparr>rr_project = p, rr_chunk = chunk, rr_start = suffix_start db p (Some b),
      rr_offset = the (max_of (map fr_sequence_index (rows_of db p))) + int (length (suffix_rows db p (Some b))) + 1,
      rr_order = map fr_id (suffix_rows db p (Some b)), rr_parking = parking_list (suffix_rows db p (Some b)), rr_assigned = 0\<rparr>"

lemma initial_run_sound:
  assumes wf: "frames_wf db" and b: "renumber_bound db p ids = Some b" and "0 < chunk" "suffix_rows db p (Some b) \<noteq> []"
  shows "sound_plan db p b (initial_run chunk db p b)" "run_base db (initial_run chunk db p b) (cells db p)"
proof -
  let ?max = "max_of (map fr_sequence_index (rows_of db p))" and ?r = "initial_run chunk db p b"
  have "rows_of db p \<noteq> []" using assms(4) by (auto simp: suffix_rows_def)
  then obtain m where "?max = Some m" by (cases ?max) (auto simp: max_of_def)
  then have "planned db p b ?r" using assms(3) by (auto simp: planned_def initial_run_def intro: exI [of _ 0])
  then show "sound_plan db p b ?r" using wf renumber_bound_le [OF b] by (auto simp: sound_plan_def)
  show "run_base db ?r (cells db p)"
  proof (rule run_baseI)
    fix i n assume "(i, n) \<in> cells db p"
    then obtain f where f: "f \<in> set (rows_of db p)" "fr_id f = i" "fr_sequence_index f = n" by (auto simp: cells_iff)
    have "i \<in> fst ` set (rr_parking ?r)" if "i \<in> set (rr_order ?r)"
      using that parking_list_facts(1) [OF wf, of p "Some b"] by (force simp: initial_run_def)
    then have "run_index db ?r i = old_index db i" by (auto simp: run_index_def initial_run_def)
    also have "\<dots> = n" using old_index_row [OF wf, of f] rows_of_facts(3) [OF wf f(1)] f(2,3) by simp
    finally show "i \<in> fr_id ` set (rows_of db (rr_project ?r)) \<and> n = run_index db ?r i" using f by (auto simp: initial_run_def)
  next
    fix i n j k assume "(i, n) \<in> cells db p" "fd_last_id db < i"
    then show "k < n" using cells_range(1) [OF wf, of i n p] by simp
  next
    fix i n j assume "(i, n) \<in> cells db p" "fd_last_id db < i"
    then show "rr_offset ?r < n \<and> (\<forall>(j', k)\<in>set (rr_parking ?r). k + rr_offset ?r < n)" using cells_range(1) [OF wf, of i n p] by simp
  qed
qed

lemma plan_result:
  fixes chunk_rows :: "nat option"
  assumes wf: "frames_wf db" and b: "renumber_bound db p ids = Some b"
  defines "chunk \<equiv> max 1 (case chunk_rows of None \<Rightarrow> renumber_chunk_rows | Some n \<Rightarrow> n)"
  defines "r0 \<equiv> initial_run chunk db p b"
  shows "plan_renumber scan chunk_rows db p ids =
    (if length (suffix_rows db p (Some b)) \<le> chunk
     then rbind (resequence_project_from scan db p (Some b)) (\<lambda>(n, db'). Inr (Whole n db'))
     else Inr (Chunked (with_indexes (map_of (park_writes r0)) db) (r0\<lparr>rr_parking := drop chunk (rr_parking r0)\<rparr>)))"
proof -
  have size: "length (filter (in_suffix (Some b)) (rows_of db p)) = length (suffix_rows db p (Some b))" by (simp add: suffix_rows_def)
  show ?thesis
  proof (cases "length (suffix_rows db p (Some b)) \<le> chunk")
    case True
    then show ?thesis unfolding plan_renumber_def Let_def chunk_def [symmetric] b option.case size by simp
  next
    case False
    then have ne: "suffix_rows db p (Some b) \<noteq> []" "0 < chunk" by (auto simp: chunk_def)
    note i = initial_run_sound [OF wf b ne(2,1), folded r0_def]
    have "rr_parking r0 \<noteq> []" using ne(1) parking_list_facts(1) [OF wf, of p "Some b"] by (force simp: r0_def initial_run_def)
    from park_step(1) [OF i(1) wf own_rows_self [OF wf] i(2) this]
    have "park_rows (take chunk (rr_parking r0)) (rr_offset r0) (fd_frames db) = Inr (fd_frames (with_indexes (map_of (park_writes r0)) db))"
      by (simp add: r0_def initial_run_def)
    then show ?thesis using False
      unfolding plan_renumber_def Let_def chunk_def [symmetric] b option.case size
      by (simp add: with_indexes_def r0_def initial_run_def)
  qed
qed

lemma plan_sound:
  assumes wf: "frames_wf db" and plan: "plan_renumber scan chunk_rows db p ids = Inr (Chunked db1 r)"
  obtains b where "renumber_bound db p ids = Some b" "state_inv db p b (db1, Writing r)"
    "\<exists>m. db1 = with_indexes m db \<and> only_project db p m"
proof -
  obtain b where b: "renumber_bound db p ids = Some b"
    using plan by (cases "renumber_bound db p ids") (simp_all add: plan_renumber_def Let_def)
  define chunk where "chunk = max 1 (case chunk_rows of None \<Rightarrow> renumber_chunk_rows | Some n \<Rightarrow> n)"
  define r0 where "r0 = initial_run chunk db p b"
  note result = plan_result [OF wf b, of scan chunk_rows, folded chunk_def, folded r0_def, unfolded plan]
  have big: "chunk < length (suffix_rows db p (Some b))"
    using result by (cases "length (suffix_rows db p (Some b)) \<le> chunk"; cases "resequence_project_from scan db p (Some b)") auto
  then have r: "r = r0\<lparr>rr_parking := drop chunk (rr_parking r0)\<rparr>" and db1: "db1 = with_indexes (map_of (park_writes r0)) db"
    using result by auto
  have ne: "suffix_rows db p (Some b) \<noteq> []" "0 < chunk" using big by (auto simp: chunk_def)
  note i = initial_run_sound [OF wf b ne(2,1), folded r0_def]
  note own = own_rows_self [OF wf, of p] and pf = parking_list_facts(1) [OF wf, of p "Some b"]
  have some: "rr_parking r0 \<noteq> []" using ne(1) pf by (force simp: r0_def initial_run_def)
  have chunk: "rr_chunk r0 = chunk" by (simp add: r0_def initial_run_def)
  note step = park_step [OF i(1) wf own i(2) some, unfolded chunk, folded r db1]
  obtain j n where j: "hd (rr_parking r0) = (j, n)" by (cases "hd (rr_parking r0)")
  have "(j, n) \<in> set (take chunk (rr_parking r0))" using some j ne(2) by (cases "rr_parking r0"; cases chunk) auto
  then have "j \<in> fst ` set (park_writes r0)" using park_writes_facts(1) [OF i(1)] chunk by force
  moreover have "(j, n) \<in> cells db p"
    using hd_in_set [OF some] j pf suffix_rows_facts(1) [OF wf, of p "Some b"] by (force simp: r0_def initial_run_def cells_def)
  ultimately have "parked_left r (cells db1 p)" unfolding r db1 using park_leaves [OF i(1)] by blast
  then have inv: "state_inv db p b (db1, Writing r)"
    using step own by (simp add: state_inv_def run_inv_def db1 own_rows_with_indexes)
  have "fst ` set (park_writes r0) \<subseteq> fr_id ` set (rows_of db p)"
    using park_writes_facts(4) [OF i(1)] plan_order(2) [OF i(1)] by force
  then show ?thesis using that [OF b inv] db1 only_project_writes [OF own] by blast
qed

section \<open>What a listing shows\<close>

definition listing :: "frame_db \<Rightarrow> int \<Rightarrow> int list" where
  "listing db p = map fr_id (by_sequence (rows_of db p))"

text \<open>
  The listing a reader should see while a run is under way: the rows before the bound, the rows
  that have their final index, in order of time, and the others in the order they had.
\<close>

definition run_listing :: "frame_db \<Rightarrow> int \<Rightarrow> renumber_run \<Rightarrow> int list" where
  "run_listing db0 p r =
     (let old = listing db0 p; placed = take (rr_assigned r) (rr_order r)
      in filter (\<lambda>i. i \<notin> set (rr_order r)) old @ placed @ filter (\<lambda>i. i \<in> set (rr_order r) \<and> i \<notin> set placed) old)"

lemma listing_facts:
  assumes wf: "frames_wf db"
  shows "set (listing db p) = fr_id ` set (rows_of db p)" "sorted_wrt (\<lambda>i j. old_index db i < old_index db j) (listing db p)"
proof -
  show "set (listing db p) = fr_id ` set (rows_of db p)" by (simp add: listing_def)
  have "sorted_wrt (\<lambda>f g. fr_sequence_index f < fr_sequence_index g) (by_sequence (rows_of db p))"
    using strictly_by_sequence [OF rows_of_facts(2) [OF wf, of p]] by (simp add: sorted_wrt_map)
  then have "sorted_wrt (\<lambda>f g. old_index db (fr_id f) < old_index db (fr_id g)) (by_sequence (rows_of db p))"
    by (rule sorted_wrt_mono_rel [rotated]) (use old_index_row [OF wf] rows_of_facts(3) [OF wf] in simp)
  then show "sorted_wrt (\<lambda>i j. old_index db i < old_index db j) (listing db p)" by (simp add: listing_def sorted_wrt_map)
qed

lemma listing_unique:
  assumes wf: "frames_wf db" and xs: "set xs = fr_id ` set (rows_of db p)" "sorted_wrt (\<lambda>i j. old_index db i < old_index db j) xs"
  shows "listing db p = xs"
proof -
  note l = listing_facts [OF wf, of p]
  have "map (old_index db) (listing db p) = map (old_index db) xs"
    using l xs by (intro strict_sorted_equal) (simp_all add: sorted_wrt_map)
  moreover have "inj_on (old_index db) (fr_id ` set (rows_of db p))"
  proof (rule inj_onI)
    fix i j assume "i \<in> fr_id ` set (rows_of db p)" "j \<in> fr_id ` set (rows_of db p)" and eq: "old_index db i = old_index db j"
    then obtain f g where fg: "f \<in> set (rows_of db p)" "fr_id f = i" "g \<in> set (rows_of db p)" "fr_id g = j" by auto
    then have "fr_sequence_index f = fr_sequence_index g"
      using eq old_index_row [OF wf, of f] old_index_row [OF wf, of g] rows_of_facts(3) [OF wf] by auto
    then show "i = j" using seq_inj [OF rows_of_facts(2) [OF wf, of p] fg(1,3)] fg(2,4) by simp
  qed
  ultimately show ?thesis using l(1) xs(1) by (simp add: inj_on_map_eq_map)
qed

lemma run_listing_set:
  assumes sp: "sound_plan db0 p b r"
  shows "set (run_listing db0 p r) = fr_id ` set (rows_of db0 p)"
  using listing_facts(1) [OF sound_planD(1) [OF sp], of p] plan_order(2) [OF sp]
  by (auto simp: run_listing_def Let_def dest: in_set_takeD)

lemma run_listing_sorted:
  assumes sp: "sound_plan db0 p b r"
  shows "sorted_wrt (\<lambda>i j. run_index db0 r i < run_index db0 r j) (run_listing db0 p r)"
proof -
  let ?less = "\<lambda>i j. run_index db0 r i < run_index db0 r j"
  let ?old = "listing db0 p" and ?placed = "take (rr_assigned r) (rr_order r)"
  let ?A = "filter (\<lambda>i. i \<notin> set (rr_order r)) ?old" and ?C = "filter (\<lambda>i. i \<in> set (rr_order r) \<and> i \<notin> set ?placed) ?old"
  note l = listing_facts [OF sound_planD(1) [OF sp], of p] and pl = sound_planD(2) [OF sp]
  have A: "run_index db0 r i = old_index db0 i \<and> old_index db0 i < rr_start r" if "i \<in> set ?A" for i
    using plan_prefix(2) [OF sp, of i] that l(1) by (auto simp: run_index_def dest: in_set_takeD)
  have B: "rr_start r \<le> run_index db0 r i \<and> run_index db0 r i < rr_offset r \<and> rr_parking r = []" if i: "i \<in> set ?placed" for i
  proof -
    obtain k where k: "k < rr_assigned r" "k < length (rr_order r)" "i = rr_order r ! k" using i by (auto simp: in_set_conv_nth)
    then show ?thesis using run_index_nth [OF sp k(2)] plan_start(2) [OF sp] plannedD(6) [OF pl] by auto
  qed
  have C: "if i \<in> fst ` set (rr_parking r) then run_index db0 r i = old_index db0 i else run_index db0 r i = old_index db0 i + rr_offset r"
    "rr_start r \<le> old_index db0 i" "old_index db0 i < rr_offset r" "i \<in> set (rr_order r)" if "i \<in> set ?C" for i
    using that plan_ordered [OF sp, of i] by (auto simp: run_index_def)
  have off: "0 \<le> rr_offset r" using plan_start [OF sp] by simp
  have sub: "sorted_wrt (\<lambda>i j. old_index db0 i < old_index db0 j) ?A" "sorted_wrt (\<lambda>i j. old_index db0 i < old_index db0 j) ?C"
    by (rule sorted_wrt_filter [OF l(2)])+
  have "sorted_wrt ?less ?A" by (rule sorted_wrt_mono_rel [OF _ sub(1)]) (use A in simp)
  moreover have "sorted_wrt ?less ?placed"
    using run_index_nth [OF sp] by (auto simp: sorted_wrt_iff_nth_less)
  moreover have "sorted_wrt ?less ?C"
  proof (rule sorted_wrt_mono_rel [OF _ sub(2)])
    fix i j assume i: "i \<in> set ?C" and j: "j \<in> set ?C" and lt: "old_index db0 i < old_index db0 j"
    have "False" if un: "i \<notin> fst ` set (rr_parking r)" and "j \<in> fst ` set (rr_parking r)"
    proof -
      obtain k where k: "(j, k) \<in> set (rr_parking r)" using \<open>j \<in> fst ` set (rr_parking r)\<close> by force
      show False using plan_parking(3) [OF sp k] plan_parking(4) [OF sp C(4) [OF i] un k] lt by simp
    qed
    then show "?less i j" using C(1) [OF i] C(1) [OF j] lt off by (auto split: if_splits)
  qed
  moreover have "?less i j" if "i \<in> set ?A" "j \<in> set ?placed" for i j using A [OF that(1)] B [OF that(2)] by simp
  moreover have "?less i j" if "i \<in> set ?A" "j \<in> set ?C" for i j
    using A [OF that(1)] C(1,2) [OF that(2)] off by (auto split: if_splits)
  moreover have "?less i j" if "i \<in> set ?placed" "j \<in> set ?C" for i j
    using B [OF that(1)] C(1,2) [OF that(2)] plan_start(1) [OF sp] by simp
  ultimately show ?thesis unfolding run_listing_def Let_def sorted_wrt_append by auto
qed

lemma coherent_listing:
  assumes inv: "state_inv db0 p b (db, st)"
  shows "listing db p = filter (\<lambda>i. i \<in> set (map fr_id (rows_of db p))) (run_listing db0 p (run_of st)) @
    sort (filter (\<lambda>i. fd_last_id db0 < i) (map fr_id (rows_of db p)))"
    (is "_ = ?old @ ?late")
proof (rule listing_unique)
  note d = state_invD [OF inv]
  note base = run_invD(1) [OF d(4)] and sp = d(3)
  show wf: "frames_wf db" by (rule d(1))
  have ids: "fst ` cells db p = fr_id ` set (rows_of db p)" by (simp add: cells_def image_image)
  have old: "i \<in> fr_id ` set (rows_of db0 p)" if "(i, n) \<in> cells db p" "i \<le> fd_last_id db0" for i n
    using run_baseD(1) [OF base that] plannedD(1) [OF sound_planD(2) [OF sp]] by simp
  show "set (?old @ ?late) = fr_id ` set (rows_of db p)"
  proof (rule set_eqI)
    fix i
    have "i \<le> fd_last_id db0 \<longleftrightarrow> i \<in> fr_id ` set (rows_of db0 p)" if "i \<in> fr_id ` set (rows_of db p)"
      using that old old_ids [OF sp] unfolding ids [symmetric] by fastforce
    then show "i \<in> set (?old @ ?late) \<longleftrightarrow> i \<in> fr_id ` set (rows_of db p)"
      using run_listing_set [OF sp] by (auto simp: not_less)
  qed
  have cell: "(i, old_index db i) \<in> cells db p" if "i \<in> fr_id ` set (rows_of db p)" for i
    using that old_index_row [OF wf] rows_of_facts(3) [OF wf] by (auto simp: cells_iff)
  have run: "old_index db i = run_index db0 (run_of st) i" if "i \<in> set ?old" for i
    using run_baseD(2) [OF base cell] that old_ids [OF sp] run_listing_set [OF sp] by auto
  have "sorted_wrt (\<lambda>i j. old_index db i < old_index db j) ?old"
    by (rule sorted_wrt_mono_rel [OF _ sorted_wrt_filter [OF run_listing_sorted [OF sp]]]) (use run in simp)
  moreover have "sorted_wrt (\<lambda>i j. old_index db i < old_index db j) ?late"
  proof (rule sorted_wrt_mono_rel)
    have "distinct (map fr_id (rows_of db p))" by (rule rows_of_facts(1) [OF wf])
    then show "sorted_wrt (<) ?late" by (simp add: strict_sorted_iff)
    show "old_index db i < old_index db j" if "i \<in> set ?late" "j \<in> set ?late" "i < j" for i j
      using run_baseD(3) [OF base cell _ cell, of j i] that by auto
  qed
  moreover have "old_index db i < old_index db j" if "i \<in> set ?old" "j \<in> set ?late" for i j
    using run_baseD(3) [OF base cell _ cell, of j i] that old_ids [OF sp, of i] run_listing_set [OF sp] by auto
  ultimately show "sorted_wrt (\<lambda>i j. old_index db i < old_index db j) (?old @ ?late)" unfolding sorted_wrt_append by blast
qed

section \<open>Runs with other work in between\<close>

text \<open>
  Between two transactions of a run any other operation may commit.  A permanent delete is
  restricted: while rows wait for their index, one row must stay above the offset.
\<close>

inductive run_step ::
  "realpath_fn \<Rightarrow> stat_fn \<Rightarrow> path_settings \<Rightarrow> nat \<Rightarrow> int \<Rightarrow> frame_db \<times> path list \<times> run_state \<Rightarrow> frame_db \<times> path list \<times> run_state \<Rightarrow> bool"
  for realpath stat_id cfg limit p where
  transaction: "advance limit (db, st) = Inr (db', st') \<Longrightarrow> run_step realpath stat_id cfg limit p (db, disk, st) (db', disk, st')"
| other: "keep_step cfg (db, disk) (db', disk') \<Longrightarrow> run_step realpath stat_id cfg limit p (db, disk, st) (db', disk', st)"
| deleted: "delete_step realpath stat_id cfg (db, disk) (db', disk') \<Longrightarrow> parked_left (run_of st) (cells db' p) \<Longrightarrow>
    run_step realpath stat_id cfg limit p (db, disk, st) (db', disk', st)"

lemma run_step_keeps:
  assumes "run_step realpath stat_id cfg limit p (db, disk, st) (db', disk', st')" "state_inv db0 p b (db, st)"
  shows "state_inv db0 p b (db', st')"
  using assms(1)
proof (cases rule: run_step.cases)
  case transaction
  then show ?thesis using advance_sound [OF assms(2), of limit] by (metis Inr_inject prod.inject)
next
  case other
  then show ?thesis using keep_keeps assms(2) by blast
next
  case deleted
  then show ?thesis using delete_keeps assms(2) by blast
qed

lemma reachable_inv:
  assumes "(run_step realpath stat_id cfg limit p)\<^sup>*\<^sup>* (db1, disk, Writing r) (db, disk', st)"
    and wf: "frames_wf db0" and plan: "plan_renumber scan chunk_rows db0 p ids = Inr (Chunked db1 r)"
  obtains b where "state_inv db0 p b (db, st)"
proof -
  obtain b where b: "state_inv db0 p b (db1, Writing r)" using plan_sound [OF wf plan] by metis
  have "state_inv db0 p b (fst s, snd (snd s))" if "(run_step realpath stat_id cfg limit p)\<^sup>*\<^sup>* (db1, disk, Writing r) s" for s
    using that
  proof (induction rule: rtranclp_induct)
    case base
    then show ?case using b by simp
  next
    case (step y z)
    then show ?case using run_step_keeps by (metis prod.collapse)
  qed
  from this [OF assms(1)] show ?thesis using that by simp
qed


definition mixed_table :: frame_db where
  "mixed_table = sample_table [sample_row 1 1 50, sample_row 2 2 90, sample_row 3 3 60, sample_row 4 4 70]"

definition first_chunk :: "frame_db \<times> renumber_run" where
  "first_chunk = (case plan_renumber rev (Some 2) mixed_table 1 [] of Inr (Chunked db r) \<Rightarrow> (db, r) | _ \<Rightarrow> (mixed_table, undefined))"

definition captured_between :: "frame_db \<times> path list" where
  "captured_between = last (snd (writer_write [''data'', ''frames''] sample_env 1 sample_captured sample_args (fst first_chunk, [])))"


end
