(* ===== verification/Order_Restored.thy ===== *)
theory Order_Restored
  imports Renumber_Steps
begin

text \<open>
  The chunked renumber run without interruption, and the commit hook that runs it after a change
  of timestamps (\<open>restore_project_order\<close> and \<open>_restore_order_after_commit\<close> of
  \<open>storage/frames.py\<close>).
\<close>

section \<open>An uninterrupted run\<close>

definition steps_left :: "run_state \<Rightarrow> nat" where
  "steps_left st = (case st of
     Writing r \<Rightarrow> length (rr_parking r) + (length (rr_order r) - rr_assigned r) + 2
   | Compacting next_index r \<Rightarrow> 1
   | Finished r \<Rightarrow> 0)"

text \<open>Only indexes of the project have changed since the plan.\<close>

definition reindexed_only :: "frame_db \<Rightarrow> int \<Rightarrow> frame_db \<Rightarrow> bool" where
  "reindexed_only db0 p db \<longleftrightarrow> (\<exists>m. db = with_indexes m db0 \<and> only_project db0 p m)"

lemma reindexed_onlyI: "only_project db0 p m \<Longrightarrow> reindexed_only db0 p (with_indexes m db0)"
  by (auto simp: reindexed_only_def)

lemma with_indexes_twice: "with_indexes m' (with_indexes m db) = with_indexes (m ++ m') db"
  by (simp add: with_indexes_def reindexed_twice comp_def)

lemma reindexed_only_step:
  assumes "reindexed_only db0 p db" "only_project db p m"
  shows "reindexed_only db0 p (with_indexes m db)"
proof -
  obtain m0 where m0: "db = with_indexes m0 db0" "only_project db0 p m0" using assms(1) by (auto simp: reindexed_only_def)
  then have "only_project db0 p (m0 ++ m)" using assms(2) by (auto simp: only_project_def map_add_def)
  then show ?thesis unfolding m0(1) with_indexes_twice by (rule reindexed_onlyI)
qed

lemma finished_table:
  assumes inv: "state_inv db0 p b (db, st)" and only: "reindexed_only db0 p db" and fin: "all_assigned (run_of st)"
  shows "db = with_indexes (renumbering db0 p (Some b)) db0"
proof -
  note d = state_invD [OF inv]
  let ?r = "run_of st"
  note wf0 = sound_planD(1) [OF d(3)] and pl = sound_planD(2) [OF d(3)]
  obtain m where m: "db = with_indexes m db0" "only_project db0 p m" using only by (auto simp: reindexed_only_def)
  have "reindexed m f = reindexed (renumbering db0 p (Some b)) f" if f: "f \<in> set (fd_frames db0)" for f
  proof (cases "fr_project_id f = p")
    case False
    then have "renumbering db0 p (Some b) (fr_id f) = None" using renumbering_None [OF wf0 f] by blast
    then show ?thesis using m(2) f False by (simp add: only_project_def)
  next
    case True
    then have row: "f \<in> set (rows_of db0 p)" using f by (simp add: rows_of_def)
    have id: "fr_id f \<in> fr_id ` set (rows_of db0 p)" using row by blast
    have "(fr_id f, index_under m f) \<in> cells db p" unfolding m(1) using row by (force simp: cells_iff)
    from run_baseD(2) [OF run_invD(1) [OF d(4)] this] have run: "index_under m f = run_index db0 ?r (fr_id f)"
      using old_ids [OF d(3) id] by simp
    have "index_under m f = index_under (renumbering db0 p (Some b)) f"
      using d(3) id
    proof (cases rule: run_index_cases)
      case prefix
      then have "\<not> in_suffix (Some b) f" using row suffix_rows_facts(1) [OF wf0, of p "Some b"] plannedD(4) [OF pl] by auto
      then show ?thesis using run prefix renumbering_index [OF wf0 row, of "Some b"] old_index_row [OF wf0 f] by simp
    next
      case (assigned k)
      then have k: "k < length (suffix_rows db0 p (Some b))" "fr_id f = fr_id (suffix_rows db0 p (Some b) ! k)"
        using plannedD(4,5) [OF pl] by auto
      then show ?thesis using run assigned(3) renumbering_nth [OF wf0 k(1)] plannedD(3) [OF pl] by (simp add: index_under_def)
    qed (use waiting_all_assigned [OF fin] in auto)
    then show ?thesis by (simp add: reindexed_def index_under_def split: option.splits)
  qed
  then show ?thesis unfolding m(1) by (simp add: with_indexes_def)
qed

lemma nothing_above:
  assumes inv: "state_inv db0 p b (db, Compacting s r)" and only: "reindexed_only db0 p db"
  shows "tail_rows limit p s db = []"
proof -
  note d = state_invD [OF inv]
  have r: "sound_plan db0 p b r" "run_base db0 r (cells db p)" "all_assigned r" "rr_start r + int (length (rr_order r)) \<le> s"
    using d(3-5) run_invD(1) by auto
  have "fr_sequence_index f < s" if f: "f \<in> set (rows_of db p)" for f
  proof -
    have cell: "(fr_id f, fr_sequence_index f) \<in> cells db p" using f by (auto simp: cells_def)
    have id: "fr_id f \<in> fr_id ` set (rows_of db0 p)" using f only by (auto simp: reindexed_only_def)
    have run: "fr_sequence_index f = run_index db0 r (fr_id f)" using run_baseD(2) [OF r(2) cell old_ids [OF r(1) id]] .
    show ?thesis
      using r(1) id
    proof (cases rule: run_index_cases)
      case (assigned k)
      then show ?thesis using run r(4) plannedD(5) [OF sound_planD(2) [OF r(1)]] by simp
    qed (use run r(4) waiting_all_assigned [OF r(3)] in auto)
  qed
  then have "filter (\<lambda>f. fr_sequence_index f \<ge> s) (rows_of db p) = []" by (auto simp: filter_empty_conv not_le)
  then show ?thesis by (simp add: tail_rows_def by_sequence_def)
qed

lemma advance_progress:
  assumes inv: "state_inv db0 p b (db, st)" and only: "reindexed_only db0 p db" and "0 < limit"
    and step: "advance limit (db, st) = Inr (db', st')" and "\<And>r. st \<noteq> Finished r"
  shows "steps_left st' < steps_left st"
proof (cases st)
  case (Writing r)
  have "0 < rr_chunk r" using state_invD(3) [OF inv] sound_planD(2) plannedD(2) Writing by fastforce
  moreover obtain rows where "st' = Writing (r\<lparr>rr_parking := drop (rr_chunk r) (rr_parking r)\<rparr>) \<and> rr_parking r \<noteq> [] \<or>
      st' = Writing (r\<lparr>rr_assigned := min (length (rr_order r)) (rr_assigned r + rr_chunk r)\<rparr>) \<and> rr_assigned r < length (rr_order r) \<or>
      st' = Compacting rows r"
    using step Writing
    by (cases "park_rows (take (rr_chunk r) (rr_parking r)) (rr_offset r) (fd_frames db)";
        cases "set_sequence_indexes (enumerate_from (rr_start r + int (rr_assigned r)) (take (rr_chunk r) (drop (rr_assigned r) (rr_order r)))) (fd_frames db)")
      (auto split: if_splits)
  moreover have "0 < length (rr_parking r)" if "rr_parking r \<noteq> []" using that by simp
  ultimately show ?thesis using Writing by (auto simp: steps_left_def simp del: length_greater_0_conv)
next
  case (Compacting s r)
  have "1 \<le> s" using plan_start(1) [of db0 p b r] state_invD(3,5) [OF inv] Compacting by simp
  then have "compact_pass limit (rr_project r) s db = Inr (0, db)"
    using compact_pass_result(1) [OF state_invD(1) [OF inv], of s limit p] nothing_above inv only Compacting
      plannedD(1) [OF sound_planD(2) [OF state_invD(3) [OF inv]]] by (simp add: closing_def)
  then show ?thesis using step Compacting assms(3) by (auto simp: steps_left_def)
qed (use assms(5) in simp)

lemma run_to_end_result:
  assumes "state_inv db0 p b (db, st)" "reindexed_only db0 p db" "0 < limit"
  shows "run_to_end limit (db, st) = Some (Inr (with_indexes (renumbering db0 p (Some b)) db0))"
  using assms(1,2)
proof (induction "steps_left st" arbitrary: db st rule: less_induct)
  case less
  show ?case
  proof (cases "\<exists>r. st = Finished r")
    case True
    then show ?thesis using finished_table [OF less(2,3)] state_invD(5) [OF less(2)] by (auto simp: run_to_end.simps)
  next
    case False
    obtain m st' where m: "advance limit (db, st) = Inr (with_indexes m db, st')" "state_inv db0 p b (with_indexes m db, st')" "only_project db p m"
      by (rule advance_sound [OF less(2)])
    have "steps_left st' < steps_left st" using advance_progress [OF less(2,3) assms(3) m(1)] False by blast
    then have "run_to_end limit (with_indexes m db, st') = Some (Inr (with_indexes (renumbering db0 p (Some b)) db0))"
      using less(1) m(2) reindexed_only_step [OF less(3) m(3)] by blast
    moreover have "run_to_end limit (db, st) = run_to_end limit (with_indexes m db, st')"
      unfolding run_to_end.simps [of limit "(db, st)"] m(1) using False by (cases st) simp_all
    ultimately show ?thesis by simp
  qed
qed

lemma chunked_result:
  assumes wf: "frames_wf db" and b: "renumber_bound db p ids = Some b" and scan: "\<And>xs. mset (scan xs) = mset xs"
  shows "resequence_project_chunked scan chunk_rows db p ids =
    Some (Inr (length (suffix_rows db p (Some b)), with_indexes (renumbering db p (Some b)) db))"
proof (cases "\<exists>db1 r. plan_renumber scan chunk_rows db p ids = Inr (Chunked db1 r)")
  case False
  then have "plan_renumber scan chunk_rows db p ids = Inr (Whole (length (suffix_rows db p (Some b))) (with_indexes (renumbering db p (Some b)) db))"
    unfolding plan_result [OF wf b] resequence_from_result [OF wf scan] by (auto split: if_splits)
  then show ?thesis by (simp add: resequence_project_chunked_def)
next
  case True
  then obtain db1 r where plan: "plan_renumber scan chunk_rows db p ids = Inr (Chunked db1 r)" by blast
  then obtain b' where b': "renumber_bound db p ids = Some b'" "state_inv db p b' (db1, Writing r)"
    "\<exists>m. db1 = with_indexes m db \<and> only_project db p m"
    using plan_sound [OF wf plan] by metis
  then have "run_to_end renumber_chunk_rows (db1, Writing r) = Some (Inr (with_indexes (renumbering db p (Some b)) db))"
    using run_to_end_result [OF b'(2)] b by (simp add: reindexed_only_def renumber_chunk_rows_def)
  moreover have "rr_order r = map fr_id (suffix_rows db p (Some b))"
    using plannedD(4) [OF sound_planD(2) [OF state_invD(3) [OF b'(2)]]] b'(1) b by simp
  ultimately show ?thesis using plan by (simp add: resequence_project_chunked_def)
qed

text \<open>
  C33.  The renumber in chunks, with nothing in between, returns: it ends, and gives the count
  and the table that the single transaction gives, whatever the size of the chunks and whatever
  order SQLite updates rows in.
\<close>

theorem chunked_renumber_equivalent:
  assumes wf: "frames_wf db" and scan: "\<And>xs. mset (scan xs) = mset xs"
  shows "resequence_project_chunked scan chunk_rows db p ids = Some (resequence_after_import scan db p ids)"
proof (cases "renumber_bound db p ids")
  case None
  then show ?thesis by (simp add: resequence_project_chunked_def plan_renumber_def resequence_after_import_def)
next
  case (Some b)
  then show ?thesis
    using chunked_result [OF wf Some scan] resequence_from_result [OF wf scan] by (simp add: resequence_after_import_def)
qed

theorem chunked_renumber_equivalent_witness:
  "frames_wf mixed_table \<and>
   resequence_project_chunked rev (Some 1) mixed_table 1 [] = Some (resequence_after_import rev mixed_table 1 []) \<and>
   (case resequence_after_import rev mixed_table 1 [] of Inr (n, db) \<Rightarrow> n = 3 \<and> listing db 1 = [1, 3, 4, 2] | Inl e \<Rightarrow> False)"
proof (intro conjI)
  show wf: "frames_wf mixed_table" by code_simp
  show "resequence_project_chunked rev (Some 1) mixed_table 1 [] = Some (resequence_after_import rev mixed_table 1 [])"
    by (rule chunked_renumber_equivalent [OF wf]) simp
  show "case resequence_after_import rev mixed_table 1 [] of Inr (n, db) \<Rightarrow> n = 3 \<and> listing db 1 = [1, 3, 4, 2] | Inl e \<Rightarrow> False"
    by code_simp
qed

section \<open>After a change of timestamps\<close>

lemma neighbours_cong:
  "rows_of db' p = rows_of db p \<Longrightarrow> neighbours_out_of_order db' p ids = neighbours_out_of_order db p ids"
  by (induction ids) (simp_all add: row_before_def row_after_def cong: option.case_cong)

lemma earliest_cong: "rows_of db' p = rows_of db p \<Longrightarrow> earliest_out_of_order_timestamp db' p = earliest_out_of_order_timestamp db p"
  by (simp add: earliest_out_of_order_timestamp_def)

text \<open>The targeted check may be trusted for the frames it is given.\<close>

definition check_exact :: "frame_db \<Rightarrow> int \<Rightarrow> int list option \<Rightarrow> bool" where
  "check_exact db p moved \<longleftrightarrow>
     (case moved of None \<Rightarrow> True | Some ids \<Rightarrow> neighbours_out_of_order db p ids \<longleftrightarrow> earliest_out_of_order_timestamp db p \<noteq> None)"

lemma restore_project_result:
  assumes wf: "frames_wf db" and scan: "\<And>xs. mset (scan xs) = mset xs" and exact: "check_exact db p moved"
  obtains n m where "restore_project_order scan db p moved = Some (Inr (n, with_indexes m db))" "only_project db p m"
    "frames_wf (with_indexes m db)" "in_order (rows_of (with_indexes m db) p)"
proof (cases "earliest_out_of_order_timestamp db p")
  case None
  then have "restore_project_order scan db p moved = Some (Inr (0, with_indexes Map.empty db))"
    by (auto simp: restore_project_order_def Let_def)
  then show ?thesis by (rule that) (use wf None in \<open>simp_all add: only_project_def earliest_None_iff\<close>)
next
  case (Some e)
  obtain b where b: "renumber_bound db p [] = Some b" using Some by (cases "renumber_bound db p []") (auto dest: renumber_bound_None)
  have "restore_project_order scan db p moved = resequence_project_chunked scan None db p []"
    using exact Some by (auto simp: restore_project_order_def check_exact_def Let_def split: option.splits)
  then have "restore_project_order scan db p moved = Some (Inr (length (suffix_rows db p (Some b)), with_indexes (renumbering db p (Some b)) db))"
    using chunked_result [OF wf b scan] by simp
  then show ?thesis
  proof (rule that)
    show "only_project db p (renumbering db p (Some b))" using renumbering_None [OF wf] by (simp add: only_project_def)
    show "frames_wf (with_indexes (renumbering db p (Some b)) db)" by (rule renumbering_wf [OF wf])
    show "in_order (rows_of (with_indexes (renumbering db p (Some b)) db) p)"
      by (rule renumbering_in_order [OF wf]) (rule renumber_bound_le [OF b])
  qed
qed

lemma only_project_rows:
  assumes "only_project db p m" "q \<noteq> p"
  shows "rows_of (with_indexes m db) q = rows_of db q"
  unfolding with_indexes_simps by (rule map_idI) (use assms in \<open>auto simp: only_project_def rows_of_def\<close>)

definition unindexed :: "frame_db \<Rightarrow> frame list" where
  "unindexed db = map (\<lambda>f. f\<lparr>fr_sequence_index := 0\<rparr>) (fd_frames db)"

lemma restore_marked_result:
  assumes scan: "\<And>xs. mset (scan xs) = mset xs"
  shows "frames_wf db \<Longrightarrow> distinct (map fst marks) \<Longrightarrow> (\<And>q moved. (q, moved) \<in> set marks \<Longrightarrow> check_exact db q moved) \<Longrightarrow>
    (\<And>q. q \<notin> fst ` set marks \<Longrightarrow> in_order (rows_of db q)) \<Longrightarrow>
    \<exists>db'. restore_marked scan marks db = Some db' \<and> frames_wf db' \<and> (\<forall>q. in_order (rows_of db' q)) \<and> unindexed db' = unindexed db"
proof (induction marks arbitrary: db)
  case Nil
  then show ?case by simp
next
  case (Cons mark marks)
  obtain p moved where mark: "mark = (p, moved)" by (cases mark)
  have "check_exact db p moved" using Cons.prems(3) mark by simp
  then obtain n m where r: "restore_project_order scan db p moved = Some (Inr (n, with_indexes m db))" "only_project db p m"
    "frames_wf (with_indexes m db)" "in_order (rows_of (with_indexes m db) p)"
    using restore_project_result [OF Cons.prems(1) scan] by metis
  let ?db = "with_indexes m db"
  note same = only_project_rows [OF r(2)]
  have "\<exists>db'. restore_marked scan marks ?db = Some db' \<and> frames_wf db' \<and> (\<forall>q. in_order (rows_of db' q)) \<and> unindexed db' = unindexed ?db"
  proof (rule Cons.IH [OF r(3)])
    show "distinct (map fst marks)" using Cons.prems(2) by simp
    show "check_exact ?db q moved'" if q: "(q, moved') \<in> set marks" for q moved'
    proof -
      have "q \<noteq> p" using Cons.prems(2) q mark by force
      then show ?thesis using Cons.prems(3) [of q moved'] q neighbours_cong [OF same, of q] earliest_cong [OF same, of q]
        by (simp add: check_exact_def split: option.splits)
    qed
    show "in_order (rows_of ?db q)" if "q \<notin> fst ` set marks" for q
      using r(4) same [of q] Cons.prems(4) [of q] that mark by (cases "q = p") auto
  qed
  moreover have "unindexed ?db = unindexed db" by (simp add: unindexed_def)
  ultimately show ?case using r(1) mark by simp
qed

text \<open>A session that only changed timestamps has marked every project and frame it touched.\<close>

definition moved_by :: "fsession \<Rightarrow> frame \<Rightarrow> bool" where
  "moved_by s f \<longleftrightarrow>
     (case map_of (fs_order_dirty s) (fr_project_id f) of
        None \<Rightarrow> False | Some None \<Rightarrow> True | Some (Some ids) \<Rightarrow> fr_id f \<in> set ids)"

definition marked :: "frame_db \<Rightarrow> (int \<Rightarrow> int option option) \<Rightarrow> fsession \<Rightarrow> bool" where
  "marked db t s \<longleftrightarrow>
     fd_frames (fs_db s) = map (retimed t) (fd_frames db) \<and> distinct (map fst (fs_order_dirty s)) \<and>
     (\<forall>f\<in>set (fd_frames db). t (fr_id f) \<noteq> None \<longrightarrow> moved_by s f) \<and>
     (\<forall>q ids. map_of (fs_order_dirty s) q = Some (Some ids) \<longrightarrow> set ids \<subseteq> fr_id ` set (rows_of db q))"

lemma markedD:
  assumes "marked db t s"
  shows "fd_frames (fs_db s) = map (retimed t) (fd_frames db)" "distinct (map fst (fs_order_dirty s))"
    "\<And>g. g \<in> set (fd_frames db) \<Longrightarrow> t (fr_id g) \<noteq> None \<Longrightarrow> moved_by s g"
    "\<And>q ids. map_of (fs_order_dirty s) q = Some (Some ids) \<Longrightarrow> set ids \<subseteq> fr_id ` set (rows_of db q)"
proof -
  note a = assms [unfolded marked_def]
  show "fd_frames (fs_db s) = map (retimed t) (fd_frames db)" "distinct (map fst (fs_order_dirty s))" using a by blast+
  show "moved_by s g" if "g \<in> set (fd_frames db)" "t (fr_id g) \<noteq> None" for g using a that by blast
  show "set ids \<subseteq> fr_id ` set (rows_of db q)" if "map_of (fs_order_dirty s) q = Some (Some ids)" for q ids using a that by blast
qed

lemma frames_events [simp]:
  "fd_frames (ensure_sentinel_admin db) = fd_frames db" "fd_frames (add_event e db) = fd_frames db"
  by (simp_all add: ensure_sentinel_admin_def add_event_def)

lemma fs_frames_add_events [simp]:
  "fd_frames (fs_db (add_events es s)) = fd_frames (fs_db s)" "fs_order_dirty (add_events es s) = fs_order_dirty s"
  "fd_frames (fs_db (record_event now q l msg md a s)) = fd_frames (fs_db s)" "fs_order_dirty (record_event now q l msg md a s) = fs_order_dirty s"
  "fd_frames (fs_db (on_db ensure_sentinel_admin s)) = fd_frames (fs_db s)" "fs_order_dirty (on_db u s) = fs_order_dirty s"
proof -
  have "fd_frames (fold add_event es db) = fd_frames db" for db
    by (induction es arbitrary: db) (simp_all add: add_event_def)
  then show "fd_frames (fs_db (add_events es s)) = fd_frames (fs_db s)" by (simp add: add_events_def on_db_def)
qed (simp_all add: add_events_def on_db_def record_event_def add_event_def ensure_sentinel_admin_def)

lemma marked_events [simp]:
  "marked db t (record_event now q l msg md a s) = marked db t s" "marked db t (add_events es s) = marked db t s"
  "marked db t (on_db ensure_sentinel_admin s) = marked db t s"
  by (simp_all add: marked_def moved_by_def)

lemma retimed_update:
  "map (\<lambda>f. if fr_id f = i then f\<lparr>fr_capture_timestamp := v\<rparr> else f) (map (retimed t) rows) = map (retimed (t(i \<mapsto> v))) rows"
proof -
  have "(if fr_id (retimed t f) = i then (retimed t f)\<lparr>fr_capture_timestamp := v\<rparr> else retimed t f) = retimed (t(i \<mapsto> v)) f" for f
    by (cases "fr_id f = i"; cases "t (fr_id f)") (simp_all add: retimed_def)
  then show ?thesis unfolding map_map comp_def by (rule map_cong [OF refl])
qed

lemma marked_move:
  assumes m: "marked db t s" and f: "get_frame (fs_db s) i = Inr f" and wf: "frames_wf db"
  shows "\<exists>t'. marked db t' (mark_order_dirty (fr_project_id f) (Some i)
    (on_db (change_frame i (\<lambda>r. r\<lparr>fr_capture_timestamp := Some v\<rparr>)) s))"
proof -
  let ?s = "mark_order_dirty (fr_project_id f) (Some i) (on_db (change_frame i (\<lambda>r. r\<lparr>fr_capture_timestamp := Some v\<rparr>)) s)"
  note m = markedD [OF m]
  have "f \<in> retimed t ` set (fd_frames db)" and fi: "fr_id f = i" using get_frameD [OF f] by (simp_all add: m(1))
  then obtain f0 where f0: "f0 \<in> set (fd_frames db)" "f = retimed t f0" by blast
  have f0i: "fr_id f0 = i" using fi f0(2) by simp
  have row: "i \<in> fr_id ` set (rows_of db (fr_project_id f))" using imageI [of f0 "set (rows_of db (fr_project_id f))" fr_id] f0 f0i by (simp add: rows_of_def)
  have id: "fr_project_id g = fr_project_id f" if "g \<in> set (fd_frames db)" "fr_id g = i" for g
    using id_inj [OF frames_wfD(1) [OF wf] f0(1) that(1)] that(2) f0(2) f0i by simp
  have "fd_frames (fs_db ?s) = fd_frames (change_frame i (\<lambda>r. r\<lparr>fr_capture_timestamp := Some v\<rparr>) (fs_db s))"
    by (simp add: mark_order_dirty_def on_db_def Let_def split: option.splits)
  then have frames: "fd_frames (fs_db ?s) = map (retimed (t(i \<mapsto> Some v))) (fd_frames db)"
    unfolding change_frame_def m(1) retimed_update by simp
  have dirty: "fs_order_dirty ?s = (case map_of (fs_order_dirty s) (fr_project_id f) of
      None \<Rightarrow> dict_set (fs_order_dirty s) (fr_project_id f) (Some [i])
    | Some None \<Rightarrow> fs_order_dirty s
    | Some (Some moved) \<Rightarrow> dict_set (fs_order_dirty s) (fr_project_id f) (Some (List.insert i moved)))"
    by (simp add: mark_order_dirty_def on_db_def Let_def split: option.splits)
  have "marked db (t(i \<mapsto> Some v)) ?s"
    unfolding marked_def
  proof (intro conjI ballI allI impI)
    show "distinct (map fst (fs_order_dirty ?s))" unfolding dirty using m(2) by (simp split: option.splits)
    show "moved_by ?s g" if g: "g \<in> set (fd_frames db)" "(t(i \<mapsto> Some v)) (fr_id g) \<noteq> None" for g
    proof (cases "fr_id g = i")
      case True
      then show ?thesis using id [OF g(1) True] unfolding moved_by_def dirty by (auto split: option.splits)
    next
      case False
      then have "moved_by s g" using m(3) [OF g(1)] g(2) by simp
      then show ?thesis unfolding moved_by_def dirty by (auto split: option.splits)
    qed
    show "set ids \<subseteq> fr_id ` set (rows_of db q)" if "map_of (fs_order_dirty ?s) q = Some (Some ids)" for q ids
      using that m(4) [of q] m(4) [of "fr_project_id f"] row unfolding dirty by (auto split: option.splits if_splits)
  qed (rule frames)
  then show ?thesis by blast
qed

lemma offset_loop_marked:
  "frames_wf db \<Longrightarrow> marked db t s \<Longrightarrow> offset_loop now frames a secs ids s es r = Inr (s', es', r') \<Longrightarrow> \<exists>t'. marked db t' s'"
proof (induction ids arbitrary: s es r t)
  case (Cons i ids)
  show ?case
  proof (cases "map_of frames i")
    case None
    then show ?thesis using Cons.prems by (auto intro: Cons.IH)
  next
    case (Some f0)
    with Cons.prems(3) obtain f where f: "get_frame (fs_db s) i = Inr f" by auto
    show ?thesis
    proof (cases "fr_capture_timestamp f")
      case None
      then show ?thesis using Cons.prems Some f by (auto intro: Cons.IH)
    next
      case ts: (Some u)
      with Cons.prems(3) Some f obtain v where v: "datetime_add u (secs * second_us) = Inr v" by auto
      obtain t' where t': "marked db t' (mark_order_dirty (fr_project_id f) (Some i)
          (on_db (change_frame i (\<lambda>r. r\<lparr>fr_capture_timestamp := Some v\<rparr>)) s))"
        using marked_move [OF Cons.prems(2) f Cons.prems(1)] by blast
      show ?thesis using Cons.IH [OF Cons.prems(1) t'] Cons.prems(3) Some f ts v by simp
    qed
  qed
qed auto

text \<open>The operations that change timestamps, within one transaction.\<close>

inductive edit_op :: "fsession \<Rightarrow> fsession \<Rightarrow> bool" where
  edited: "edit_capture_timestamp now i u a s = Inr s' \<Longrightarrow> edit_op s s'"
| shifted: "offset_timestamps_many now ids secs a s = Inr (r, s') \<Longrightarrow> edit_op s s'"

lemma edit_op_marked:
  assumes "edit_op s s'" "marked db t s" "frames_wf db"
  shows "\<exists>t'. marked db t' s'"
  using assms(1)
proof cases
  case (edited now i u a)
  then obtain f where f: "get_frame (fs_db s) i = Inr f" by (auto simp: edit_capture_timestamp_def)
  with edited show ?thesis using marked_move [OF assms(2) f assms(3), of "to_naive_utc u"]
    by (auto simp: edit_capture_timestamp_def Let_def)
next
  case (shifted now ids secs a r)
  let ?s0 = "if load_frames_by_id (fs_db s) ids \<noteq> [] then on_db ensure_sentinel_admin s else s"
  from shifted obtain s1 es where l: "offset_loop now (load_frames_by_id (fs_db s) ids) a secs ids ?s0 []
      \<lparr>of_shifted = [], of_skipped_null = [], of_failed = []\<rparr> = Inr (s1, es, r)" "s' = add_events es s1"
    by (auto simp: offset_timestamps_many_def Let_def)
  have "marked db t ?s0" using assms(2) by simp
  then obtain t' where "marked db t' s1" using offset_loop_marked [OF assms(3) _ l(1)] by blast
  then show ?thesis using l(2) by auto
qed

lemma edit_op_core: "edit_op s s' \<Longrightarrow> core_of (fs_db s') = core_of (fs_db s)"
  by (auto elim!: edit_op.cases dest: single_ops_core offset_many_core)

lemma marked_exact:
  assumes m: "marked db t s" and wf: "frames_wf (fs_db s)" and o: "\<And>q. in_order (rows_of db q)"
  shows "(q, moved) \<in> set (fs_order_dirty s) \<Longrightarrow> check_exact (fs_db s) q moved"
    and "q \<notin> fst ` set (fs_order_dirty s) \<Longrightarrow> in_order (rows_of (fs_db s) q)"
proof -
  note frames = markedD(1) [OF m] and d = markedD(2) [OF m] and cover = markedD(3) [OF m] and ids = markedD(4) [OF m]
  let ?t = "t |` (fr_id ` set (rows_of db q))"
  have rows: "rows_of (fs_db s) q = map (retimed ?t) (rows_of db q)"
  proof -
    have "rows_of (fs_db s) q = map (retimed t) (rows_of db q)" by (simp add: rows_of_def frames filter_map comp_def)
    also have "\<dots> = map (retimed ?t) (rows_of db q)" by (rule map_cong) (simp_all add: retimed_def restrict_map_def)
    finally show ?thesis .
  qed
  show "check_exact (fs_db s) q moved" if mem: "(q, moved) \<in> set (fs_order_dirty s)"
  proof (cases moved)
    case (Some l)
    have find: "map_of (fs_order_dirty s) q = Some (Some l)" using mem d Some by simp
    have "dom ?t \<subseteq> set l"
    proof
      fix i assume "i \<in> dom ?t"
      then obtain g where g: "g \<in> set (rows_of db q)" "fr_id g = i" "t (fr_id g) \<noteq> None" by (auto simp: restrict_map_def split: if_splits)
      then have "moved_by s g" using cover [of g] by (simp add: rows_of_def)
      then show "i \<in> set l" using find g by (simp add: moved_by_def rows_of_def)
    qed
    from neighbours_exact [OF wf o rows this ids [OF find]] show ?thesis using Some by (simp add: check_exact_def)
  qed (simp add: check_exact_def)
  show "in_order (rows_of (fs_db s) q)" if "q \<notin> fst ` set (fs_order_dirty s)"
  proof -
    have none: "map_of (fs_order_dirty s) q = None" using that by (simp add: map_of_eq_None_iff)
    have "retimed ?t f = f" if "f \<in> set (rows_of db q)" for f
      using cover [of f] that none by (cases "t (fr_id f)") (auto simp: rows_of_def moved_by_def retimed_def restrict_map_def)
    then have "rows_of (fs_db s) q = rows_of db q" unfolding rows by (intro map_idI) blast
    then show ?thesis using o by simp
  qed
qed

text \<open>
  C34.  Changes of timestamps keep every project in order.  One transaction edits and shifts
  timestamps in any number of projects, in any way; the commit hook then returns, and leaves
  every project in order of time if every one was before.  It changes nothing but sequence
  indexes, although for a small change it looks only at the neighbours of the frames moved.
\<close>

theorem edits_keep_order:
  assumes wf: "frames_wf db" and o: "\<And>q. in_order (rows_of db q)" and scan: "\<And>xs. mset (scan xs) = mset xs"
    and edits: "edit_op\<^sup>*\<^sup>* (open_session db) s"
  shows "\<exists>db'. restore_order_after_commit scan s = Some db' \<and> frames_wf db' \<and> (\<forall>q. in_order (rows_of db' q)) \<and> unindexed db' = unindexed (fs_db s)"
proof -
  have "(\<exists>t. marked db t s) \<and> core_of (fs_db s) = core_of db"
    using edits
  proof (induction rule: rtranclp_induct)
    case base
    have "marked db Map.empty (open_session db)" by (simp add: marked_def open_session_def map_idI)
    then show ?case by auto
  next
    case (step y z)
    then show ?case using edit_op_marked [OF step(2) _ wf] edit_op_core [OF step(2)] by auto
  qed
  then obtain t where t: "marked db t s" "frames_wf (fs_db s)" using frames_wf_cong wf by blast
  show ?thesis
    unfolding restore_order_after_commit_def
  proof (rule restore_marked_result [OF scan t(2)])
    show "distinct (map fst (sort_key fst (fs_order_dirty s)))"
      using markedD(2) [OF t(1)] by (metis mset_eq_imp_distinct_iff mset_map mset_sort)
    show "check_exact (fs_db s) q moved" if "(q, moved) \<in> set (sort_key fst (fs_order_dirty s))" for q moved
      using marked_exact(1) [OF t o] that by simp
    show "in_order (rows_of (fs_db s) q)" if "q \<notin> fst ` set (sort_key fst (fs_order_dirty s))" for q
      using marked_exact(2) [OF t o] that by simp
  qed
qed

definition ordered_table :: frame_db where
  "ordered_table = sample_table [sample_row 1 1 50, sample_row 2 2 60, sample_row 3 3 70]"

definition edited_session :: fsession where
  "edited_session = (case edit_capture_timestamp 0 1 (Naive 65) 7 (open_session ordered_table) of Inr s \<Rightarrow> s | Inl e \<Rightarrow> open_session ordered_table)"

theorem edits_keep_order_witness:
  "frames_wf ordered_table \<and> edit_capture_timestamp 0 1 (Naive 65) 7 (open_session ordered_table) = Inr edited_session \<and>
   \<not> in_order (rows_of (fs_db edited_session) 1) \<and>
   (\<exists>db'. restore_order_after_commit rev edited_session = Some db' \<and> in_order (rows_of db' 1))"
proof (intro conjI)
  show wf: "frames_wf ordered_table" by code_simp
  show e: "edit_capture_timestamp 0 1 (Naive 65) 7 (open_session ordered_table) = Inr edited_session" by code_simp
  show "\<not> in_order (rows_of (fs_db edited_session) 1)" by code_simp
  have one: "in_order (rows_of ordered_table 1)" by code_simp
  have o: "in_order (rows_of ordered_table q)" for q
  proof (cases "q = 1")
    case False
    then have "rows_of ordered_table q = []" by (simp add: rows_of_def ordered_table_def sample_table_def sample_row_def frame_row_def)
    then show ?thesis by (simp add: in_order_def by_sequence_def)
  qed (simp add: one)
  have "edit_op\<^sup>*\<^sup>* (open_session ordered_table) edited_session" using edited [OF e] by (rule r_into_rtranclp)
  from edits_keep_order [OF wf o _ this, of rev]
  show "\<exists>db'. restore_order_after_commit rev edited_session = Some db' \<and> in_order (rows_of db' 1)" by auto
qed

text \<open>
  What the guard on deletes in a run is for.  If every row above the offset is permanently
  deleted between two chunks, a capture takes an index inside the range the run has yet to
  write, and the run ends in a unique violation.
\<close>

definition run_after :: "nat \<Rightarrow> frame_db \<times> run_state \<Rightarrow> (frame_db \<times> run_state) res" where
  "run_after n st = ((\<lambda>r. rbind r (advance 5)) ^^ n) (Inr st)"

lemma lost_parked_rows:
  "let (db1, r) = (case plan_renumber rev (Some 1) mixed_table 1 [] of Inr (Chunked db r) \<Rightarrow> (db, Some r) | _ \<Rightarrow> (mixed_table, None));
       db2 = delete_row 4 db1;
       db3 = fst (last (snd (writer_write [''data'', ''frames''] sample_env 1 sample_captured sample_args (db2, []))))
   in listing db3 1 = [1, 2, 3, 5] \<and> run_after 6 (db3, Writing (the r)) = Inl IntegrityError"
  by code_simp

end
