(* ===== verification/Multipart.thy ===== *)
theory Multipart
  imports Prelude
begin

text \<open>
  The multipart reader of uploads (\<open>web/multipart.py\<close>): the incremental parser that is fed the
  body chunk by chunk, and the helpers for the headers of a part that it shares with the reader of a
  body in memory.  A byte is a character; decoding as Latin-1 is then the identity.
\<close>

section \<open>Bytes\<close>

type_synonym bytes = string

definition crlf :: bytes where "crlf = [CHR 0x0D, CHR 0x0A]"

text \<open>\<open>bytes.find\<close>, \<open>partition\<close> and \<open>split\<close> with a separator that is not empty.\<close>

fun find_sub :: "'a list \<Rightarrow> 'a list \<Rightarrow> nat option" where
  "find_sub sub [] = (if sub = [] then Some 0 else None)"
| "find_sub sub (x # xs) = (if take (length sub) (x # xs) = sub then Some 0 else map_option Suc (find_sub sub xs))"

definition py_partition :: "'a list \<Rightarrow> 'a list \<Rightarrow> 'a list \<times> 'a list \<times> 'a list" where
  "py_partition sep s =
     (case find_sub sep s of None \<Rightarrow> (s, [], []) | Some i \<Rightarrow> (take i s, sep, drop (i + length sep) s))"

function split_sub :: "'a list \<Rightarrow> 'a list \<Rightarrow> 'a list list" where
  "split_sub sep s =
     (if sep = [] then [s]
      else (case find_sub sep s of None \<Rightarrow> [s] | Some i \<Rightarrow> take i s # split_sub sep (drop (i + length sep) s)))"
  by pat_completeness auto

lemma find_sub_SomeD:
  assumes "find_sub sub s = Some i"
  shows "i + length sub \<le> length s" "take (length sub) (drop i s) = sub"
proof -
  have "i + length sub \<le> length s \<and> take (length sub) (drop i s) = sub"
    using assms
  proof (induction s arbitrary: i)
    case (Cons x xs)
    show ?case
    proof (cases "take (length sub) (x # xs) = sub")
      case True
      then have "length sub \<le> length (x # xs)" by (metis length_take min.cobounded1 min_def)
      then show ?thesis using True Cons.prems by simp
    next
      case False
      then obtain j where "find_sub sub xs = Some j" "i = Suc j" using Cons.prems by auto
      then show ?thesis using Cons.IH by simp
    qed
  qed (auto split: if_splits)
  then show "i + length sub \<le> length s" "take (length sub) (drop i s) = sub" by blast+
qed

termination split_sub
proof (relation "measure (length \<circ> snd)")
  fix sep s :: "'a list" and i
  assume "sep \<noteq> []" "find_sub sep s = Some i"
  then show "((sep, drop (i + length sep) s), sep, s) \<in> measure (length \<circ> snd)"
    using find_sub_SomeD(1) [of sep s i] by (cases sep) auto
qed simp

declare split_sub.simps [simp del]

definition strip_chars :: "char list \<Rightarrow> string \<Rightarrow> string" where
  "strip_chars cs s = rev (dropWhile (\<lambda>c. c \<in> set cs) (rev (dropWhile (\<lambda>c. c \<in> set cs) s)))"

definition rstrip_chars :: "char list \<Rightarrow> string \<Rightarrow> string" where
  "rstrip_chars cs s = rev (dropWhile (\<lambda>c. c \<in> set cs) (rev s))"

text \<open>\<open>str.lower\<close> on a string of Latin-1 characters.\<close>

definition latin1_lower :: "char \<Rightarrow> char" where
  "latin1_lower c = (let n = (of_char c :: nat) in
     if (65 \<le> n \<and> n \<le> 90) \<or> (192 \<le> n \<and> n \<le> 222 \<and> n \<noteq> 215) then char_of (n + 32) else c)"

definition py_lower :: "string \<Rightarrow> string" where
  "py_lower s = map latin1_lower s"

section \<open>Headers of a part\<close>

definition starts_with :: "'a list \<Rightarrow> 'a list \<Rightarrow> bool" where
  "starts_with pre s = (take (length pre) s = pre)"

fun boundary_of :: "string list \<Rightarrow> bytes option" where
  "boundary_of [] = None"
| "boundary_of (part # parts) =
     (let (key, sep, v) = py_partition ''='' (py_strip part)
      in if py_lower (py_strip key) = ''boundary''
         then (let token = strip_chars ''\"'' (py_strip v) in if token = [] then None else Some token)
         else boundary_of parts)"

definition multipart_boundary :: "string \<Rightarrow> bytes option" where
  "multipart_boundary content_type =
     (if \<not> starts_with ''multipart/form-data'' content_type then None
      else boundary_of (split_on (CHR '';'') content_type))"

definition part_headers :: "bytes \<Rightarrow> (string \<times> string) list" where
  "part_headers blob =
     fold (\<lambda>line headers.
       if line = [] then headers
       else (let (key, sep, v) = py_partition '':'' line
             in dict_set headers (py_lower (py_strip key)) (py_strip v)))
       (split_sub crlf blob) []"

fun param_of :: "string \<Rightarrow> string list \<Rightarrow> string option" where
  "param_of param [] = None"
| "param_of param (piece # pieces) =
     (let (key, sep, v) = py_partition ''='' (py_strip piece)
      in if py_lower (py_strip key) = param then Some (strip_chars ''\"'' (py_strip v)) else param_of param pieces)"

definition disposition_param :: "string \<Rightarrow> string \<Rightarrow> string option" where
  "disposition_param disposition param = param_of param (split_on (CHR '';'') disposition)"

definition header_or :: "(string \<times> string) list \<Rightarrow> string \<Rightarrow> string \<Rightarrow> string" where
  "header_or headers key fallback = (case map_of headers key of None \<Rightarrow> fallback | Some v \<Rightarrow> v)"

section \<open>The parser\<close>

definition max_field_bytes :: int where "max_field_bytes = 64 * 1024"
definition max_part_header_bytes :: int where "max_part_header_bytes = 16 * 1024"
definition max_preamble_bytes :: int where "max_preamble_bytes = 64 * 1024"

datatype multipart_event =
    PartStart string "string option" string
  | PartData bytes
  | PartEnd
  | FormEnd

datatype parser_state = Preamble | AfterDelimiter | Headers | Content | Epilogue

record multipart_parser =
  mp_boundary :: bytes
  mp_buf :: bytes
  mp_state :: parser_state
  mp_discarded :: nat
  mp_is_file :: bool
  mp_part_bytes :: nat

definition new_parser :: "bytes \<Rightarrow> multipart_parser" where
  "new_parser boundary =
     \<lparr>mp_boundary = boundary, mp_buf = crlf, mp_state = Preamble, mp_discarded = 0, mp_is_file = False, mp_part_bytes = 0\<rparr>"

definition delimiter :: "bytes \<Rightarrow> bytes" where
  "delimiter boundary = crlf @ ''--'' @ boundary"

type_synonym step_result = "(bool \<times> multipart_parser \<times> multipart_event list) res"

definition step_preamble :: "multipart_parser \<Rightarrow> step_result" where
  "step_preamble p =
     (let buf = mp_buf p; d = delimiter (mp_boundary p)
      in case find_sub d buf of
           Some i \<Rightarrow> Inr (True, p\<lparr>mp_buf := drop (i + length d) buf, mp_state := AfterDelimiter\<rparr>, [])
         | None \<Rightarrow>
             (let keep = length d - 1
              in if length buf > keep
                 then (let discarded = mp_discarded p + (length buf - keep)
                       in if int discarded > max_preamble_bytes then Inl (MultipartError ''the multipart body has no first boundary'')
                          else Inr (False, p\<lparr>mp_buf := drop (length buf - keep) buf, mp_discarded := discarded\<rparr>, []))
                 else Inr (False, p, [])))"

definition step_after_delimiter :: "multipart_parser \<Rightarrow> step_result" where
  "step_after_delimiter p =
     (let buf = mp_buf p; bad = Inl (MultipartError ''a boundary is not followed by a line break'')
      in if take 2 buf = ''--'' then Inr (False, p\<lparr>mp_buf := [], mp_state := Epilogue\<rparr>, [FormEnd])
         else (case find_sub crlf buf of
             None \<Rightarrow>
               (let pending = rstrip_chars [CHR 0x0D] buf
                in if int (length buf) > 1024 \<or> (pending \<noteq> ''-'' \<and> strip_chars [CHR '' '', CHR 0x09] pending \<noteq> []) then bad
                   else Inr (False, p, []))
           | Some i \<Rightarrow>
               if strip_chars [CHR '' '', CHR 0x09] (take i buf) \<noteq> [] then bad
               else Inr (True, p\<lparr>mp_buf := drop (i + 2) buf, mp_state := Headers\<rparr>, [])))"

definition start_part :: "bytes \<Rightarrow> nat \<Rightarrow> multipart_parser \<Rightarrow> step_result" where
  "start_part blob consumed p =
     (let headers = part_headers blob;
          disposition = header_or headers ''content-disposition'' [];
          name = (case disposition_param disposition ''name'' of None \<Rightarrow> [] | Some n \<Rightarrow> n);
          filename = disposition_param disposition ''filename''
      in Inr (True,
           p\<lparr>mp_buf := drop consumed (mp_buf p), mp_state := Content, mp_is_file := filename \<noteq> None, mp_part_bytes := 0\<rparr>,
           [PartStart name filename (header_or headers ''content-type'' ''application/octet-stream'')]))"

definition step_headers :: "multipart_parser \<Rightarrow> step_result" where
  "step_headers p =
     (let buf = mp_buf p; large = Inl (MultipartError ''a multipart part header is too large'')
      in if starts_with crlf buf then start_part [] 2 p
         else (case find_sub (crlf @ crlf) buf of
             None \<Rightarrow> if int (length buf) > max_part_header_bytes then large else Inr (False, p, [])
           | Some i \<Rightarrow> if int i > max_part_header_bytes then large else start_part (take i buf) (i + 4) p))"

definition emit :: "bytes \<Rightarrow> multipart_parser \<Rightarrow> (multipart_parser \<times> multipart_event list) res" where
  "emit data p =
     (if data = [] then Inr (p, [])
      else (let n = mp_part_bytes p + length data
            in if \<not> mp_is_file p \<and> int n > max_field_bytes then Inl (MultipartError ''a multipart text field is too large'')
               else Inr (p\<lparr>mp_part_bytes := n\<rparr>, [PartData data])))"

definition step_content :: "multipart_parser \<Rightarrow> step_result" where
  "step_content p =
     (let buf = mp_buf p; d = delimiter (mp_boundary p)
      in case find_sub d buf of
           Some i \<Rightarrow> rbind (emit (take i buf) p) (\<lambda>(p', es).
             Inr (True, p'\<lparr>mp_buf := drop (i + length d) buf, mp_state := AfterDelimiter\<rparr>, es @ [PartEnd]))
         | None \<Rightarrow>
             (let safe = length buf - (length d - 1)
              in rbind (emit (take safe buf) p) (\<lambda>(p', es). Inr (False, p'\<lparr>mp_buf := drop safe buf\<rparr>, es))))"

definition step :: "multipart_parser \<Rightarrow> step_result" where
  "step p =
     (case mp_state p of
        Preamble \<Rightarrow> step_preamble p
      | AfterDelimiter \<Rightarrow> step_after_delimiter p
      | Headers \<Rightarrow> step_headers p
      | _ \<Rightarrow> step_content p)"

lemma delimiter_nonempty [simp]: "delimiter b \<noteq> []" "0 < length (delimiter b)"
  by (simp_all add: delimiter_def crlf_def)

lemma crlf_nonempty [simp]: "crlf \<noteq> []" "length crlf = 2"
  by (simp_all add: crlf_def)

lemma found_shorter: "find_sub sub s = Some i \<Longrightarrow> sub \<noteq> [] \<Longrightarrow> length (drop (i + length sub) s) < length s"
  using find_sub_SomeD(1) [of sub s i] by (cases sub) auto

lemma emit_keeps: "emit data p = Inr (p', es) \<Longrightarrow> p' = p\<lparr>mp_part_bytes := mp_part_bytes p + length data\<rparr>"
  by (auto simp: emit_def Let_def split: if_splits)

lemma content_shorter:
  assumes "step_content p = Inr (True, p', es)"
  shows "length (mp_buf p') < length (mp_buf p)"
proof -
  obtain i where "find_sub (delimiter (mp_boundary p)) (mp_buf p) = Some i"
      "mp_buf p' = drop (i + length (delimiter (mp_boundary p))) (mp_buf p)"
    using assms by (auto simp: step_content_def Let_def split: option.splits)
  then show ?thesis using found_shorter by (metis delimiter_nonempty(1))
qed

text \<open>A step that says there may be more has taken bytes off the buffer.\<close>

lemma step_shorter:
  assumes "step p = Inr (True, p', es)"
  shows "length (mp_buf p') < length (mp_buf p)"
proof (cases "mp_state p")
  case Preamble
  then obtain i where "find_sub (delimiter (mp_boundary p)) (mp_buf p) = Some i"
      "mp_buf p' = drop (i + length (delimiter (mp_boundary p))) (mp_buf p)"
    using assms by (auto simp: step_def step_preamble_def Let_def split: option.splits if_splits)
  then show ?thesis using found_shorter by (metis delimiter_nonempty(1))
next
  case AfterDelimiter
  then obtain i where "find_sub crlf (mp_buf p) = Some i" "mp_buf p' = drop (i + length crlf) (mp_buf p)"
    using assms by (auto simp: step_def step_after_delimiter_def Let_def split: option.splits if_splits)
  then show ?thesis using found_shorter by (metis crlf_nonempty(1))
next
  case Headers
  show ?thesis
  proof (cases "starts_with crlf (mp_buf p)")
    case True
    then have "take 2 (mp_buf p) = crlf" by (simp add: starts_with_def crlf_def numeral_2_eq_2)
    moreover have "mp_buf p' = drop 2 (mp_buf p)"
      using True Headers assms by (auto simp: step_def step_headers_def start_part_def Let_def)
    ultimately show ?thesis by (cases "mp_buf p") (auto simp: crlf_def)
  next
    case False
    then obtain i where "find_sub (crlf @ crlf) (mp_buf p) = Some i" "mp_buf p' = drop (i + length (crlf @ crlf)) (mp_buf p)"
      using Headers assms by (auto simp: step_def step_headers_def start_part_def Let_def split: option.splits if_splits)
    then show ?thesis using found_shorter by (metis append_is_Nil_conv crlf_nonempty(1))
  qed
qed (use assms in \<open>auto simp: step_def dest: content_shorter\<close>)

function feed_loop :: "multipart_parser \<Rightarrow> (multipart_parser \<times> multipart_event list) res" where
  "feed_loop p =
     (case step p of
        Inl e \<Rightarrow> Inl e
      | Inr (progress, p', es) \<Rightarrow>
          if progress then rbind (feed_loop p') (\<lambda>(p'', es'). Inr (p'', es @ es')) else Inr (p', es))"
  by pat_completeness auto

termination feed_loop
  by (relation "measure (length \<circ> mp_buf)") (auto dest: step_shorter)

declare feed_loop.simps [simp del]

definition feed :: "bytes \<Rightarrow> multipart_parser \<Rightarrow> (multipart_parser \<times> multipart_event list) res" where
  "feed chunk p = (if mp_state p = Epilogue then Inr (p, []) else feed_loop (p\<lparr>mp_buf := mp_buf p @ chunk\<rparr>))"

definition finish :: "multipart_parser \<Rightarrow> unit res" where
  "finish p =
     (if mp_state p \<noteq> Epilogue then Inl (MultipartError ''the multipart body ended before its closing boundary'') else Inr ())"

text \<open>A whole body, given as the chunks it arrives in.\<close>

fun feed_all :: "bytes list \<Rightarrow> multipart_parser \<Rightarrow> (multipart_parser \<times> multipart_event list) res" where
  "feed_all [] p = Inr (p, [])"
| "feed_all (chunk # chunks) p =
     rbind (feed chunk p) (\<lambda>(p', es). rbind (feed_all chunks p') (\<lambda>(p'', es'). Inr (p'', es @ es')))"

definition read_events :: "bytes \<Rightarrow> bytes list \<Rightarrow> multipart_event list res" where
  "read_events boundary chunks =
     rbind (feed_all chunks (new_parser boundary)) (\<lambda>(p, es). rbind (finish p) (\<lambda>_. Inr es))"

end
