(* ===== verification/Multipart_Chunks.thy ===== *)
theory Multipart_Chunks
  imports Multipart
begin

text \<open>
  Chunk boundaries are invisible to a reader that succeeds: the events are those of the body fed
  in one piece, up to where the content of a part is cut.
\<close>

section \<open>Searching\<close>

definition occurs_at :: "'a list \<Rightarrow> 'a list \<Rightarrow> nat \<Rightarrow> bool" where
  "occurs_at sub s i \<longleftrightarrow> i + length sub \<le> length s \<and> take (length sub) (drop i s) = sub"

lemma find_sub_Some_iff: "find_sub sub s = Some i \<longleftrightarrow> occurs_at sub s i \<and> (\<forall>j<i. \<not> occurs_at sub s j)"
proof (induction s arbitrary: i)
  case Nil
  then show ?case by (auto simp: occurs_at_def)
next
  case (Cons x xs)
  have zero: "occurs_at sub (x # xs) 0 \<longleftrightarrow> take (length sub) (x # xs) = sub"
    by (auto simp: occurs_at_def) (metis length_Cons length_take min.cobounded1 min_def)
  have suc: "occurs_at sub (x # xs) (Suc j) \<longleftrightarrow> occurs_at sub xs j" for j by (simp add: occurs_at_def)
  show ?case
  proof (cases i)
    case 0
    then show ?thesis using zero by auto
  next
    case (Suc j)
    have "(\<forall>k<Suc j. \<not> occurs_at sub (x # xs) k) \<longleftrightarrow> \<not> occurs_at sub (x # xs) 0 \<and> (\<forall>k<j. \<not> occurs_at sub xs k)"
      using suc by (auto simp: less_Suc_eq_0_disj)
    then show ?thesis using Suc Cons.IH [of j] zero suc by auto
  qed
qed

lemma find_sub_None_iff: "find_sub sub s = None \<longleftrightarrow> (\<forall>i. \<not> occurs_at sub s i)"
proof -
  have "\<exists>i. find_sub sub s = Some i" if "occurs_at sub s j" for j
    using that
  proof (induction j rule: less_induct)
    case (less j)
    then show ?case by (cases "\<forall>k<j. \<not> occurs_at sub s k") (auto simp: find_sub_Some_iff)
  qed
  then show ?thesis using find_sub_Some_iff [of sub s] by (cases "find_sub sub s") auto
qed

lemma occurs_append: "i + length sub \<le> length s \<Longrightarrow> occurs_at sub (s @ t) i \<longleftrightarrow> occurs_at sub s i"
  by (simp add: occurs_at_def)

lemma occurs_drop: "k \<le> length s \<Longrightarrow> occurs_at sub (drop k s) i \<longleftrightarrow> occurs_at sub s (k + i)"
  by (auto simp: occurs_at_def add.commute)

lemma find_append:
  assumes "find_sub sub s = Some i"
  shows "find_sub sub (s @ t) = Some i"
proof -
  have i: "occurs_at sub s i" "\<forall>j<i. \<not> occurs_at sub s j" using assms by (auto simp: find_sub_Some_iff)
  then have "j + length sub \<le> length s" if "j \<le> i" for j using that by (simp add: occurs_at_def)
  then show ?thesis using i occurs_append unfolding find_sub_Some_iff by (metis less_imp_le order_refl)
qed

text \<open>Bytes that cannot be the start of a match may be dropped from the front.\<close>

lemma find_skip:
  assumes "k \<le> length s" "\<And>j. j < k \<Longrightarrow> \<not> occurs_at sub s j"
  shows "find_sub sub s = map_option ((+) k) (find_sub sub (drop k s))"
proof (cases "find_sub sub (drop k s)")
  case None
  then have "\<not> occurs_at sub s (k + j)" for j using occurs_drop [OF assms(1)] by (auto simp: find_sub_None_iff)
  then have "\<not> occurs_at sub s j" for j using assms(2) by (metis le_add_diff_inverse not_less)
  then have "find_sub sub s = None" by (simp add: find_sub_None_iff)
  then show ?thesis using None by simp
next
  case (Some i)
  then have i: "occurs_at sub s (k + i)" "\<And>j. j < i \<Longrightarrow> \<not> occurs_at sub s (k + j)"
    using occurs_drop [OF assms(1)] by (auto simp: find_sub_Some_iff)
  have "\<not> occurs_at sub s j" if "j < k + i" for j
  proof (cases "j < k")
    case False
    then obtain l where "j = k + l" using le_Suc_ex not_less by blast
    then show ?thesis using i(2) that by simp
  qed (rule assms(2))
  then have "find_sub sub s = Some (k + i)" using i(1) by (simp add: find_sub_Some_iff)
  then show ?thesis using Some by simp
qed

lemma find_held:
  assumes "find_sub sub s = None" "k \<le> length s - (length sub - 1)" "sub \<noteq> []"
  shows "find_sub sub (s @ t) = map_option ((+) k) (find_sub sub (drop k s @ t))"
proof -
  have k: "k \<le> length s" using assms(2) by simp
  have "\<not> occurs_at sub (s @ t) j" if "j < k" for j
  proof -
    have "0 < length sub" using assms(3) by simp
    then have "j + length sub \<le> length s" using assms(2) that by simp
    then show ?thesis using occurs_append [of j sub s t] assms(1) by (simp add: find_sub_None_iff)
  qed
  then have "find_sub sub (s @ t) = map_option ((+) k) (find_sub sub (drop k (s @ t)))" using k by (intro find_skip) auto
  then show ?thesis using k by simp
qed

section \<open>Events\<close>

text \<open>Adjacent pieces of content joined.\<close>

fun joined :: "multipart_event list \<Rightarrow> multipart_event list" where
  "joined [] = []"
| "joined (PartData a # es) =
     (case joined es of PartData b # es' \<Rightarrow> PartData (a @ b) # es' | es' \<Rightarrow> PartData a # es')"
| "joined (e # es) = e # joined es"

lemma joined_append: "joined (xs @ ys) = joined (xs @ joined ys)"
proof -
  have idem: "joined (joined es) = joined es" for es
    by (induction es rule: joined.induct) (auto split: list.splits multipart_event.splits)
  show ?thesis by (induction xs rule: joined.induct) (simp_all add: idem)
qed

lemma joined_data: "joined (PartData a # PartData b # es) = joined (PartData (a @ b) # es)"
  by (auto split: list.splits multipart_event.splits)

lemma joined_cong: "joined xs = joined xs' \<Longrightarrow> joined ys = joined ys' \<Longrightarrow> joined (xs @ ys) = joined (xs' @ ys')"
proof -
  assume xs: "joined xs = joined xs'" and ys: "joined ys = joined ys'"
  have left: "joined (zs @ ys) = joined (joined zs @ ys)" for zs ys
  proof (induction zs rule: joined.induct)
    case (2 a es)
    show ?case
    proof (cases "joined es")
      case (Cons e es')
      show ?thesis using 2 Cons by (cases e) (auto split: list.splits multipart_event.splits)
    qed (use 2 in simp)
  qed simp_all
  show ?thesis by (metis left xs ys joined_append)
qed

section \<open>Steps and further bytes\<close>

text \<open>A step that made progress does the same with more bytes behind.\<close>

lemma found_within:
  assumes "find_sub sub b = Some i"
  shows "i \<le> length b" "i + length sub \<le> length b"
  using find_sub_SomeD(1) [OF assms] by simp_all

lemma starts_with_append: "length pre \<le> length b \<Longrightarrow> starts_with pre (b @ c) = starts_with pre b"
  by (simp add: starts_with_def)

lemma emit_buf: "emit data (p\<lparr>mp_buf := b\<rparr>) = rbind (emit data p) (\<lambda>(p', es). Inr (p'\<lparr>mp_buf := b\<rparr>, es))"
  by (simp add: emit_def Let_def)

lemma step_more:
  assumes "step p = Inr (True, p', es)" "mp_state p \<noteq> Epilogue"
  shows "step (p\<lparr>mp_buf := mp_buf p @ c\<rparr>) = Inr (True, p'\<lparr>mp_buf := mp_buf p' @ c\<rparr>, es)"
proof (cases "mp_state p")
  case Preamble
  then obtain i where i: "find_sub (delimiter (mp_boundary p)) (mp_buf p) = Some i"
    using assms(1) by (auto simp: step_def step_preamble_def Let_def split: option.splits if_splits)
  then show ?thesis using assms(1) Preamble find_append [OF i] found_within [OF i]
    by (auto simp: step_def step_preamble_def Let_def)
next
  case AfterDelimiter
  then obtain i where i: "find_sub crlf (mp_buf p) = Some i"
    using assms(1) by (auto simp: step_def step_after_delimiter_def Let_def split: option.splits if_splits)
  then have "take 2 (mp_buf p @ c) = take 2 (mp_buf p)" using find_sub_SomeD(1) [OF i] by simp
  then show ?thesis using assms(1) AfterDelimiter i find_append [OF i] found_within [OF i]
    by (auto simp: step_def step_after_delimiter_def Let_def split: if_splits)
next
  case Headers
  show ?thesis
  proof (cases "starts_with crlf (mp_buf p)")
    case True
    then have "2 \<le> length (mp_buf p)" by (cases "mp_buf p"; cases "tl (mp_buf p)") (auto simp: starts_with_def crlf_def)
    then show ?thesis using assms(1) Headers True starts_with_append [of crlf "mp_buf p" c]
      by (auto simp: step_def step_headers_def start_part_def Let_def)
  next
    case False
    then obtain i where i: "find_sub (crlf @ crlf) (mp_buf p) = Some i" "\<not> int i > max_part_header_bytes"
      using Headers assms(1) by (auto simp: step_def step_headers_def Let_def split: option.splits if_splits)
    have "\<not> starts_with crlf (mp_buf p @ c)" using False find_sub_SomeD(1) [OF i(1)] starts_with_append [of crlf "mp_buf p" c] by simp
    then show ?thesis using assms(1) Headers False i find_append [OF i(1)] found_within [OF i(1)]
      by (auto simp: step_def step_headers_def start_part_def Let_def)
  qed
next
  case Content
  then obtain i where i: "find_sub (delimiter (mp_boundary p)) (mp_buf p) = Some i"
    using assms(1) by (auto simp: step_def step_content_def Let_def split: option.splits)
  then show ?thesis using assms(1) Content find_append [OF i] found_within [OF i]
    by (auto simp: step_def step_content_def Let_def emit_buf)
qed (use assms(2) in simp)

text \<open>The states a step leads to.\<close>

lemma content_state:
  assumes "step_content p = Inr (b, p', es)"
  shows "mp_state p' = (if b then AfterDelimiter else mp_state p)"
proof (cases "find_sub (delimiter (mp_boundary p)) (mp_buf p)")
  case None
  then show ?thesis using assms by (auto simp: step_content_def Let_def dest!: emit_keeps)
next
  case (Some i)
  then show ?thesis using assms by (auto simp: step_content_def Let_def)
qed

lemma after_state:
  assumes "step_after_delimiter p = Inr (b, p', es)"
  shows "mp_state p' \<in> {mp_state p, Headers, Epilogue}" "b \<Longrightarrow> mp_state p' = Headers"
  using assms by (auto simp: step_after_delimiter_def Let_def split: option.splits if_splits)

lemma headers_state:
  assumes "step_headers p = Inr (b, p', es)"
  shows "mp_state p' \<in> {mp_state p, Content}" "b \<Longrightarrow> mp_state p' = Content"
proof -
  have start: "start_part blob n p = Inr (b, p', es) \<Longrightarrow> mp_state p' = Content" for blob n b by (auto simp: start_part_def Let_def)
  show "mp_state p' \<in> {mp_state p, Content}" "b \<Longrightarrow> mp_state p' = Content"
    using assms by (auto simp: step_headers_def Let_def split: option.splits if_splits dest!: start)
qed

lemma preamble_state:
  assumes "step_preamble p = Inr (b, p', es)"
  shows "b \<Longrightarrow> mp_state p' = AfterDelimiter"
  using assms by (auto simp: step_preamble_def Let_def split: option.splits if_splits)

lemma progress_state:
  assumes "step p = Inr (True, p', es)"
  shows "mp_state p' \<noteq> Epilogue"
  using assms after_state(2) headers_state(2) preamble_state content_state
  by (cases "mp_state p") (force simp: step_def)+

lemma past_preamble:
  assumes "step p = Inr (b, p', es)" "mp_state p \<noteq> Preamble"
  shows "mp_state p' \<noteq> Preamble"
proof (cases "mp_state p")
  case AfterDelimiter
  then show ?thesis using after_state(1) [of p b p' es] assms by (auto simp: step_def)
next
  case Headers
  then show ?thesis using headers_state(1) [of p b p' es] assms by (auto simp: step_def)
qed (use assms content_state [of p b p' es] in \<open>auto simp: step_def split: if_splits\<close>)

text \<open>The count of discarded bytes matters only before the first delimiter.\<close>

lemma step_discarded:
  assumes "mp_state p \<noteq> Preamble"
  shows "step (p\<lparr>mp_discarded := k\<rparr>) = rbind (step p) (\<lambda>(b, p', es). Inr (b, p'\<lparr>mp_discarded := k\<rparr>, es))"
proof -
  have "step_after_delimiter (p\<lparr>mp_discarded := k\<rparr>) = rbind (step_after_delimiter p) (\<lambda>(b, p', es). Inr (b, p'\<lparr>mp_discarded := k\<rparr>, es))"
    by (auto simp: step_after_delimiter_def Let_def split: option.splits)
  moreover have "step_headers (p\<lparr>mp_discarded := k\<rparr>) = rbind (step_headers p) (\<lambda>(b, p', es). Inr (b, p'\<lparr>mp_discarded := k\<rparr>, es))"
    by (auto simp: step_headers_def start_part_def Let_def split: option.split)
  moreover have "emit data (p\<lparr>mp_discarded := k\<rparr>) = rbind (emit data p) (\<lambda>(p', es). Inr (p'\<lparr>mp_discarded := k\<rparr>, es))" for data
    by (simp add: emit_def Let_def)
  then have "step_content (p\<lparr>mp_discarded := k\<rparr>) = rbind (step_content p) (\<lambda>(b, p', es). Inr (b, p'\<lparr>mp_discarded := k\<rparr>, es))"
    by (cases "find_sub (delimiter (mp_boundary p)) (mp_buf p)") (auto simp: step_content_def Let_def rbind_def split: sum.splits)
  ultimately show ?thesis using assms by (cases "mp_state p") (simp_all add: step_def)
qed

lemma loop_discarded:
  "mp_state p \<noteq> Preamble \<Longrightarrow> feed_loop (p\<lparr>mp_discarded := k\<rparr>) = rbind (feed_loop p) (\<lambda>(p', es). Inr (p'\<lparr>mp_discarded := k\<rparr>, es))"
proof (induction p rule: feed_loop.induct)
  case (1 p)
  show ?case
  proof (cases "step p")
    case (Inl e)
    then show ?thesis using step_discarded [OF 1(2)] by (simp add: feed_loop.simps [of p] feed_loop.simps [of "p\<lparr>mp_discarded := k\<rparr>"])
  next
    case (Inr r)
    obtain b p' es where r: "r = (b, p', es)" by (cases r)
    show ?thesis
    proof (cases b)
      case True
      then have "feed_loop (p'\<lparr>mp_discarded := k\<rparr>) = rbind (feed_loop p') (\<lambda>(p', es). Inr (p'\<lparr>mp_discarded := k\<rparr>, es))"
        using 1(1) Inr r past_preamble 1(2) by blast
      then show ?thesis using Inr r True step_discarded [OF 1(2), of k]
        by (cases "feed_loop p'") (auto simp: feed_loop.simps [of p] feed_loop.simps [of "p\<lparr>mp_discarded := k\<rparr>"])
    next
      case False
      then show ?thesis using Inr r step_discarded [OF 1(2), of k]
        by (simp add: feed_loop.simps [of p] feed_loop.simps [of "p\<lparr>mp_discarded := k\<rparr>"])
    qed
  qed
qed

lemma loop_step_cong: "step p = step q \<Longrightarrow> feed_loop p = feed_loop q"
  by (simp add: feed_loop.simps [of p] feed_loop.simps [of q])

lemma loop_past_preamble:
  "mp_state p \<noteq> Preamble \<Longrightarrow> feed_loop p = Inr (p', es) \<Longrightarrow> mp_state p' \<noteq> Preamble"
proof (induction p arbitrary: es rule: feed_loop.induct)
  case (1 p)
  then obtain b q es1 where s: "step p = Inr (b, q, es1)" by (cases "step p") (auto simp: feed_loop.simps [of p])
  note q = past_preamble [OF s 1(2)]
  show ?case
  proof (cases b)
    case True
    then obtain es2 where "feed_loop q = Inr (p', es2)" using 1(3) s by (auto simp: feed_loop.simps [of p])
    then show ?thesis using 1(1) [OF s refl refl True q] by blast
  next
    case False
    then show ?thesis using 1(3) s q by (simp add: feed_loop.simps [of p])
  qed
qed

definition same_but_discarded :: "multipart_parser \<Rightarrow> multipart_parser \<Rightarrow> bool" where
  "same_but_discarded p q \<longleftrightarrow> p\<lparr>mp_discarded := 0\<rparr> = q\<lparr>mp_discarded := 0\<rparr> \<and> (mp_state q = Preamble \<longrightarrow> p = q)"

lemma same_but_discarded_state: "same_but_discarded p q \<Longrightarrow> mp_state p = mp_state q"
proof -
  assume "same_but_discarded p q"
  then have eq: "p\<lparr>mp_discarded := 0\<rparr> = q\<lparr>mp_discarded := 0\<rparr>" by (simp add: same_but_discarded_def)
  from arg_cong [OF eq, of mp_state] show ?thesis by simp
qed

lemma same_but_discarded_refl [simp]: "same_but_discarded p p"
  by (simp add: same_but_discarded_def)

lemma same_but_discarded_trans:
  assumes "same_but_discarded p q" "same_but_discarded q r"
  shows "same_but_discarded p r"
  using assms same_but_discarded_state [OF assms(2)] unfolding same_but_discarded_def by metis

section \<open>Where a feed stops\<close>

text \<open>Content handed on in two pieces is content handed on in one.\<close>

lemma emit_Nil [simp]: "emit [] p = Inr (p, [])"
  by (simp add: emit_def)

lemma emit_twice:
  assumes "emit x p = Inr (p1, e1)" "emit y p1 = Inr (p2, e2)"
  shows "\<exists>e. emit (x @ y) p = Inr (p2, e) \<and> joined (e @ es) = joined (e1 @ e2 @ es)"
proof (cases "x = [] \<or> y = []")
  case True
  then show ?thesis using assms by (elim disjE) simp_all
next
  case False
  then have "e1 = [PartData x]" "e2 = [PartData y]" using assms by (auto simp: emit_def Let_def split: if_splits)
  moreover have "emit (x @ y) p = Inr (p2, [PartData (x @ y)])"
    using assms False by (auto simp: emit_def Let_def add.assoc split: if_splits)
  ultimately show ?thesis using joined_data by simp
qed

definition after_feed :: "multipart_parser \<Rightarrow> multipart_event list \<Rightarrow> (multipart_parser \<times> multipart_event list) res \<Rightarrow> bool" where
  "after_feed p es r \<longleftrightarrow> (\<exists>p' es'. r = Inr (p', es') \<and> same_but_discarded p p' \<and> joined es' = joined es)"

lemma after_feedI: "r = Inr (p', es') \<Longrightarrow> same_but_discarded p p' \<Longrightarrow> joined es' = joined es \<Longrightarrow> after_feed p es r"
  by (auto simp: after_feed_def)

text \<open>Bytes the search has passed do not matter to the steps that follow.\<close>

lemma preamble_stay:
  assumes "mp_state q = Preamble" "find_sub (delimiter (mp_boundary q)) (mp_buf q) = None"
  shows "step q = (let keep = length (delimiter (mp_boundary q)) - 1; n = length (mp_buf q) - keep
      in if length (mp_buf q) > keep
         then if int (mp_discarded q + n) > max_preamble_bytes then Inl (MultipartError ''the multipart body has no first boundary'')
              else Inr (False, q\<lparr>mp_buf := drop n (mp_buf q), mp_discarded := mp_discarded q + n\<rparr>, [])
         else Inr (False, q, []))"
  using assms by (simp add: step_def step_preamble_def Let_def)

lemma stop_preamble:
  assumes stop: "step p = Inr (False, p1, e1)" and state: "mp_state p = Preamble"
    and more: "feed_loop (p1\<lparr>mp_buf := mp_buf p1 @ c\<rparr>) = Inr (p2, e2)"
  shows "after_feed p2 (e1 @ e2) (feed_loop (p\<lparr>mp_buf := mp_buf p @ c\<rparr>))"
proof -
  let ?d = "delimiter (mp_boundary p)" and ?b = "mp_buf p"
  let ?keep = "length ?d - 1"
  define k where "k = length ?b - ?keep"
  have none: "find_sub ?d ?b = None" using stop state by (auto simp: step_def step_preamble_def Let_def split: option.splits)
  have p1: "p1 = p\<lparr>mp_buf := drop k ?b, mp_discarded := mp_discarded p + k\<rparr>" "e1 = []" "k > 0 \<Longrightarrow> int (mp_discarded p + k) \<le> max_preamble_bytes"
    using stop state none by (auto simp: step_def step_preamble_def Let_def k_def split: if_splits)
  show ?thesis
  proof (cases "k = 0")
    case True
    then show ?thesis using p1 more by (intro after_feedI) auto
  next
    case False
    have held: "find_sub ?d (?b @ c) = map_option ((+) k) (find_sub ?d (drop k ?b @ c))"
      by (rule find_held [OF none]) (simp_all add: k_def)
    have len: "length (drop k ?b) = ?keep" "k \<le> length ?b" using False by (simp_all add: k_def)
    let ?p1c = "p1\<lparr>mp_buf := mp_buf p1 @ c\<rparr>" and ?pc = "p\<lparr>mp_buf := ?b @ c\<rparr>"
    show ?thesis
    proof (cases "find_sub ?d (drop k ?b @ c)")
      case (Some i)
      let ?rest = "drop (i + length ?d) (drop k ?b @ c)"
      define q where "q = p\<lparr>mp_buf := ?rest, mp_state := AfterDelimiter\<rparr>"
      have "drop (k + i + length ?d) (?b @ c) = ?rest" using len(2) by (simp add: drop_drop [symmetric] add.assoc add.commute [of k] del: drop_drop)
      then have "step ?pc = Inr (True, q, [])" using state held Some by (simp add: step_def step_preamble_def q_def Let_def)
      moreover have "step ?p1c = Inr (True, q\<lparr>mp_discarded := mp_discarded p + k\<rparr>, [])"
        using state Some p1 by (simp add: step_def step_preamble_def q_def Let_def)
      moreover have "mp_state q \<noteq> Preamble" by (simp add: q_def)
      ultimately show ?thesis using more loop_discarded [of q "mp_discarded p + k"] loop_past_preamble [of q] p1(2)
        by (cases "feed_loop q") (auto simp: feed_loop.simps [of ?pc] feed_loop.simps [of ?p1c] after_feed_def same_but_discarded_def)
    next
      case None
      have bufs: "mp_buf ?p1c = drop k ?b @ c" "mp_discarded ?p1c = mp_discarded p + k" using p1(1) by simp_all
      have lens: "length (drop k ?b @ c) = ?keep + length c" "length (?b @ c) = k + ?keep + length c" using len by simp_all
      have s1: "step ?p1c = (if length c > 0
          then if int (mp_discarded p + k + length c) > max_preamble_bytes
               then Inl (MultipartError ''the multipart body has no first boundary'')
               else Inr (False, ?p1c\<lparr>mp_buf := drop (length c) (drop k ?b @ c), mp_discarded := mp_discarded p + k + length c\<rparr>, [])
          else Inr (False, ?p1c, []))"
        using preamble_stay [of ?p1c] state None p1(1) unfolding bufs lens by (simp add: Let_def)
      have s2: "step ?pc = (if int (mp_discarded p + k + length c) > max_preamble_bytes
               then Inl (MultipartError ''the multipart body has no first boundary'')
               else Inr (False, ?pc\<lparr>mp_buf := drop (k + length c) (?b @ c), mp_discarded := mp_discarded p + k + length c\<rparr>, []))"
        using preamble_stay [of ?pc] state None held lens(2) False by (simp add: Let_def add.assoc add.commute add.left_commute)
      have "drop (k + length c) (?b @ c) = drop (length c) (drop k ?b @ c)" using len(2) by (simp add: add.commute)
      then have "step ?pc = step ?p1c" unfolding s1 s2 using p1(1,3) False by (cases "c = []") simp_all
      then have "feed_loop ?pc = Inr (p2, e2)" using more loop_step_cong by metis
      then show ?thesis using p1(2) by (simp add: after_feed_def)
    qed
  qed
qed

lemma held_bytes:
  assumes "k \<le> length b"
  shows "take (k + n) (b @ c) = take k b @ take n (drop k b @ c)" "drop (k + n) (b @ c) = drop n (drop k b @ c)"
proof -
  have b: "b @ c = take k b @ (drop k b @ c)" by (simp flip: append_assoc)
  show "take (k + n) (b @ c) = take k b @ take n (drop k b @ c)" unfolding b by (simp add: min_absorb2 assms)
  show "drop (k + n) (b @ c) = drop n (drop k b @ c)" unfolding b by (simp add: min_absorb2 assms)
qed

lemma stop_content:
  assumes stop: "step p = Inr (False, p1, e1)" and state: "mp_state p = Content"
    and more: "feed_loop (p1\<lparr>mp_buf := mp_buf p1 @ c\<rparr>) = Inr (p2, e2)"
  shows "after_feed p2 (e1 @ e2) (feed_loop (p\<lparr>mp_buf := mp_buf p @ c\<rparr>))"
proof -
  let ?d = "delimiter (mp_boundary p)" and ?b = "mp_buf p"
  let ?keep = "length ?d - 1"
  define k where "k = length ?b - ?keep"
  have none: "find_sub ?d ?b = None" using stop state by (auto simp: step_def step_content_def Let_def split: option.splits)
  obtain q where q: "emit (take k ?b) p = Inr (q, e1)" "p1 = q\<lparr>mp_buf := drop k ?b\<rparr>"
    using stop state none by (auto simp: step_def step_content_def Let_def k_def)
  have qp: "q = p\<lparr>mp_part_bytes := mp_part_bytes p + length (take k ?b)\<rparr>" by (rule emit_keeps [OF q(1)])
  let ?p1c = "p1\<lparr>mp_buf := mp_buf p1 @ c\<rparr>" and ?pc = "p\<lparr>mp_buf := ?b @ c\<rparr>"
  have p1c: "?p1c = q\<lparr>mp_buf := drop k ?b @ c\<rparr>" using q(2) by simp
  have held: "find_sub ?d (?b @ c) = map_option ((+) k) (find_sub ?d (drop k ?b @ c))"
    by (rule find_held [OF none]) (simp_all add: k_def)
  have k: "k \<le> length ?b" by (simp add: k_def)
  have fields: "mp_state ?p1c = Content" "mp_boundary ?p1c = mp_boundary p" "mp_buf ?p1c = drop k ?b @ c" using qp q(2) state by simp_all
  show ?thesis
  proof (cases "find_sub ?d (drop k ?b @ c)")
    case (Some i)
    then have le: "i \<le> length (drop k ?b @ c)" using found_within(1) by blast
    let ?rest = "drop (i + length ?d) (drop k ?b @ c)"
    have s1: "step ?p1c = rbind (emit (take i (drop k ?b @ c)) ?p1c) (\<lambda>(p', es). Inr (True, p'\<lparr>mp_buf := ?rest, mp_state := AfterDelimiter\<rparr>, es @ [PartEnd]))"
      unfolding step_def step_content_def fields Let_def by (simp add: Some)
    have bufs: "take (k + i) (?b @ c) = take k ?b @ take i (drop k ?b @ c)" "drop (k + i + length ?d) (?b @ c) = ?rest"
      using held_bytes [OF k] by (simp_all add: add.assoc)
    have s2: "step ?pc = rbind (emit (take k ?b @ take i (drop k ?b @ c)) ?pc) (\<lambda>(p', es). Inr (True, p'\<lparr>mp_buf := ?rest, mp_state := AfterDelimiter\<rparr>, es @ [PartEnd]))"
      using state held Some by (simp add: step_def step_content_def Let_def bufs del: take_append drop_append drop_drop)
    from more obtain q2 e2' where e2: "emit (take i (drop k ?b @ c)) q = Inr (q2, e2')"
      unfolding feed_loop.simps [of ?p1c] s1 unfolding p1c emit_buf by (cases "emit (take i (drop k ?b @ c)) q") auto
    obtain e where e: "emit (take k ?b @ take i (drop k ?b @ c)) p = Inr (q2, e)" "\<And>es. joined (e @ es) = joined (e1 @ e2' @ es)"
      using emit_twice [OF q(1) e2] by (metis Pair_inject sum.inject(2))
    let ?r = "q2\<lparr>mp_buf := ?rest, mp_state := AfterDelimiter\<rparr>"
    have "step ?p1c = Inr (True, ?r, e2' @ [PartEnd])" unfolding s1 unfolding p1c emit_buf using e2 by simp
    moreover have "step ?pc = Inr (True, ?r, e @ [PartEnd])" unfolding s2 emit_buf using e(1) by simp
    ultimately show ?thesis using more e(2)
      unfolding feed_loop.simps [of ?p1c] feed_loop.simps [of ?pc] by (cases "feed_loop ?r") (auto simp: after_feed_def)
  next
    case None
    define m where "m = length (drop k ?b @ c) - ?keep"
    have s1: "step ?p1c = rbind (emit (take m (drop k ?b @ c)) ?p1c) (\<lambda>(p', es). Inr (False, p'\<lparr>mp_buf := drop m (drop k ?b @ c)\<rparr>, es))"
      unfolding step_def step_content_def fields Let_def by (simp add: None m_def)
    have len: "length (?b @ c) - ?keep = k + m" by (auto simp: k_def m_def)
    have bufs: "take (k + m) (?b @ c) = take k ?b @ take m (drop k ?b @ c)" "drop (k + m) (?b @ c) = drop m (drop k ?b @ c)"
      by (rule held_bytes [OF k])+
    have s2: "step ?pc = rbind (emit (take k ?b @ take m (drop k ?b @ c)) ?pc) (\<lambda>(p', es). Inr (False, p'\<lparr>mp_buf := drop m (drop k ?b @ c)\<rparr>, es))"
      using state held None len by (simp add: step_def step_content_def Let_def bufs del: take_append drop_append drop_drop length_append)
    from more obtain q2 where e2: "emit (take m (drop k ?b @ c)) q = Inr (q2, e2)" "p2 = q2\<lparr>mp_buf := drop m (drop k ?b @ c)\<rparr>"
      unfolding feed_loop.simps [of ?p1c] s1 unfolding p1c emit_buf by (cases "emit (take m (drop k ?b @ c)) q") auto
    obtain e where e: "emit (take k ?b @ take m (drop k ?b @ c)) p = Inr (q2, e)" "joined (e @ []) = joined (e1 @ e2 @ [])"
      using emit_twice [OF q(1) e2(1)] by blast
    have "step ?pc = Inr (False, p2, e)" unfolding s2 emit_buf using e(1) e2(2) by simp
    then show ?thesis using e(2) by (simp add: feed_loop.simps [of ?pc] after_feed_def)
  qed
qed

text \<open>Where a feed stops without progress, the rest of the body goes on as if it had come at once.\<close>

lemma stop_more:
  assumes stop: "step p = Inr (False, p1, e1)" "mp_state p \<noteq> Epilogue" and more: "feed c p1 = Inr (p2, e2)"
  shows "after_feed p2 (e1 @ e2) (feed_loop (p\<lparr>mp_buf := mp_buf p @ c\<rparr>))"
proof (cases "p1 = p \<and> e1 = []")
  case True
  then have "feed_loop (p\<lparr>mp_buf := mp_buf p @ c\<rparr>) = Inr (p2, e2)" using more stop(2) by (simp add: feed_def)
  then show ?thesis using True by (simp add: after_feed_def)
next
  case False
  show ?thesis
  proof (cases "mp_state p")
    case Preamble
    then have "mp_state p1 = Preamble" using stop(1) by (auto simp: step_def step_preamble_def Let_def split: option.splits if_splits)
    then show ?thesis using stop_preamble [OF stop(1) Preamble] more by (simp add: feed_def)
  next
    case AfterDelimiter
    then have dash: "take 2 (mp_buf p) = ''--''" and p1: "p1 = p\<lparr>mp_buf := [], mp_state := Epilogue\<rparr>" "e1 = [FormEnd]"
      using stop(1) False by (auto simp: step_def step_after_delimiter_def Let_def split: option.splits if_splits)
    have "2 \<le> length (mp_buf p)" using arg_cong [OF dash, of length] by simp
    then have "take 2 (mp_buf p @ c) = ''--''" using dash by simp
    then have "step (p\<lparr>mp_buf := mp_buf p @ c\<rparr>) = Inr (False, p1, e1)"
      using AfterDelimiter p1 by (simp add: step_def step_after_delimiter_def Let_def)
    then have "feed_loop (p\<lparr>mp_buf := mp_buf p @ c\<rparr>) = Inr (p1, e1)" by (simp add: feed_loop.simps)
    moreover have "p2 = p1 \<and> e2 = []" using more p1 by (simp add: feed_def)
    ultimately show ?thesis by (simp add: after_feed_def)
  next
    case Headers
    then show ?thesis using stop(1) False
      by (auto simp: step_def step_headers_def start_part_def Let_def split: option.splits if_splits)
  next
    case Content
    then have "mp_state p1 = Content" using stop(1) content_state [of p False p1 e1] by (simp add: step_def)
    then show ?thesis using stop_content [OF stop(1) Content] more by (simp add: feed_def)
  qed (use stop(2) in simp)
qed

lemma loop_split:
  "feed_loop p = Inr (p1, e1) \<Longrightarrow> mp_state p \<noteq> Epilogue \<Longrightarrow> feed c p1 = Inr (p2, e2) \<Longrightarrow>
     after_feed p2 (e1 @ e2) (feed_loop (p\<lparr>mp_buf := mp_buf p @ c\<rparr>))"
proof (induction p arbitrary: e1 rule: feed_loop.induct)
  case (1 p)
  then obtain b q es where s: "step p = Inr (b, q, es)" by (cases "step p") (auto simp: feed_loop.simps [of p])
  show ?case
  proof (cases b)
    case True
    then obtain e1' where e1': "feed_loop q = Inr (p1, e1')" "e1 = es @ e1'" using 1(2) s by (auto simp: feed_loop.simps [of p])
    have q: "mp_state q \<noteq> Epilogue" using progress_state [of p q es] s True by simp
    have "after_feed p2 (e1' @ e2) (feed_loop (q\<lparr>mp_buf := mp_buf q @ c\<rparr>))"
      using 1(1) [OF s refl refl True e1'(1) q 1(4)] .
    then obtain p' es' where p': "feed_loop (q\<lparr>mp_buf := mp_buf q @ c\<rparr>) = Inr (p', es')" "same_but_discarded p2 p'" "joined es' = joined (e1' @ e2)"
      by (auto simp: after_feed_def)
    have "feed_loop (p\<lparr>mp_buf := mp_buf p @ c\<rparr>) = Inr (p', es @ es')"
      using step_more [of p q es c] s True 1(3) p'(1) by (simp add: feed_loop.simps [of "p\<lparr>mp_buf := mp_buf p @ c\<rparr>"])
    then show ?thesis by (rule after_feedI [OF _ p'(2)]) (use joined_cong [OF refl p'(3), of es] e1'(2) in simp)
  next
    case False
    then have "p1 = q" "e1 = es" using 1(2) s by (auto simp: feed_loop.simps [of p])
    then show ?thesis using stop_more [of p q es c p2 e2] s False 1(3,4) by simp
  qed
qed

lemma feed_append:
  assumes "feed c p = Inr (p1, e1)" "feed c' p1 = Inr (p2, e2)"
  shows "after_feed p2 (e1 @ e2) (feed (c @ c') p)"
proof (cases "mp_state p = Epilogue")
  case True
  then show ?thesis using assms by (auto simp: feed_def after_feed_def)
next
  case False
  then show ?thesis using loop_split [of "p\<lparr>mp_buf := mp_buf p @ c\<rparr>" p1 e1 c' p2 e2] assms by (simp add: feed_def)
qed

lemma feed_all_concat:
  "chunks \<noteq> [] \<Longrightarrow> feed_all chunks p = Inr (p', es) \<Longrightarrow> after_feed p' es (feed (concat chunks) p)"
proof (induction chunks arbitrary: p es)
  case (Cons c chunks)
  from Cons.prems(2) obtain p1 e1 es1 where s: "feed c p = Inr (p1, e1)" "feed_all chunks p1 = Inr (p', es1)" "es = e1 @ es1" by auto
  show ?case
  proof (cases "chunks = []")
    case True
    then show ?thesis using s by (simp add: after_feed_def)
  next
    case False
    then obtain p2 es2 where t: "feed (concat chunks) p1 = Inr (p2, es2)" "same_but_discarded p' p2" "joined es2 = joined es1"
      using Cons.IH [OF False s(2)] by (auto simp: after_feed_def)
    obtain p3 es3 where u: "feed (c @ concat chunks) p = Inr (p3, es3)" "same_but_discarded p2 p3" "joined es3 = joined (e1 @ es2)"
      using feed_append [OF s(1) t(1)] by (auto simp: after_feed_def)
    show ?thesis using u(1) same_but_discarded_trans [OF t(2) u(2)] u(3) joined_cong [OF refl t(3), of e1] s(3)
      by (simp add: after_feed_def)
  qed
qed simp

text \<open>
  C35.  Chunk boundaries are invisible.  If the reader accepts a body in the chunks it arrived
  in, it accepts the same body in one piece, with the same events up to where the content of a
  part is cut; so two ways of splitting a body that are both accepted give the same parts.
\<close>

theorem chunks_invisible:
  assumes "read_events boundary chunks = Inr es" "chunks \<noteq> []"
  shows "\<exists>es'. read_events boundary [concat chunks] = Inr es' \<and> joined es' = joined es"
proof -
  obtain p where p: "feed_all chunks (new_parser boundary) = Inr (p, es)" "finish p = Inr ()"
    using assms(1) by (auto simp: read_events_def)
  obtain p' es' where f: "feed (concat chunks) (new_parser boundary) = Inr (p', es')" "same_but_discarded p p'" "joined es' = joined es"
    using feed_all_concat [OF assms(2) p(1)] by (auto simp: after_feed_def)
  have "finish p' = Inr ()" using p(2) same_but_discarded_state [OF f(2)] by (simp add: finish_def split: if_splits)
  then show ?thesis using f by (simp add: read_events_def)
qed

definition sample_body :: bytes where
  "sample_body = ''--B'' @ crlf @ ''Content-Disposition: form-data; name=\"a\"'' @ crlf @ crlf @ ''x'' @ crlf @ ''-y'' @ crlf @ ''--B--''"

definition sample_chunks :: "bytes list" where
  "sample_chunks = [take 53 sample_body, take 1 (drop 53 sample_body), drop 54 sample_body]"

theorem chunks_invisible_witness:
  "read_events ''B'' sample_chunks = Inr [PartStart ''a'' None ''application/octet-stream'',
      PartData ''x'', PartData (crlf @ ''-y''), PartEnd, FormEnd] \<and>
   (\<exists>es'. read_events ''B'' [sample_body] = Inr es' \<and>
      joined es' = [PartStart ''a'' None ''application/octet-stream'', PartData (''x'' @ crlf @ ''-y''), PartEnd, FormEnd])"
proof
  show split: "read_events ''B'' sample_chunks = Inr [PartStart ''a'' None ''application/octet-stream'',
      PartData ''x'', PartData (crlf @ ''-y''), PartEnd, FormEnd]" by code_simp
  have "concat sample_chunks = sample_body" "sample_chunks \<noteq> []" by code_simp+
  then show "\<exists>es'. read_events ''B'' [sample_body] = Inr es' \<and>
      joined es' = [PartStart ''a'' None ''application/octet-stream'', PartData (''x'' @ crlf @ ''-y''), PartEnd, FormEnd]"
    using chunks_invisible [OF split] by simp
qed

section \<open>What the parser holds back\<close>

lemma step_boundary: "step p = Inr (b, p', es) \<Longrightarrow> mp_boundary p' = mp_boundary p"
proof -
  have start: "start_part blob n p = Inr (b, p', es) \<Longrightarrow> mp_boundary p' = mp_boundary p" for blob n b by (auto simp: start_part_def Let_def)
  have content: "step_content p = Inr (b, p', es) \<Longrightarrow> mp_boundary p' = mp_boundary p"
    by (cases "find_sub (delimiter (mp_boundary p)) (mp_buf p)") (auto simp: step_content_def Let_def dest!: emit_keeps)
  assume "step p = Inr (b, p', es)"
  then show ?thesis
    by (cases "mp_state p")
      (auto simp: step_def step_preamble_def step_after_delimiter_def step_headers_def Let_def content
        split: option.splits if_splits dest: start)
qed

definition held_bounded :: "multipart_parser \<Rightarrow> bool" where
  "held_bounded p \<longleftrightarrow> int (length (mp_buf p)) \<le> max (int (length (mp_boundary p)) + 3) max_part_header_bytes"

lemma length_delimiter: "length (delimiter b) = length b + 4"
  by (simp add: delimiter_def)

lemma stop_bounded:
  assumes "step p = Inr (False, p', es)"
  shows "held_bounded p'"
proof -
  have content: "held_bounded p'" if "step_content p = Inr (False, p', es)"
    using that by (cases "find_sub (delimiter (mp_boundary p)) (mp_buf p)")
      (auto simp: step_content_def Let_def held_bounded_def length_delimiter dest!: emit_keeps)
  show ?thesis
  proof (cases "mp_state p")
    case Preamble
    then show ?thesis using assms
      by (auto simp: step_def step_preamble_def held_bounded_def length_delimiter Let_def split: option.splits if_splits)
  next
    case AfterDelimiter
    then show ?thesis using assms
      by (auto simp: step_def step_after_delimiter_def held_bounded_def max_part_header_bytes_def Let_def split: option.splits if_splits)
  next
    case Headers
    then show ?thesis using assms
      by (auto simp: step_def step_headers_def start_part_def held_bounded_def Let_def split: option.splits if_splits)
  qed (use assms content in \<open>simp_all add: step_def\<close>)
qed

lemma loop_bounded: "feed_loop p = Inr (p', es) \<Longrightarrow> held_bounded p' \<and> mp_boundary p' = mp_boundary p"
proof (induction p arbitrary: es rule: feed_loop.induct)
  case (1 p)
  then obtain b q es1 where s: "step p = Inr (b, q, es1)" by (cases "step p") (auto simp: feed_loop.simps [of p])
  note q = step_boundary [OF s]
  show ?case
  proof (cases b)
    case True
    then obtain es2 where "feed_loop q = Inr (p', es2)" using 1(2) s by (auto simp: feed_loop.simps [of p])
    then show ?thesis using 1(1) [OF s refl refl True] q by simp
  next
    case False
    then show ?thesis using 1(2) s q stop_bounded [of p p' es] by (simp add: feed_loop.simps [of p])
  qed
qed

text \<open>
  C36.  Memory is bounded whatever the body and however it is split: between two chunks the
  parser holds at most the bytes of one part header, or the part of a delimiter that may have
  begun.
\<close>

theorem parser_memory_bounded:
  assumes "feed_all chunks (new_parser boundary) = Inr (p, es)"
  shows "int (length (mp_buf p)) \<le> max (int (length boundary) + 3) max_part_header_bytes"
proof -
  have "feed_all chunks q = Inr (p, es) \<Longrightarrow> held_bounded q \<Longrightarrow> held_bounded p \<and> mp_boundary p = mp_boundary q" for q
  proof (induction chunks arbitrary: q es)
    case (Cons c chunks)
    from Cons.prems(1) obtain q1 es1 es2 where s: "feed c q = Inr (q1, es1)" "feed_all chunks q1 = Inr (p, es2)" by auto
    have "held_bounded q1 \<and> mp_boundary q1 = mp_boundary q"
      using s(1) Cons.prems(2) loop_bounded [of "q\<lparr>mp_buf := mp_buf q @ c\<rparr>" q1 es1] by (auto simp: feed_def split: if_splits)
    then show ?case using Cons.IH [OF s(2)] by simp
  qed simp
  moreover have "held_bounded (new_parser boundary)" "mp_boundary (new_parser boundary) = boundary"
    by (simp_all add: held_bounded_def new_parser_def max_part_header_bytes_def max_def)
  ultimately show ?thesis using assms unfolding held_bounded_def by metis
qed

theorem parser_memory_bounded_witness:
  "(case feed_all [take 20 sample_body] (new_parser ''B'') of Inr (p, es) \<Rightarrow> mp_state p = Headers \<and> length (mp_buf p) = 15 | Inl e \<Rightarrow> False) \<and>
   (case feed_all [take 20 sample_body] (new_parser ''B'') of Inr (p, es) \<Rightarrow> int (length (mp_buf p)) \<le> max (int (length ''B'') + 3) max_part_header_bytes | Inl e \<Rightarrow> False)"
proof
  show a: "case feed_all [take 20 sample_body] (new_parser ''B'') of Inr (p, es) \<Rightarrow> mp_state p = Headers \<and> length (mp_buf p) = 15 | Inl e \<Rightarrow> False"
    by code_simp
  then obtain p es where "feed_all [take 20 sample_body] (new_parser ''B'') = Inr (p, es)" by (auto split: sum.splits prod.splits)
  with parser_memory_bounded [OF this]
  show "case feed_all [take 20 sample_body] (new_parser ''B'') of Inr (p, es) \<Rightarrow> int (length (mp_buf p)) \<le> max (int (length ''B'') + 3) max_part_header_bytes | Inl e \<Rightarrow> False"
    by simp
qed

section \<open>Where the chunks do show\<close>

lemma find_sub_skip: "hd sub \<notin> set xs \<Longrightarrow> sub \<noteq> [] \<Longrightarrow> find_sub sub (xs @ ys) = map_option ((+) (length xs)) (find_sub sub ys)"
proof (induction xs)
  case Nil
  then show ?case by (cases "find_sub sub ys") auto
next
  case (Cons x xs)
  then have "take (length sub) (x # xs @ ys) \<noteq> sub" by (cases sub) auto
  then show ?case using Cons by (cases "find_sub sub ys") auto
qed

text \<open>
  A header block of 16,382 bytes is accepted when its blank line arrives with it, and refused as
  too large when the chunk ends inside the blank line.
\<close>

lemma header_limit_depends_on_chunks:
  fixes p :: multipart_parser
  assumes "mp_state p = Headers" "mp_buf p = []"
  defines "h \<equiv> replicate 16382 (CHR ''a'')"
  shows "feed (h @ [CHR 0x0D, CHR 0x0A, CHR 0x0D]) p = Inl (MultipartError ''a multipart part header is too large'')"
    and "step (p\<lparr>mp_buf := h @ crlf @ crlf\<rparr>) = start_part h 16386 (p\<lparr>mp_buf := h @ crlf @ crlf\<rparr>)"
proof -
  have len: "length h = 16382" by (simp add: h_def)
  have a: "CHR 0x0D \<notin> set h" by (simp add: h_def)
  have start: "\<not> starts_with crlf (h @ ys)" for ys
  proof
    assume "starts_with crlf (h @ ys)"
    then have "take 2 h = crlf" using len by (simp add: starts_with_def)
    then show False using a in_set_takeD [of "CHR 0x0D" 2 h] by (simp add: crlf_def)
  qed
  have none: "find_sub (crlf @ crlf) (h @ [CHR 0x0D, CHR 0x0A, CHR 0x0D]) = None"
    using find_sub_skip [of "crlf @ crlf" h] a by (simp add: crlf_def)
  have some: "find_sub (crlf @ crlf) (h @ crlf @ crlf) = Some 16382"
    using find_sub_skip [of "crlf @ crlf" h] a len by (simp add: crlf_def)
  show "feed (h @ [CHR 0x0D, CHR 0x0A, CHR 0x0D]) p = Inl (MultipartError ''a multipart part header is too large'')"
    using assms(1,2) start [of "[CHR 0x0D, CHR 0x0A, CHR 0x0D]"] none len
    by (simp add: feed_def feed_loop.simps step_def step_headers_def max_part_header_bytes_def Let_def)
  show "step (p\<lparr>mp_buf := h @ crlf @ crlf\<rparr>) = start_part h 16386 (p\<lparr>mp_buf := h @ crlf @ crlf\<rparr>)"
    using assms(1) start [of "crlf @ crlf"] some len by (simp add: step_def step_headers_def max_part_header_bytes_def Let_def)
qed

end
