(* ===== verification/Multipart_Form.thy ===== *)
theory Multipart_Form
  imports Multipart_Chunks
begin

text \<open>
  The readers of upload forms over the parser (\<open>web/multipart.py\<close>): the form read from a body in
  memory, the streamed form whose files go to a spool directory as they arrive, and the token
  that must lead a streamed form (\<open>web/middleware.py\<close>).  Text fields are decoded by an argument,
  which stands for \<open>bytes.decode\<close> with replacement of what is not UTF-8.
\<close>

section \<open>Forms\<close>

record file_part =
  up_name :: string
  up_filename :: string
  up_content_type :: string
  up_data :: bytes
  up_path :: "string option"
  up_size :: nat

record 't multipart_form =
  mf_fields :: "(string \<times> 't) list"
  mf_files :: "file_part list"

definition read_segment :: "(bytes \<Rightarrow> 't) \<Rightarrow> bytes \<Rightarrow> 't multipart_form \<Rightarrow> 't multipart_form" where
  "read_segment decode segment form =
     (if segment = [] \<or> segment = ''--'' @ crlf \<or> segment = ''--'' \<or> segment = crlf then form
      else
        (let body = (if starts_with crlf segment then drop 2 segment else segment);
             (blob, sep, rest) = py_partition (crlf @ crlf) body
         in if sep = [] then form
            else
              (let headers = part_headers blob;
                   disposition = header_or headers ''content-disposition'' [];
                   name = disposition_param disposition ''name'';
                   content = (if drop (length rest - 2) rest = crlf then take (length rest - 2) rest else rest)
               in if name = None \<or> name = Some [] then form
                  else (case disposition_param disposition ''filename'' of
                      None \<Rightarrow> form\<lparr>mf_fields := dict_set (mf_fields form) (the name) (decode content)\<rparr>
                    | Some filename \<Rightarrow>
                        if filename = [] \<or> content = [] then form
                        else form\<lparr>mf_files := mf_files form @
                               [\<lparr>up_name = the name, up_filename = filename,
                                 up_content_type = header_or headers ''content-type'' ''application/octet-stream'',
                                 up_data = content, up_path = None, up_size = 0\<rparr>]\<rparr>))))"

definition parse_multipart :: "(bytes \<Rightarrow> 't) \<Rightarrow> bytes \<Rightarrow> string \<Rightarrow> 't multipart_form" where
  "parse_multipart decode body content_type =
     (case multipart_boundary content_type of
        None \<Rightarrow> \<lparr>mf_fields = [], mf_files = []\<rparr>
      | Some boundary \<Rightarrow> fold (read_segment decode) (split_sub (''--'' @ boundary) body) \<lparr>mf_fields = [], mf_files = []\<rparr>)"

section \<open>Limited reads\<close>

fun read_chunks :: "int \<Rightarrow> bytes list \<Rightarrow> bytes \<Rightarrow> bytes res" where
  "read_chunks limit [] so_far = Inr so_far"
| "read_chunks limit (chunk # chunks) so_far =
     (if int (length so_far + length chunk) > limit then Inl BodyTooLargeError
      else read_chunks limit chunks (so_far @ chunk))"

text \<open>The body with the cache on the request (\<open>limited_body\<close>) as the read leaves it.\<close>

definition read_body_limited :: "bytes option \<Rightarrow> int \<Rightarrow> bytes list \<Rightarrow> (bytes \<times> bytes option) res" where
  "read_body_limited cached limit chunks =
     (case cached of
        Some body \<Rightarrow> Inr (body, cached)
      | None \<Rightarrow> rbind (read_chunks limit chunks []) (\<lambda>data. Inr (data, Some data)))"

definition report_form_overhead_bytes :: int where "report_form_overhead_bytes = 256 * 1024"

definition report_body_limit :: "int \<Rightarrow> int" where
  "report_body_limit max_upload_bytes = max_upload_bytes + report_form_overhead_bytes"

section \<open>The spool\<close>

definition spool_write_bytes :: int where "spool_write_bytes = 1024 * 1024"

text \<open>
  A file being spooled: \<open>sf_open\<close> while its handle is open, \<open>sf_created\<close> once the file exists and
  \<open>sf_written\<close> what has reached the disk.
\<close>

record spool_file =
  sf_path :: string
  sf_size :: nat
  sf_open :: bool
  sf_created :: bool
  sf_pending :: "bytes list"
  sf_pending_bytes :: nat
  sf_written :: bytes

definition new_spool :: "string \<Rightarrow> spool_file" where
  "new_spool path = \<lparr>sf_path = path, sf_size = 0, sf_open = False, sf_created = False, sf_pending = [], sf_pending_bytes = 0, sf_written = []\<rparr>"

text \<open>The free space the disk reports for the \<open>k\<close>-th batch of a request is \<open>free k\<close>.\<close>

definition flush_spool :: "(nat \<Rightarrow> int) \<Rightarrow> int \<Rightarrow> nat \<times> spool_file \<Rightarrow> (nat \<times> spool_file) res" where
  "flush_spool free floor_bytes ks =
     (let (k, f) = ks
      in if \<not> sf_open f \<or> sf_pending f = [] then Inr (k, f)
         else (let blob = concat (sf_pending f)
               in if floor_bytes \<noteq> 0 \<and> free k - int (length blob) < floor_bytes then Inl InsufficientSpoolSpaceError
                  else Inr (Suc k, f\<lparr>sf_pending := [], sf_pending_bytes := 0, sf_written := sf_written f @ blob\<rparr>)))"

text \<open>\<open>taken\<close> are the names already in the directory: the exclusive create refuses them.\<close>

definition open_spool :: "string list \<Rightarrow> spool_file \<Rightarrow> spool_file res" where
  "open_spool taken f =
     (if sf_path f \<in> set taken then Inl (FileExistsError (sf_path f)) else Inr (f\<lparr>sf_open := True, sf_created := True\<rparr>))"

definition write_spool ::
  "string list \<Rightarrow> (nat \<Rightarrow> int) \<Rightarrow> int \<Rightarrow> int \<Rightarrow> bytes \<Rightarrow> nat \<times> spool_file \<Rightarrow> (nat \<times> spool_file) res" where
  "write_spool taken free floor_bytes limit data ks =
     (let (k, f0) = ks
      in if int (sf_size f0 + length data) > limit then Inl BodyTooLargeError
         else rbind (if sf_open f0 then Inr f0 else open_spool taken f0) (\<lambda>f.
               let f' = f\<lparr>sf_size := sf_size f + length data, sf_pending := sf_pending f @ [data],
                          sf_pending_bytes := sf_pending_bytes f + length data\<rparr>
               in if int (sf_pending_bytes f') \<ge> spool_write_bytes then flush_spool free floor_bytes (k, f') else Inr (k, f')))"

definition close_spool :: "(nat \<Rightarrow> int) \<Rightarrow> int \<Rightarrow> nat \<times> spool_file \<Rightarrow> (nat \<times> spool_file) res" where
  "close_spool free floor_bytes ks =
     rbind (flush_spool free floor_bytes ks) (\<lambda>(k, f). Inr (k, f\<lparr>sf_open := False\<rparr>))"

fun stream_body_loop :: "string list \<Rightarrow> (nat \<Rightarrow> int) \<Rightarrow> int \<Rightarrow> int \<Rightarrow> bytes list \<Rightarrow> nat \<times> spool_file \<Rightarrow> (nat \<times> spool_file) res" where
  "stream_body_loop taken free floor_bytes limit [] ks = close_spool free floor_bytes ks"
| "stream_body_loop taken free floor_bytes limit (chunk # chunks) ks =
     rbind (write_spool taken free floor_bytes limit chunk ks) (stream_body_loop taken free floor_bytes limit chunks)"

text \<open>The count, and the content of the file, if it was created.\<close>

definition stream_body_to_file ::
  "string list \<Rightarrow> (nat \<Rightarrow> int) \<Rightarrow> int \<Rightarrow> int \<Rightarrow> string \<Rightarrow> bytes list \<Rightarrow> (nat \<times> bytes option) res" where
  "stream_body_to_file taken free floor_bytes limit path chunks =
     rbind (stream_body_loop taken free floor_bytes limit chunks (0, new_spool path)) (\<lambda>(k, f). Inr (sf_size f, if sf_created f then Some (sf_written f) else None))"

section \<open>The streamed form\<close>

definition max_extra_parts :: nat where "max_extra_parts = 32"
definition max_text_total_bytes :: int where "max_text_total_bytes = 64 * 1024"

record stream_limits =
  sl_file_field :: string
  sl_text_fields :: "string list"
  sl_max_file_bytes :: int
  sl_max_total_bytes :: int
  sl_max_files :: nat
  sl_low_watermark_bytes :: int

text \<open>
  The locals of \<open>stream_multipart\<close>, with the number of batches written so far and the spool
  directory (its finished files, by name).  The chunks are what the request's stream yields; a
  client that goes away ends the request and is no case of the model.
\<close>

record 't reader =
  rd_form :: "'t multipart_form"
  rd_name :: string
  rd_filename :: "string option"
  rd_content_type :: string
  rd_text :: bytes
  rd_keep_text :: bool
  rd_extra_parts :: nat
  rd_file_parts :: nat
  rd_text_total :: nat
  rd_spool :: "spool_file option"
  rd_batches :: nat
  rd_disk :: "(string \<times> bytes) list"

definition new_reader :: "'t reader" where
  "new_reader = \<lparr>rd_form = \<lparr>mf_fields = [], mf_files = []\<rparr>, rd_name = [], rd_filename = None, rd_content_type = [],
     rd_text = [], rd_keep_text = False, rd_extra_parts = 0, rd_file_parts = 0, rd_text_total = 0, rd_spool = None,
     rd_batches = 0, rd_disk = []\<rparr>"

definition is_upload :: "stream_limits \<Rightarrow> string \<Rightarrow> string option \<Rightarrow> bool" where
  "is_upload cfg name filename \<longleftrightarrow> filename \<noteq> None \<and> filename \<noteq> Some [] \<and> name = sl_file_field cfg"

text \<open>The \<open>n\<close>-th file of a request is named \<open>uuid n\<close>.\<close>

definition on_start :: "(nat \<Rightarrow> string) \<Rightarrow> stream_limits \<Rightarrow> string \<Rightarrow> string option \<Rightarrow> string \<Rightarrow> 't reader \<Rightarrow> 't reader res" where
  "on_start uuid cfg name filename content_type rd =
     (let rd1 = rd\<lparr>rd_name := name, rd_filename := filename, rd_content_type := content_type, rd_text := [], rd_spool := None,
                   rd_keep_text := filename = None \<and> name \<in> set (sl_text_fields cfg)\<rparr>
      in if is_upload cfg name filename
         then (let n = Suc (rd_file_parts rd)
               in if n > sl_max_files cfg then Inl TooManyFilesError
                  else Inr (rd1\<lparr>rd_file_parts := n, rd_spool := Some (new_spool (uuid n))\<rparr>))
         else (let n = Suc (rd_extra_parts rd)
               in if n > max_extra_parts then Inl (MultipartError ''the multipart body has too many parts'')
                  else Inr (rd1\<lparr>rd_extra_parts := n\<rparr>)))"

definition on_data :: "(nat \<Rightarrow> int) \<Rightarrow> stream_limits \<Rightarrow> bytes \<Rightarrow> 't reader \<Rightarrow> 't reader res" where
  "on_data free cfg data rd =
     (case rd_spool rd of
        Some f \<Rightarrow>
          rbind (write_spool (map fst (rd_disk rd)) free (sl_low_watermark_bytes cfg) (sl_max_file_bytes cfg) data (rd_batches rd, f)) (\<lambda>(k, f').
            Inr (rd\<lparr>rd_batches := k, rd_spool := Some f'\<rparr>))
      | None \<Rightarrow>
          if rd_keep_text rd
          then (let n = rd_text_total rd + length data
                in if int n > max_text_total_bytes then Inl (MultipartError ''the multipart text fields are too large'')
                   else Inr (rd\<lparr>rd_text_total := n, rd_text := rd_text rd @ data\<rparr>))
          else Inr rd)"

definition on_end :: "(bytes \<Rightarrow> 't) \<Rightarrow> (nat \<Rightarrow> int) \<Rightarrow> stream_limits \<Rightarrow> 't reader \<Rightarrow> 't reader res" where
  "on_end decode free cfg rd =
     rbind (case rd_spool rd of
        Some f \<Rightarrow>
          rbind (close_spool free (sl_low_watermark_bytes cfg) (rd_batches rd, f)) (\<lambda>(k, f').
            let rd1 = rd\<lparr>rd_batches := k, rd_spool := None,
                         rd_disk := (if sf_created f' then rd_disk rd @ [(sf_path f', sf_written f')] else rd_disk rd)\<rparr>
            in Inr (if sf_size f' \<noteq> 0
                    then rd1\<lparr>rd_form := (rd_form rd)\<lparr>mf_files := mf_files (rd_form rd) @
                           [\<lparr>up_name = rd_name rd, up_filename = (case rd_filename rd of None \<Rightarrow> [] | Some s \<Rightarrow> s),
                             up_content_type = rd_content_type rd, up_data = [], up_path = Some (sf_path f'), up_size = sf_size f'\<rparr>]\<rparr>\<rparr>
                    else rd1))
      | None \<Rightarrow>
          Inr (if rd_keep_text rd
               then rd\<lparr>rd_form := (rd_form rd)\<lparr>mf_fields := dict_set (mf_fields (rd_form rd)) (rd_name rd) (decode (rd_text rd))\<rparr>\<rparr>
               else rd))
       (\<lambda>rd'. Inr (rd'\<lparr>rd_name := [], rd_filename := None\<rparr>))"

fun on_event :: "(bytes \<Rightarrow> 't) \<Rightarrow> (nat \<Rightarrow> string) \<Rightarrow> (nat \<Rightarrow> int) \<Rightarrow> stream_limits \<Rightarrow> multipart_event \<Rightarrow> 't reader \<Rightarrow> 't reader res" where
  "on_event decode uuid free cfg (PartStart name filename content_type) rd = on_start uuid cfg name filename content_type rd"
| "on_event decode uuid free cfg (PartData data) rd = on_data free cfg data rd"
| "on_event decode uuid free cfg PartEnd rd = on_end decode free cfg rd"
| "on_event decode uuid free cfg FormEnd rd = Inr rd"

fun on_events :: "(bytes \<Rightarrow> 't) \<Rightarrow> (nat \<Rightarrow> string) \<Rightarrow> (nat \<Rightarrow> int) \<Rightarrow> stream_limits \<Rightarrow> multipart_event list \<Rightarrow> 't reader \<Rightarrow> 't reader res" where
  "on_events decode uuid free cfg [] rd = Inr rd"
| "on_events decode uuid free cfg (e # es) rd = rbind (on_event decode uuid free cfg e rd) (on_events decode uuid free cfg es)"

fun stream_loop ::
  "(bytes \<Rightarrow> 't) \<Rightarrow> (nat \<Rightarrow> string) \<Rightarrow> (nat \<Rightarrow> int) \<Rightarrow> stream_limits \<Rightarrow> bytes list \<Rightarrow> nat \<Rightarrow> multipart_parser \<Rightarrow> 't reader \<Rightarrow> 't reader res" where
  "stream_loop decode uuid free cfg [] n p rd = rbind (finish p) (\<lambda>_. Inr rd)"
| "stream_loop decode uuid free cfg (chunk # chunks) n p rd =
     (let n' = n + length chunk
      in if int n' > sl_max_total_bytes cfg then Inl BodyTooLargeError
         else rbind (feed chunk p) (\<lambda>(p', es). rbind (on_events decode uuid free cfg es rd) (stream_loop decode uuid free cfg chunks n' p')))"

definition stream_multipart ::
  "(bytes \<Rightarrow> 't) \<Rightarrow> (nat \<Rightarrow> string) \<Rightarrow> (nat \<Rightarrow> int) \<Rightarrow> stream_limits \<Rightarrow> string \<Rightarrow> bytes list \<Rightarrow> 't reader res" where
  "stream_multipart decode uuid free cfg content_type chunks =
     (case multipart_boundary content_type of
        None \<Rightarrow> Inl (MultipartError ''the request is not multipart/form-data with a boundary'')
      | Some boundary \<Rightarrow> stream_loop decode uuid free cfg chunks 0 (new_parser boundary) new_reader)"

section \<open>The token that leads a streamed form\<close>

definition csrf_form_field :: string where "csrf_form_field = ''csrf_token''"

text \<open>
  A message of the request body: its bytes and whether more follows, or the client has gone.  Where
  no message is left the middleware waits, so no token is presented.
\<close>

datatype message = Body bytes bool | Disconnect

text \<open>The slice \<open>value[:n]\<close>.\<close>

fun slice_to :: "int \<Rightarrow> bytes \<Rightarrow> bytes" where
  "slice_to n [] = []"
| "slice_to n (b # bs) = (if n \<le> 0 then [] else b # slice_to (n - 1) bs)"

datatype 't token_scan = More bool bytes | Verdict "'t option"

fun scan_event :: "(bytes \<Rightarrow> 't) \<Rightarrow> multipart_event \<Rightarrow> 't token_scan \<Rightarrow> 't token_scan" where
  "scan_event decode e (Verdict v) = Verdict v"
| "scan_event decode (PartStart name filename content_type) (More started v) =
     (if started \<or> name \<noteq> csrf_form_field \<or> filename \<noteq> None then Verdict None else More True v)"
| "scan_event decode (PartData data) (More started v) = More started (v @ data)"
| "scan_event decode PartEnd (More started v) = Verdict (Some (decode (slice_to max_field_bytes v)))"
| "scan_event decode FormEnd (More started v) = Verdict None"

fun first_part_loop :: "(bytes \<Rightarrow> 't) \<Rightarrow> message list \<Rightarrow> multipart_parser \<Rightarrow> bool \<Rightarrow> bytes \<Rightarrow> 't option" where
  "first_part_loop decode [] p started v = None"
| "first_part_loop decode (Disconnect # messages) p started v = None"
| "first_part_loop decode (Body chunk more_body # messages) p started v =
     (case feed chunk p of
        Inl e \<Rightarrow> None
      | Inr (p', es) \<Rightarrow>
          (case fold (scan_event decode) es (More started v) of
             Verdict r \<Rightarrow> r
           | More started' v' \<Rightarrow> if more_body then first_part_loop decode messages p' started' v' else None))"

definition streamed_first_part_token :: "(bytes \<Rightarrow> 't) \<Rightarrow> string \<Rightarrow> message list \<Rightarrow> 't option" where
  "streamed_first_part_token decode content_type messages =
     (case multipart_boundary content_type of
        None \<Rightarrow> None
      | Some boundary \<Rightarrow> first_part_loop decode messages (new_parser boundary) False [])"

end
