(* ===== verification/Form_Stream.thy ===== *)
theory Form_Stream
  imports Multipart_Form
begin

text \<open>
  The streamed upload form against a plain description of it: the parts of a body put together
  from the events of the parser, which of them are uploads and which are text that is kept, and the
  limits on them.  The reader succeeds exactly within the limits, and then the form and the spool
  directory are what the parts say, however the body was cut into chunks.
\<close>

section \<open>Parts\<close>

type_synonym part = "string \<times> string option \<times> string \<times> bytes"

abbreviation content :: "part \<Rightarrow> bytes" where "content p \<equiv> snd (snd (snd p))"

fun assemble :: "multipart_event \<Rightarrow> part option \<times> part list \<Rightarrow> part option \<times> part list" where
  "assemble (PartStart n f t) (cur, ps) = (Some (n, f, t, []), ps)"
| "assemble (PartData d) (cur, ps) = (map_option (\<lambda>(n, f, t, c). (n, f, t, c @ d)) cur, ps)"
| "assemble PartEnd (cur, ps) = (None, case cur of None \<Rightarrow> ps | Some p \<Rightarrow> ps @ [p])"
| "assemble FormEnd s = s"

definition parts_of :: "multipart_event list \<Rightarrow> part list" where
  "parts_of es = snd (fold assemble es (None, []))"

lemma assemble_data: "assemble (PartData b) (assemble (PartData a) s) = assemble (PartData (a @ b)) s"
  by (cases s) (auto simp: option.map_comp comp_def split_def)

lemma fold_assemble_joined: "fold assemble (joined es) s = fold assemble es s"
proof (induction es arbitrary: s rule: joined.induct)
  case (2 a es)
  show ?case
  proof (cases "\<exists>b es'. joined es = PartData b # es'")
    case True
    then obtain b es' where j: "joined es = PartData b # es'" by blast
    have "fold assemble es (assemble (PartData a) s) = fold assemble (PartData b # es') (assemble (PartData a) s)"
      using 2 [of "assemble (PartData a) s"] j by simp
    then show ?thesis using j by (simp add: assemble_data)
  next
    case False
    then have "joined (PartData a # es) = PartData a # joined es" by (auto split: list.splits multipart_event.splits)
    then show ?thesis using 2 by simp
  qed
qed simp_all

lemma parts_of_joined: "joined es = joined es' \<Longrightarrow> parts_of es = parts_of es'"
  unfolding parts_of_def using fold_assemble_joined [of es] fold_assemble_joined [of es'] by simp

text \<open>Content only inside a part, and never empty: the order in which the parser emits events.\<close>

fun inside :: "bool \<Rightarrow> multipart_event list \<Rightarrow> bool option" where
  "inside b [] = Some b"
| "inside b (PartStart n f t # es) = (if b then None else inside True es)"
| "inside b (PartData d # es) = (if b \<and> d \<noteq> [] then inside True es else None)"
| "inside b (PartEnd # es) = (if b then inside False es else None)"
| "inside b (FormEnd # es) = (if b then None else inside False es)"

lemma inside_append: "inside b (xs @ ys) = Option.bind (inside b xs) (\<lambda>b'. inside b' ys)"
  by (induction b xs rule: inside.induct) auto

lemma emit_inside: "emit d p = Inr (p', es) \<Longrightarrow> inside True es = Some True"
  by (auto simp: emit_def Let_def split: if_splits)

lemma step_inside:
  assumes "step p = Inr (b, p', es)" "mp_state p \<noteq> Epilogue"
  shows "inside (mp_state p = Content) es = Some (mp_state p' = Content)"
proof (cases "mp_state p")
  case Preamble
  then show ?thesis using assms(1) by (auto simp: step_def step_preamble_def Let_def split: option.splits if_splits)
next
  case AfterDelimiter
  then show ?thesis using assms(1) by (auto simp: step_def step_after_delimiter_def Let_def split: option.splits if_splits)
next
  case Headers
  then show ?thesis using assms(1) by (auto simp: step_def step_headers_def start_part_def Let_def split: option.splits if_splits)
next
  case Content
  then have s: "step_content p = Inr (b, p', es)" using assms(1) by (simp add: step_def)
  show ?thesis
  proof (cases "find_sub (delimiter (mp_boundary p)) (mp_buf p)")
    case None
    then obtain q where "emit (take (length (mp_buf p) - (length (delimiter (mp_boundary p)) - 1)) (mp_buf p)) p = Inr (q, es)" "b = False"
      using s by (auto simp: step_content_def Let_def)
    then show ?thesis using emit_inside Content content_state [OF s] by simp
  next
    case (Some i)
    then obtain q es1 where "emit (take i (mp_buf p)) p = Inr (q, es1)" "es = es1 @ [PartEnd]" "b"
      using s by (auto simp: step_content_def Let_def)
    then show ?thesis using emit_inside Content content_state [OF s] by (simp add: inside_append)
  qed
qed (use assms(2) in simp)

lemma loop_inside:
  "feed_loop p = Inr (p', es) \<Longrightarrow> mp_state p \<noteq> Epilogue \<Longrightarrow> inside (mp_state p = Content) es = Some (mp_state p' = Content)"
proof (induction p arbitrary: es rule: feed_loop.induct)
  case (1 p)
  then obtain b q es1 where s: "step p = Inr (b, q, es1)" by (cases "step p") (auto simp: feed_loop.simps [of p])
  note i = step_inside [OF s 1(3)]
  show ?case
  proof (cases b)
    case True
    then obtain es2 where r: "feed_loop q = Inr (p', es2)" "es = es1 @ es2" using 1(2) s by (auto simp: feed_loop.simps [of p])
    have "mp_state q \<noteq> Epilogue" using s True progress_state by simp
    then show ?thesis using 1(1) [OF s refl refl True r(1)] i r(2) by (simp add: inside_append)
  next
    case False
    then show ?thesis using 1(2) s i by (simp add: feed_loop.simps [of p])
  qed
qed

lemma feed_inside: "feed c p = Inr (p', es) \<Longrightarrow> inside (mp_state p = Content) es = Some (mp_state p' = Content)"
  using loop_inside [of "p\<lparr>mp_buf := mp_buf p @ c\<rparr>" p' es] by (auto simp: feed_def split: if_splits)

lemma feed_all_inside: "feed_all cs p = Inr (p', es) \<Longrightarrow> inside (mp_state p = Content) es = Some (mp_state p' = Content)"
proof (induction cs arbitrary: p es)
  case (Cons c cs)
  then obtain p1 e1 e2 where "feed c p = Inr (p1, e1)" "feed_all cs p1 = Inr (p', e2)" "es = e1 @ e2" by auto
  then show ?case using feed_inside Cons.IH by (simp add: inside_append)
qed simp

section \<open>What the limits say\<close>

abbreviation uploaded :: "stream_limits \<Rightarrow> part \<Rightarrow> bool" where
  "uploaded cfg p \<equiv> is_upload cfg (fst p) (fst (snd p))"

definition kept :: "stream_limits \<Rightarrow> part \<Rightarrow> bool" where
  "kept cfg p \<longleftrightarrow> fst (snd p) = None \<and> fst p \<in> set (sl_text_fields cfg)"

definition kept_bytes :: "stream_limits \<Rightarrow> part list \<Rightarrow> nat" where
  "kept_bytes cfg ps = sum_list (map (\<lambda>p. length (content p)) (filter (kept cfg) ps))"

definition within_limits :: "stream_limits \<Rightarrow> part list \<Rightarrow> bool" where
  "within_limits cfg ps \<longleftrightarrow>
     length (filter (uploaded cfg) ps) \<le> sl_max_files cfg \<and>
     length (filter (\<lambda>p. \<not> uploaded cfg p) ps) \<le> max_extra_parts \<and>
     int (kept_bytes cfg ps) \<le> max_text_total_bytes \<and>
     (\<forall>p \<in> set ps. uploaded cfg p \<and> content p \<noteq> [] \<longrightarrow> int (length (content p)) \<le> sl_max_file_bytes cfg)"

definition uploads :: "stream_limits \<Rightarrow> part list \<Rightarrow> part list" where
  "uploads cfg ps = filter (\<lambda>p. uploaded cfg p \<and> content p \<noteq> []) ps"

definition fields_of :: "(bytes \<Rightarrow> 't) \<Rightarrow> stream_limits \<Rightarrow> part list \<Rightarrow> (string \<times> 't) list" where
  "fields_of decode cfg ps = fold (\<lambda>p d. dict_set d (fst p) (decode (content p))) (filter (kept cfg) ps) []"

definition file_of :: "part \<Rightarrow> string \<Rightarrow> file_part" where
  "file_of p path = \<lparr>up_name = fst p, up_filename = the (fst (snd p)), up_content_type = fst (snd (snd p)), up_data = [],
     up_path = Some path, up_size = length (content p)\<rparr>"

definition enough_room :: "(nat \<Rightarrow> int) \<Rightarrow> stream_limits \<Rightarrow> bool" where
  "enough_room free cfg \<longleftrightarrow>
     sl_low_watermark_bytes cfg = 0 \<or> (\<forall>k. sl_low_watermark_bytes cfg + sl_max_file_bytes cfg \<le> free k)"

lemma not_both: "uploaded cfg p \<Longrightarrow> \<not> kept cfg p"
  by (auto simp: is_upload_def kept_def)

section \<open>The spool\<close>

definition spooled :: "bytes \<Rightarrow> spool_file \<Rightarrow> bool" where
  "spooled c f \<longleftrightarrow> sf_size f = length c \<and> sf_written f @ concat (sf_pending f) = c \<and>
     sf_open f = (c \<noteq> []) \<and> sf_created f = (c \<noteq> []) \<and> (c = [] \<longrightarrow> sf_pending f = [])"

lemma new_spooled: "spooled [] (new_spool path)"
  by (simp add: spooled_def new_spool_def)

lemma flush_sound:
  assumes "flush_spool free fl (k, f) = Inr (k', f')" "spooled c f"
  shows "spooled c f'" "sf_path f' = sf_path f" "sf_written f' = c"
  using assms by (auto simp: flush_spool_def spooled_def Let_def split: if_splits)

lemma flush_complete:
  assumes "spooled c f" "fl = 0 \<or> (\<forall>k. fl + limit \<le> free k)" "c = [] \<or> int (length c) \<le> limit"
  shows "\<exists>r. flush_spool free fl (k, f) = Inr r"
proof (cases "c = []")
  case True
  then show ?thesis using assms(1) by (simp add: flush_spool_def spooled_def)
next
  case False
  have "length (concat (sf_pending f)) \<le> length c" using assms(1) by (auto simp: spooled_def)
  then have "fl = 0 \<or> \<not> free k - int (length (concat (sf_pending f))) < fl" using assms(2,3) False by (smt (verit) of_nat_le_iff)
  then show ?thesis by (auto simp: flush_spool_def Let_def)
qed

definition grown :: "bytes \<Rightarrow> spool_file \<Rightarrow> spool_file" where
  "grown d f = f\<lparr>sf_open := True, sf_created := True, sf_size := sf_size f + length d, sf_pending := sf_pending f @ [d],
     sf_pending_bytes := sf_pending_bytes f + length d\<rparr>"

lemma grown_spooled: "spooled c f \<Longrightarrow> d \<noteq> [] \<Longrightarrow> spooled (c @ d) (grown d f)"
  by (auto simp: spooled_def grown_def)

lemma write_spool_eq:
  assumes "spooled c f"
  shows "write_spool taken free fl limit d (k, f) =
    (if int (length (c @ d)) > limit then Inl BodyTooLargeError
     else if c = [] \<and> sf_path f \<in> set taken then Inl (FileExistsError (sf_path f))
     else if int (sf_pending_bytes f + length d) \<ge> spool_write_bytes then flush_spool free fl (k, grown d f)
     else Inr (k, grown d f))"
proof -
  have o: "f\<lparr>sf_open := True, sf_created := True\<rparr> = f" if "c \<noteq> []"
    using assms that by (cases f) (simp add: spooled_def)
  show ?thesis
  proof (cases "c = []")
    case True
    then show ?thesis using assms by (simp add: write_spool_def open_spool_def spooled_def grown_def Let_def)
  next
    case False
    then have g: "grown d f = f\<lparr>sf_size := sf_size f + length d, sf_pending := sf_pending f @ [d],
        sf_pending_bytes := sf_pending_bytes f + length d\<rparr>"
      using arg_cong [OF o, of "\<lambda>f. f\<lparr>sf_size := sf_size f + length d, sf_pending := sf_pending f @ [d],
        sf_pending_bytes := sf_pending_bytes f + length d\<rparr>"] by (simp add: grown_def)
    show ?thesis using assms False unfolding g by (simp add: write_spool_def spooled_def Let_def)
  qed
qed

lemma write_sound:
  assumes "write_spool taken free fl limit d (k, f) = Inr (k', f')" "spooled c f" "d \<noteq> []"
  shows "spooled (c @ d) f'" "sf_path f' = sf_path f" "int (length (c @ d)) \<le> limit" "c = [] \<Longrightarrow> sf_path f \<notin> set taken"
proof -
  note w = assms(1) [unfolded write_spool_eq [OF assms(2)]]
  note g = grown_spooled [OF assms(2,3)]
  have p: "sf_path (grown d f) = sf_path f" by (simp add: grown_def)
  show "spooled (c @ d) f'" "sf_path f' = sf_path f"
    using w g p flush_sound [of free fl k "grown d f" k' f' "c @ d"] by (auto split: if_splits)
  show "int (length (c @ d)) \<le> limit" "c = [] \<Longrightarrow> sf_path f \<notin> set taken" using w by (auto split: if_splits)
qed

lemma write_complete:
  assumes "spooled c f" "d \<noteq> []" "int (length (c @ d)) \<le> limit" "c = [] \<Longrightarrow> sf_path f \<notin> set taken"
    and "fl = 0 \<or> (\<forall>k. fl + limit \<le> free k)"
  shows "\<exists>r. write_spool taken free fl limit d (k, f) = Inr r"
  using flush_complete [OF grown_spooled [OF assms(1,2)] assms(5)] assms(3,4)
  by (auto simp: write_spool_eq [OF assms(1)])

lemma close_sound:
  assumes "close_spool free fl (k, f) = Inr (k', f')" "spooled c f"
  shows "sf_size f' = length c" "sf_path f' = sf_path f" "sf_written f' = c" "sf_created f' = (c \<noteq> [])"
proof -
  obtain r where r: "flush_spool free fl (k, f) = Inr r" using assms(1) by (cases "flush_spool free fl (k, f)") (simp_all add: close_spool_def)
  obtain k1 f1 where r1: "r = (k1, f1)" by (cases r)
  have f': "f' = f1\<lparr>sf_open := False\<rparr>" using assms(1) r r1 by (simp add: close_spool_def)
  note s = flush_sound [OF r [unfolded r1] assms(2)]
  show "sf_size f' = length c" "sf_path f' = sf_path f" "sf_written f' = c" "sf_created f' = (c \<noteq> [])"
    unfolding f' using s by (simp_all add: spooled_def)
qed

lemma close_complete:
  assumes "spooled c f" "fl = 0 \<or> (\<forall>k. fl + limit \<le> free k)" "c = [] \<or> int (length c) \<le> limit"
  shows "\<exists>r. close_spool free fl (k, f) = Inr r"
  using flush_complete [OF assms, of k] by (auto simp: close_spool_def)

section \<open>The reader\<close>

text \<open>The parts so far, the one being read included.\<close>

definition seen :: "part option \<times> part list \<Rightarrow> part list" where
  "seen s = snd s @ (case fst s of None \<Rightarrow> [] | Some p \<Rightarrow> [p])"

lemma seen_simps [simp]: "seen (None, ps) = ps" "seen (Some p, ps) = ps @ [p]"
  by (simp_all add: seen_def)

definition reading :: "(nat \<Rightarrow> string) \<Rightarrow> stream_limits \<Rightarrow> part \<Rightarrow> 't reader \<Rightarrow> bool" where
  "reading uuid cfg p rd \<longleftrightarrow>
     rd_name rd = fst p \<and> rd_filename rd = fst (snd p) \<and> rd_content_type rd = fst (snd (snd p)) \<and> rd_keep_text rd = kept cfg p \<and>
     (if uploaded cfg p
      then \<exists>f. rd_spool rd = Some f \<and> spooled (content p) f \<and> sf_path f = uuid (rd_file_parts rd) \<and>
             (content p \<noteq> [] \<longrightarrow> sf_path f \<notin> fst ` set (rd_disk rd))
      else rd_spool rd = None \<and> (kept cfg p \<longrightarrow> rd_text rd = content p))"

definition counted :: "stream_limits \<Rightarrow> part list \<Rightarrow> 't reader \<Rightarrow> bool" where
  "counted cfg ps rd \<longleftrightarrow> rd_file_parts rd = length (filter (uploaded cfg) ps) \<and>
     rd_extra_parts rd = length (filter (\<lambda>p. \<not> uploaded cfg p) ps) \<and> rd_text_total rd = kept_bytes cfg ps"

definition stored :: "(bytes \<Rightarrow> 't) \<Rightarrow> stream_limits \<Rightarrow> part list \<Rightarrow> 't reader \<Rightarrow> bool" where
  "stored decode cfg ps rd \<longleftrightarrow> mf_fields (rd_form rd) = fields_of decode cfg ps \<and>
     mf_files (rd_form rd) = map2 file_of (uploads cfg ps) (map fst (rd_disk rd)) \<and>
     map snd (rd_disk rd) = map content (uploads cfg ps) \<and> distinct (map fst (rd_disk rd))"

text \<open>The names in the directory are those of earlier files.\<close>

definition named :: "(nat \<Rightarrow> string) \<Rightarrow> stream_limits \<Rightarrow> part option \<Rightarrow> 't reader \<Rightarrow> bool" where
  "named uuid cfg cur rd \<longleftrightarrow> fst ` set (rd_disk rd) \<subseteq>
     uuid ` {n. if \<exists>p. cur = Some p \<and> uploaded cfg p then n < rd_file_parts rd else n \<le> rd_file_parts rd}"

definition agrees :: "(bytes \<Rightarrow> 't) \<Rightarrow> (nat \<Rightarrow> string) \<Rightarrow> stream_limits \<Rightarrow> part option \<times> part list \<Rightarrow> 't reader \<Rightarrow> bool" where
  "agrees decode uuid cfg s rd \<longleftrightarrow> within_limits cfg (seen s) \<and> counted cfg (seen s) rd \<and> stored decode cfg (snd s) rd \<and>
     named uuid cfg (fst s) rd \<and> (case fst s of None \<Rightarrow> rd_spool rd = None | Some p \<Rightarrow> reading uuid cfg p rd)"

lemma agrees_new: "agrees decode uuid cfg (None, []) new_reader"
  by (simp add: agrees_def within_limits_def counted_def stored_def named_def new_reader_def kept_bytes_def fields_of_def uploads_def
      max_text_total_bytes_def)

lemma kept_bytes_append [simp]: "kept_bytes cfg (ps @ qs) = kept_bytes cfg ps + kept_bytes cfg qs"
  by (simp add: kept_bytes_def)

lemma kept_bytes_single [simp]: "kept_bytes cfg [p] = (if kept cfg p then length (content p) else 0)"
  by (simp add: kept_bytes_def)

lemma within_limits_snoc:
  "within_limits cfg (ps @ [p]) \<longleftrightarrow> within_limits cfg ps \<and>
     (if uploaded cfg p
      then length (filter (uploaded cfg) ps) < sl_max_files cfg \<and> (content p = [] \<or> int (length (content p)) \<le> sl_max_file_bytes cfg)
      else length (filter (\<lambda>p. \<not> uploaded cfg p) ps) < max_extra_parts \<and>
           int (kept_bytes cfg ps + (if kept cfg p then length (content p) else 0)) \<le> max_text_total_bytes)"
  using not_both [of cfg p] by (auto simp: within_limits_def)

subsection \<open>A part begins\<close>

lemma start_step:
  fixes n t :: string and f :: "string option"
  assumes "agrees decode uuid cfg (None, ps) rd"
  defines "p \<equiv> (n, f, t, [])"
  shows "(\<exists>rd'. on_start uuid cfg n f t rd = Inr rd') \<longleftrightarrow> within_limits cfg (ps @ [p])"
    and "on_start uuid cfg n f t rd = Inr rd' \<Longrightarrow> agrees decode uuid cfg (Some p, ps) rd'"
proof -
  have w: "within_limits cfg ps" and c: "counted cfg ps rd" and st: "stored decode cfg ps rd" and nm: "named uuid cfg None rd"
    using assms(1) by (simp_all add: agrees_def)
  have kb: "int (kept_bytes cfg ps) \<le> max_text_total_bytes" using w by (simp add: within_limits_def)
  have up: "uploaded cfg p = is_upload cfg n f" by (simp add: p_def)
  have snoc: "within_limits cfg (ps @ [p]) \<longleftrightarrow>
      (if is_upload cfg n f then rd_file_parts rd < sl_max_files cfg else rd_extra_parts rd < max_extra_parts)"
    unfolding within_limits_snoc using w c kb by (simp add: p_def counted_def)
  show one: "(\<exists>rd'. on_start uuid cfg n f t rd = Inr rd') \<longleftrightarrow> within_limits cfg (ps @ [p])"
    unfolding snoc by (auto simp: on_start_def Let_def)
  assume s: "on_start uuid cfg n f t rd = Inr rd'"
  with one have w': "within_limits cfg (ps @ [p])" by blast
  have disk: "rd_disk rd' = rd_disk rd" "rd_form rd' = rd_form rd" "rd_text_total rd' = rd_text_total rd"
    using s by (auto simp: on_start_def Let_def split: if_splits)
  have fp: "rd_file_parts rd' = rd_file_parts rd + (if is_upload cfg n f then 1 else 0)"
    "rd_extra_parts rd' = rd_extra_parts rd + (if is_upload cfg n f then 0 else 1)"
    using s by (auto simp: on_start_def Let_def split: if_splits)
  have "counted cfg (ps @ [p]) rd'" using c disk fp by (simp add: counted_def p_def)
  moreover have "stored decode cfg ps rd'" using st disk by (simp add: stored_def)
  moreover have "named uuid cfg (Some p) rd'"
  proof -
    have "{m. m \<le> rd_file_parts rd} \<subseteq> {m. if uploaded cfg p then m < rd_file_parts rd' else m \<le> rd_file_parts rd'}"
      by (auto simp: fp up)
    from image_mono [OF this, of uuid] show ?thesis using nm unfolding named_def disk by simp
  qed
  moreover have "reading uuid cfg p rd'"
    using s by (auto simp: on_start_def Let_def reading_def p_def kept_def new_spool_def spooled_def split: if_splits)
  ultimately show "agrees decode uuid cfg (Some p, ps) rd'" using w' by (simp add: agrees_def)
qed

subsection \<open>Content arrives\<close>

lemma data_kept:
  fixes n t d :: string and f :: "string option"
  assumes "agrees decode uuid cfg (Some (n, f, t, c), ps) rd" "\<not> is_upload cfg n f"
  defines "q \<equiv> (n, f, t, c @ d)"
  shows "(\<exists>rd'. on_data free cfg d rd = Inr rd') \<longleftrightarrow> within_limits cfg (ps @ [q])"
    and "on_data free cfg d rd = Inr rd' \<Longrightarrow> agrees decode uuid cfg (Some q, ps) rd'"
proof -
  let ?p = "(n, f, t, c)"
  have w: "within_limits cfg (ps @ [?p])" and cn: "counted cfg (ps @ [?p]) rd" and st: "stored decode cfg ps rd"
    and nm: "named uuid cfg (Some ?p) rd" and rg: "reading uuid cfg ?p rd"
    using assms(1) by (simp_all add: agrees_def)
  have sp: "rd_spool rd = None" and keep: "rd_keep_text rd = kept cfg ?p" and tx: "kept cfg ?p \<Longrightarrow> rd_text rd = c"
    using rg assms(2) by (simp_all add: reading_def)
  have kq: "kept cfg q = kept cfg ?p" by (simp add: kept_def q_def)
  have snoc: "within_limits cfg (ps @ [q]) \<longleftrightarrow> (kept cfg ?p \<longrightarrow> int (rd_text_total rd + length d) \<le> max_text_total_bytes)"
    using w cn assms(2) unfolding within_limits_snoc kq by (auto simp: counted_def q_def)
  show one: "(\<exists>rd'. on_data free cfg d rd = Inr rd') \<longleftrightarrow> within_limits cfg (ps @ [q])"
    unfolding snoc by (auto simp: on_data_def sp keep Let_def)
  assume s: "on_data free cfg d rd = Inr rd'"
  with one have w': "within_limits cfg (ps @ [q])" by blast
  have r: "rd' = (if kept cfg ?p then rd\<lparr>rd_text_total := rd_text_total rd + length d, rd_text := rd_text rd @ d\<rparr> else rd)"
    using s by (auto simp: on_data_def sp keep Let_def split: if_splits)
  have "counted cfg (ps @ [q]) rd'" using cn kq by (auto simp: counted_def r q_def)
  moreover have "stored decode cfg ps rd'" using st by (simp add: stored_def r)
  moreover have "named uuid cfg (Some q) rd'" using nm assms(2) by (simp add: named_def r q_def)
  moreover have "reading uuid cfg q rd'" using rg tx kq assms(2) by (auto simp: reading_def r q_def)
  ultimately show "agrees decode uuid cfg (Some q, ps) rd'" using w' by (simp add: agrees_def)
qed

lemma data_upload:
  fixes n t d :: string and f :: "string option"
  assumes "agrees decode uuid cfg (Some (n, f, t, c), ps) rd" "is_upload cfg n f" "d \<noteq> []"
  defines "q \<equiv> (n, f, t, c @ d)"
  shows "on_data free cfg d rd = Inr rd' \<Longrightarrow> agrees decode uuid cfg (Some q, ps) rd'"
    and "within_limits cfg (ps @ [q]) \<Longrightarrow> enough_room free cfg \<Longrightarrow> inj uuid \<Longrightarrow> \<exists>rd'. on_data free cfg d rd = Inr rd'"
proof -
  let ?p = "(n, f, t, c)"
  have w: "within_limits cfg (ps @ [?p])" and cn: "counted cfg (ps @ [?p]) rd" and st: "stored decode cfg ps rd"
    and nm: "named uuid cfg (Some ?p) rd" and rg: "reading uuid cfg ?p rd"
    using assms(1) by (simp_all add: agrees_def)
  obtain sf where sf: "rd_spool rd = Some sf" "spooled c sf" "sf_path sf = uuid (rd_file_parts rd)" "c \<noteq> [] \<Longrightarrow> sf_path sf \<notin> fst ` set (rd_disk rd)"
    using rg assms(2) by (auto simp: reading_def)
  have snoc: "within_limits cfg (ps @ [q]) \<longleftrightarrow> int (length (c @ d)) \<le> sl_max_file_bytes cfg"
    using w assms(2,3) unfolding within_limits_snoc by (auto simp: q_def)
  have nk: "\<not> kept cfg ?p" "\<not> kept cfg q" using assms(2) not_both by (auto simp: q_def)
  let ?w = "write_spool (map fst (rd_disk rd)) free (sl_low_watermark_bytes cfg) (sl_max_file_bytes cfg) d (rd_batches rd, sf)"
  {
    assume s: "on_data free cfg d rd = Inr rd'"
    then obtain r where r: "?w = Inr r" by (cases ?w) (simp_all add: on_data_def sf(1))
    obtain k sf' where r1: "r = (k, sf')" by (cases r)
    have rd': "rd' = rd\<lparr>rd_batches := k, rd_spool := Some sf'\<rparr>" using s r r1 by (simp add: on_data_def sf(1))
    note ws = write_sound [OF r [unfolded r1] sf(2) assms(3)]
    have "counted cfg (ps @ [q]) rd'" using cn nk assms(2) by (simp add: counted_def rd' q_def)
    moreover have "stored decode cfg ps rd'" using st by (simp add: stored_def rd')
    moreover have "named uuid cfg (Some q) rd'" using nm assms(2) by (simp add: named_def rd' q_def)
    moreover have "reading uuid cfg q rd'"
      using rg nk ws sf assms(2) by (cases "c = []") (auto simp: reading_def rd' q_def)
    moreover have "within_limits cfg (ps @ [q])" using snoc ws(3) by blast
    ultimately show "agrees decode uuid cfg (Some q, ps) rd'" by (simp add: agrees_def)
  }
  assume l: "within_limits cfg (ps @ [q])" and room: "enough_room free cfg" and inj: "inj uuid"
  have "sf_path sf \<notin> set (map fst (rd_disk rd))"
  proof
    assume "sf_path sf \<in> set (map fst (rd_disk rd))"
    then obtain m where "m < rd_file_parts rd" "uuid m = uuid (rd_file_parts rd)" using nm assms(2) sf(3) by (auto simp: named_def)
    then show False using inj by (simp add: inj_eq)
  qed
  then obtain r where "?w = Inr r"
    using write_complete [OF sf(2) assms(3), of "sl_max_file_bytes cfg" "map fst (rd_disk rd)"] l room unfolding snoc enough_room_def by blast
  then show "\<exists>rd'. on_data free cfg d rd = Inr rd'" by (cases r) (simp add: on_data_def sf(1))
qed

subsection \<open>A part ends\<close>

lemma end_kept:
  assumes "agrees decode uuid cfg (Some p, ps) rd" "\<not> uploaded cfg p"
  shows "\<exists>rd'. on_end decode free cfg rd = Inr rd' \<and> agrees decode uuid cfg (None, ps @ [p]) rd'"
proof -
  have w: "within_limits cfg (ps @ [p])" and cn: "counted cfg (ps @ [p]) rd" and st: "stored decode cfg ps rd"
    and nm: "named uuid cfg (Some p) rd" and rg: "reading uuid cfg p rd"
    using assms(1) by (simp_all add: agrees_def)
  have sp: "rd_spool rd = None" and keep: "rd_keep_text rd = kept cfg p" and tx: "kept cfg p \<Longrightarrow> rd_text rd = content p" and name: "rd_name rd = fst p"
    using rg assms(2) by (simp_all add: reading_def)
  let ?form = "if kept cfg p then (rd_form rd)\<lparr>mf_fields := dict_set (mf_fields (rd_form rd)) (fst p) (decode (content p))\<rparr> else rd_form rd"
  let ?rd = "rd\<lparr>rd_form := ?form, rd_name := [], rd_filename := None\<rparr>"
  have e: "on_end decode free cfg rd = Inr ?rd" by (simp add: on_end_def sp keep tx name)
  have "counted cfg (ps @ [p]) ?rd" using cn by (simp add: counted_def)
  moreover have "stored decode cfg (ps @ [p]) ?rd" using st assms(2) by (simp add: stored_def fields_of_def uploads_def)
  moreover have "named uuid cfg None ?rd" using nm assms(2) by (simp add: named_def)
  ultimately have "agrees decode uuid cfg (None, ps @ [p]) ?rd" using w sp by (simp add: agrees_def)
  with e show ?thesis by blast
qed

lemma end_upload:
  assumes "agrees decode uuid cfg (Some p, ps) rd" "uploaded cfg p"
  shows "on_end decode free cfg rd = Inr rd' \<Longrightarrow> agrees decode uuid cfg (None, ps @ [p]) rd'"
    and "enough_room free cfg \<Longrightarrow> \<exists>rd'. on_end decode free cfg rd = Inr rd'"
proof -
  have w: "within_limits cfg (ps @ [p])" and cn: "counted cfg (ps @ [p]) rd" and st: "stored decode cfg ps rd"
    and nm: "named uuid cfg (Some p) rd" and rg: "reading uuid cfg p rd"
    using assms(1) by (simp_all add: agrees_def)
  have ids: "rd_name rd = fst p" "rd_filename rd = fst (snd p)" "rd_content_type rd = fst (snd (snd p))" using rg by (simp_all add: reading_def)
  obtain sf where sf: "rd_spool rd = Some sf" "spooled (content p) sf" "sf_path sf = uuid (rd_file_parts rd)"
      "content p \<noteq> [] \<Longrightarrow> sf_path sf \<notin> fst ` set (rd_disk rd)"
    using rg assms(2) by (auto simp: reading_def)
  let ?c = "close_spool free (sl_low_watermark_bytes cfg) (rd_batches rd, sf)"
  have nk: "\<not> kept cfg p" using assms(2) not_both by blast
  have len: "length (uploads cfg ps) = length (rd_disk rd)" using st unfolding stored_def by (metis length_map)
  {
    assume s: "on_end decode free cfg rd = Inr rd'"
    then obtain r where r: "?c = Inr r" by (cases ?c) (simp_all add: on_end_def sf(1))
    obtain k sf' where r1: "r = (k, sf')" by (cases r)
    note cs = close_sound [OF r [unfolded r1] sf(2)]
    let ?disk = "if content p \<noteq> [] then rd_disk rd @ [(sf_path sf, content p)] else rd_disk rd"
    let ?form = "if content p \<noteq> [] then (rd_form rd)\<lparr>mf_files := mf_files (rd_form rd) @ [file_of p (sf_path sf)]\<rparr> else rd_form rd"
    have fn: "(case fst (snd p) of None \<Rightarrow> [] | Some s \<Rightarrow> s) = the (fst (snd p))" using assms(2) by (auto simp: is_upload_def)
    have rd': "rd_disk rd' = ?disk" "rd_form rd' = ?form" "rd_spool rd' = None" "rd_file_parts rd' = rd_file_parts rd"
        "rd_extra_parts rd' = rd_extra_parts rd" "rd_text_total rd' = rd_text_total rd"
      using s r r1 cs fn by (auto simp: on_end_def sf(1) ids Let_def file_of_def split: if_splits)
    have "counted cfg (ps @ [p]) rd'" using cn rd' by (simp add: counted_def)
    moreover have "stored decode cfg (ps @ [p]) rd'"
      using st nk assms(2) sf(4) len unfolding stored_def rd' by (auto simp: fields_of_def uploads_def image_iff)
    moreover have "named uuid cfg None rd'"
    proof -
      have "fst ` set ?disk \<subseteq> insert (uuid (rd_file_parts rd)) (fst ` set (rd_disk rd))" using sf(3) by auto
      also have "\<dots> \<subseteq> uuid ` {m. m \<le> rd_file_parts rd}" using nm assms(2) by (force simp: named_def)
      finally show ?thesis by (simp add: named_def rd')
    qed
    ultimately show "agrees decode uuid cfg (None, ps @ [p]) rd'" using w rd' by (simp add: agrees_def)
  }
  assume "enough_room free cfg"
  moreover have "content p = [] \<or> int (length (content p)) \<le> sl_max_file_bytes cfg" using w assms(2) by (simp add: within_limits_snoc)
  ultimately obtain r where "?c = Inr r" using close_complete [OF sf(2)] unfolding enough_room_def by blast
  then show "\<exists>rd'. on_end decode free cfg rd = Inr rd'" by (cases r) (simp add: on_end_def sf(1) Let_def)
qed

subsection \<open>Every event\<close>

lemma event_sound:
  assumes "agrees decode uuid cfg s rd" "inside (fst s \<noteq> None) [e] \<noteq> None" "on_event decode uuid free cfg e rd = Inr rd'"
  shows "agrees decode uuid cfg (assemble e s) rd'"
proof (cases e)
  case (PartStart n f t)
  then have "fst s = None" using assms(2) by (cases "fst s = None") simp_all
  then obtain ps where s: "s = (None, ps)" by (cases s) simp
  show ?thesis using assms(1,3) PartStart s start_step(2) [of decode uuid cfg ps rd n f t rd'] by simp
next
  case (PartData d)
  then obtain n f t c ps where s: "s = (Some (n, f, t, c), ps)" "d \<noteq> []" using assms(2) by (cases s) (auto split: if_splits)
  show ?thesis
    using assms(1,3) PartData s data_upload(1) [of decode uuid cfg n f t c ps rd d free rd'] data_kept(2) [of decode uuid cfg n f t c ps rd free d rd']
    by (cases "is_upload cfg n f") simp_all
next
  case PartEnd
  then obtain p ps where s: "s = (Some p, ps)" using assms(2) by (cases s) (auto split: if_splits)
  show ?thesis
    using assms(1,3) PartEnd s end_upload(1) [of decode uuid cfg p ps rd free rd'] end_kept [of decode uuid cfg p ps rd free]
    by (cases "uploaded cfg p") auto
next
  case FormEnd
  then show ?thesis using assms by simp
qed

lemma event_complete:
  assumes "agrees decode uuid cfg s rd" "inside (fst s \<noteq> None) [e] \<noteq> None"
    and "within_limits cfg (seen (assemble e s))" "enough_room free cfg" "inj uuid"
  shows "\<exists>rd'. on_event decode uuid free cfg e rd = Inr rd'"
proof (cases e)
  case (PartStart n f t)
  then have "fst s = None" using assms(2) by (cases "fst s = None") simp_all
  then obtain ps where s: "s = (None, ps)" by (cases s) simp
  show ?thesis using assms(1,3) PartStart s start_step(1) [of decode uuid cfg ps rd n f t] by simp
next
  case (PartData d)
  then obtain n f t c ps where s: "s = (Some (n, f, t, c), ps)" "d \<noteq> []" using assms(2) by (cases s) (auto split: if_splits)
  show ?thesis
    using assms PartData s data_upload(2) [of decode uuid cfg n f t c ps rd d free] data_kept(1) [of decode uuid cfg n f t c ps rd free d]
    by (cases "is_upload cfg n f") simp_all
next
  case PartEnd
  then obtain p ps where s: "s = (Some p, ps)" using assms(2) by (cases s) (auto split: if_splits)
  show ?thesis
    using assms PartEnd s end_upload(2) [of decode uuid cfg p ps rd free] end_kept [of decode uuid cfg p ps rd free]
    by (cases "uploaded cfg p") auto
qed simp

lemma inside_Cons: "inside b (e # es) \<noteq> None \<Longrightarrow> inside b [e] \<noteq> None \<and> (\<exists>b'. inside b [e] = Some b' \<and> inside b' es = inside b (e # es))"
  by (cases e) (auto split: if_splits)

lemma assemble_inside: "inside (fst s \<noteq> None) [e] = Some b \<Longrightarrow> b = (fst (assemble e s) \<noteq> None)"
  by (cases e; cases s) (auto split: if_splits)

lemma limits_mono: "within_limits cfg (seen (assemble e s)) \<Longrightarrow> inside (fst s \<noteq> None) [e] \<noteq> None \<Longrightarrow> within_limits cfg (seen s)"
proof (cases e)
  case (PartStart n f t)
  assume w: "within_limits cfg (seen (assemble e s))" and i: "inside (fst s \<noteq> None) [e] \<noteq> None"
  have "fst s = None" using i PartStart by (cases "fst s = None") simp_all
  then obtain ps where "s = (None, ps)" by (cases s) simp
  then show ?thesis using w PartStart by (simp add: within_limits_snoc)
next
  case (PartData d)
  assume w: "within_limits cfg (seen (assemble e s))"
  obtain cur ps where s: "s = (cur, ps)" by (cases s)
  show ?thesis
  proof (cases cur)
    case None
    then show ?thesis using w PartData s by simp
  next
    case (Some p)
    obtain n f t c where p: "p = (n, f, t, c)" by (cases p)
    have "kept cfg (n, f, t, c @ d) = kept cfg p" by (simp add: kept_def p)
    then show ?thesis using w PartData s Some p by (auto simp: within_limits_snoc split: if_splits)
  qed
next
  case PartEnd
  assume "within_limits cfg (seen (assemble e s))"
  then show ?thesis using PartEnd by (cases s; cases "fst s") simp_all
qed simp

lemma limits_mono_fold:
  "inside (fst s \<noteq> None) es \<noteq> None \<Longrightarrow> within_limits cfg (seen (fold assemble es s)) \<Longrightarrow> within_limits cfg (seen s)"
proof (induction es arbitrary: s)
  case (Cons e es)
  obtain b where b: "inside (fst s \<noteq> None) [e] = Some b" "inside b es \<noteq> None" using inside_Cons [OF Cons.prems(1)] Cons.prems(1) by auto
  have "within_limits cfg (seen (assemble e s))" using Cons.IH [of "assemble e s"] Cons.prems(2) b assemble_inside [OF b(1)] by simp
  then show ?case using limits_mono b(1) by (metis option.distinct(1))
qed simp

lemma events_sound:
  "agrees decode uuid cfg s rd \<Longrightarrow> inside (fst s \<noteq> None) es \<noteq> None \<Longrightarrow> on_events decode uuid free cfg es rd = Inr rd' \<Longrightarrow>
     agrees decode uuid cfg (fold assemble es s) rd'"
proof (induction es arbitrary: s rd)
  case (Cons e es)
  obtain b where b: "inside (fst s \<noteq> None) [e] = Some b" "inside b es \<noteq> None" using inside_Cons [OF Cons.prems(2)] Cons.prems(2) by auto
  obtain rd1 where r: "on_event decode uuid free cfg e rd = Inr rd1" "on_events decode uuid free cfg es rd1 = Inr rd'"
    using Cons.prems(3) by (cases "on_event decode uuid free cfg e rd") auto
  have "agrees decode uuid cfg (assemble e s) rd1" using event_sound [OF Cons.prems(1) _ r(1)] b(1) by simp
  then show ?case using Cons.IH [OF _ _ r(2)] b assemble_inside [OF b(1)] by simp
qed simp

lemma events_complete:
  assumes "enough_room free cfg" "inj uuid"
  shows "agrees decode uuid cfg s rd \<Longrightarrow> inside (fst s \<noteq> None) es \<noteq> None \<Longrightarrow> within_limits cfg (seen (fold assemble es s)) \<Longrightarrow>
     \<exists>rd'. on_events decode uuid free cfg es rd = Inr rd'"
proof (induction es arbitrary: s rd)
  case (Cons e es)
  obtain b where b: "inside (fst s \<noteq> None) [e] = Some b" "inside b es \<noteq> None" using inside_Cons [OF Cons.prems(2)] Cons.prems(2) by auto
  have in': "inside (fst (assemble e s) \<noteq> None) es \<noteq> None" using b assemble_inside [OF b(1)] by simp
  have "within_limits cfg (seen (assemble e s))" using limits_mono_fold [OF in'] Cons.prems(3) by simp
  then obtain rd1 where r: "on_event decode uuid free cfg e rd = Inr rd1" using event_complete [OF Cons.prems(1)] assms b(1) by blast
  have "agrees decode uuid cfg (assemble e s) rd1" using event_sound [OF Cons.prems(1) _ r] b(1) by simp
  then show ?case using Cons.IH [OF _ in'] Cons.prems(3) r by simp
qed simp

end
