(* ===== verification/Upload_Form.thy ===== *)
theory Upload_Form
  imports Form_Stream
begin

text \<open>
  What an upload form is, whatever its chunks: when the streamed reader accepts it and what it
  then holds, the refusals, and the token at its head.
\<close>

section \<open>The stream as a whole\<close>

lemma on_events_append:
  "on_events decode uuid free cfg (xs @ ys) rd = rbind (on_events decode uuid free cfg xs rd) (on_events decode uuid free cfg ys)"
proof (induction xs arbitrary: rd)
  case (Cons x xs)
  then show ?case by (cases "on_event decode uuid free cfg x rd") simp_all
qed simp

lemma stream_loop_iff:
  "stream_loop decode uuid free cfg chunks n p rd = Inr rd' \<longleftrightarrow>
     (chunks = [] \<or> int (n + length (concat chunks)) \<le> sl_max_total_bytes cfg) \<and>
     (\<exists>p' es. feed_all chunks p = Inr (p', es) \<and> on_events decode uuid free cfg es rd = Inr rd' \<and> finish p' = Inr ())"
proof (induction chunks arbitrary: n p rd)
  case Nil
  then show ?case by (cases "finish p") auto
next
  case (Cons c chunks)
  show ?case
  proof (cases "int (n + length c) > sl_max_total_bytes cfg")
    case True
    then show ?thesis by simp
  next
    case le: False
    show ?thesis
    proof (cases "feed c p")
      case (Inl e)
      then show ?thesis using le by simp
    next
      case (Inr r)
      obtain p1 e1 where r: "r = (p1, e1)" by (cases r)
      show ?thesis
      proof (cases "on_events decode uuid free cfg e1 rd")
        case (Inl e)
        have "on_events decode uuid free cfg (e1 @ e2) rd = Inl e" for e2 using Inl by (simp add: on_events_append)
        then show ?thesis using le Inr r Inl by (cases "feed_all chunks p1") auto
      next
        case (Inr rd1)
        have "stream_loop decode uuid free cfg (c # chunks) n p rd = stream_loop decode uuid free cfg chunks (n + length c) p1 rd1"
          using le \<open>feed c p = Inr r\<close> r Inr by (simp add: Let_def)
        moreover have "on_events decode uuid free cfg (e1 @ e2) rd = on_events decode uuid free cfg e2 rd1" for e2
          using Inr by (simp add: on_events_append)
        moreover have "chunks = [] \<or> int (n + length c + length (concat chunks)) \<le> sl_max_total_bytes cfg \<longleftrightarrow>
            int (n + length (concat (c # chunks))) \<le> sl_max_total_bytes cfg" using le by auto
        ultimately show ?thesis using Cons.IH [of "n + length c" p1 rd1] \<open>feed c p = Inr r\<close> r by (cases "feed_all chunks p1") auto
      qed
    qed
  qed
qed

lemma fold_inside: "inside (fst s \<noteq> None) es = Some b \<Longrightarrow> b = (fst (fold assemble es s) \<noteq> None)"
proof (induction es arbitrary: s)
  case (Cons e es)
  obtain b' where b': "inside (fst s \<noteq> None) [e] = Some b'" "inside b' es = Some b" using inside_Cons [of _ e es] Cons.prems by (metis option.distinct(1))
  then show ?case using Cons.IH [of "assemble e s"] assemble_inside [OF b'(1)] by simp
qed auto

lemma read_events_inside:
  assumes "feed_all chunks (new_parser boundary) = Inr (p, es)" "finish p = Inr ()"
  shows "inside False es = Some False" "fold assemble es (None, []) = (None, parts_of es)"
proof -
  have "mp_state p = Epilogue" using assms(2) by (simp add: finish_def split: if_splits)
  then show i: "inside False es = Some False" using feed_all_inside [OF assms(1)] by (simp add: new_parser_def)
  from fold_inside [of "(None, [])" es False] i have "fst (fold assemble es (None, [])) = None" by (cases "fst (fold assemble es (None, []))") auto
  then show "fold assemble es (None, []) = (None, parts_of es)" by (simp add: parts_of_def prod_eq_iff)
qed

lemma stream_parts:
  assumes "stream_multipart decode uuid free cfg content_type chunks = Inr rd"
  obtains boundary es where "multipart_boundary content_type = Some boundary" "read_events boundary chunks = Inr es"
    "agrees decode uuid cfg (None, parts_of es) rd" "chunks = [] \<or> int (length (concat chunks)) \<le> sl_max_total_bytes cfg"
    "inside False es = Some False"
proof -
  obtain boundary where b: "multipart_boundary content_type = Some boundary"
    using assms by (cases "multipart_boundary content_type") (simp_all add: stream_multipart_def)
  then have "stream_loop decode uuid free cfg chunks 0 (new_parser boundary) new_reader = Inr rd" using assms by (simp add: stream_multipart_def)
  then obtain p es where f: "chunks = [] \<or> int (length (concat chunks)) \<le> sl_max_total_bytes cfg" "feed_all chunks (new_parser boundary) = Inr (p, es)"
      "on_events decode uuid free cfg es new_reader = Inr rd" "finish p = Inr ()"
    unfolding stream_loop_iff by auto
  note i = read_events_inside [OF f(2,4)]
  have "agrees decode uuid cfg (None, parts_of es) rd"
    using events_sound [OF agrees_new _ f(3)] i by simp
  moreover have "read_events boundary chunks = Inr es" using f by (simp add: read_events_def)
  ultimately show ?thesis using that b f(1) i(1) by blast
qed

lemma one_piece:
  assumes "read_events boundary chunks = Inr es" "chunks \<noteq> []"
  shows "\<exists>es'. read_events boundary [concat chunks] = Inr es' \<and> parts_of es' = parts_of es"
proof -
  obtain p where p: "feed_all chunks (new_parser boundary) = Inr (p, es)" "finish p = Inr ()"
    using assms(1) by (auto simp: read_events_def)
  obtain p' es' where f: "feed (concat chunks) (new_parser boundary) = Inr (p', es')" "same_but_discarded p p'" "joined es' = joined es"
    using feed_all_concat [OF assms(2) p(1)] by (auto simp: after_feed_def)
  have "finish p' = Inr ()" using p(2) same_but_discarded_state [OF f(2)] by (simp add: finish_def split: if_splits)
  then show ?thesis using f parts_of_joined [OF f(3)] by (simp add: read_events_def)
qed

text \<open>
  C37.  The streamed form is the form.  If the reader accepts an upload, then whatever its chunks,
  the batches of the spool and the free space reported, the text fields are those kept parts of
  the body read in one piece, the last value winning; the files are its upload parts that are
  not empty, in order; and each has a file of its own in the spool with exactly its content.
\<close>

theorem streamed_form_exact:
  assumes "stream_multipart decode uuid free cfg content_type chunks = Inr rd" "chunks \<noteq> []"
  shows "\<exists>boundary es. multipart_boundary content_type = Some boundary \<and> read_events boundary [concat chunks] = Inr es \<and>
    mf_fields (rd_form rd) = fields_of decode cfg (parts_of es) \<and>
    mf_files (rd_form rd) = map2 file_of (uploads cfg (parts_of es)) (map fst (rd_disk rd)) \<and>
    map snd (rd_disk rd) = map content (uploads cfg (parts_of es)) \<and> distinct (map fst (rd_disk rd))"
proof -
  obtain boundary es where s: "multipart_boundary content_type = Some boundary" "read_events boundary chunks = Inr es"
      "agrees decode uuid cfg (None, parts_of es) rd"
    by (rule stream_parts [OF assms(1)])
  have "stored decode cfg (parts_of es) rd" using s(3) by (simp add: agrees_def)
  moreover obtain es' where "read_events boundary [concat chunks] = Inr es'" "parts_of es' = parts_of es"
    using one_piece [OF s(2) assms(2)] by blast
  ultimately show ?thesis using s(1) by (auto simp: stored_def)
qed

definition sample_form :: bytes where
  "sample_form = ''--B'' @ crlf @ ''Content-Disposition: form-data; name=\"csrf_token\"'' @ crlf @ crlf @ ''tok'' @ crlf @
     ''--B'' @ crlf @ ''Content-Disposition: form-data; name=\"files\"; filename=\"a.jpg\"'' @ crlf @ ''Content-Type: image/jpeg'' @ crlf @ crlf @
     ''JPEG'' @ crlf @ ''--B--''"

definition sample_limits :: stream_limits where
  "sample_limits = \<lparr>sl_file_field = ''files'', sl_text_fields = [''csrf_token''], sl_max_file_bytes = 10, sl_max_total_bytes = 1000,
     sl_max_files = 1, sl_low_watermark_bytes = 0\<rparr>"

definition sample_type :: string where "sample_type = ''multipart/form-data; boundary=B''"

abbreviation sample_upload :: "stream_limits \<Rightarrow> bytes list \<Rightarrow> string reader res" where
  "sample_upload cfg \<equiv> stream_multipart (\<lambda>b. b) (\<lambda>n. replicate n (CHR ''u'')) (\<lambda>_. 0) cfg sample_type"

theorem streamed_form_exact_witness:
  "(case sample_upload sample_limits [take 60 sample_form, drop 60 sample_form] of
      Inl e \<Rightarrow> False
    | Inr rd \<Rightarrow> mf_fields (rd_form rd) = [(''csrf_token'', ''tok'')] \<and> rd_disk rd = [(''u'', ''JPEG'')] \<and>
        (\<exists>boundary es. multipart_boundary sample_type = Some boundary \<and> read_events boundary [sample_form] = Inr es \<and>
           map content (uploads sample_limits (parts_of es)) = [''JPEG'']))"
proof -
  have "case sample_upload sample_limits [take 60 sample_form, drop 60 sample_form] of
      Inl e \<Rightarrow> False
    | Inr rd \<Rightarrow> mf_fields (rd_form rd) = [(''csrf_token'', ''tok'')] \<and> rd_disk rd = [(''u'', ''JPEG'')]"
    by code_simp
  then obtain rd where r: "sample_upload sample_limits [take 60 sample_form, drop 60 sample_form] = Inr rd"
      "mf_fields (rd_form rd) = [(''csrf_token'', ''tok'')]" "rd_disk rd = [(''u'', ''JPEG'')]"
    by (cases "sample_upload sample_limits [take 60 sample_form, drop 60 sample_form]") auto
  have "concat [take 60 sample_form, drop 60 sample_form] = sample_form" by simp
  then show ?thesis using streamed_form_exact [OF r(1)] r by auto
qed

section \<open>Refusals\<close>

definition refusals :: "py_error set" where
  "refusals = {BodyTooLargeError, TooManyFilesError, MultipartError ''the multipart body has too many parts'',
     MultipartError ''the multipart text fields are too large''}"

lemma event_refused:
  assumes "agrees decode uuid cfg s rd" "inside (fst s \<noteq> None) [e] \<noteq> None" "enough_room free cfg" "inj uuid"
    and "on_event decode uuid free cfg e rd = Inl x"
  shows "x \<in> refusals"
proof (cases e)
  case (PartStart n f t)
  then show ?thesis using assms(5) by (auto simp: on_start_def refusals_def Let_def split: if_splits)
next
  case (PartData d)
  then obtain n f t c ps where s: "s = (Some (n, f, t, c), ps)" "d \<noteq> []" using assms(2) by (cases s) (auto split: if_splits)
  have rg: "reading uuid cfg (n, f, t, c) rd" and w: "within_limits cfg (ps @ [(n, f, t, c)])" using assms(1) s by (simp_all add: agrees_def)
  show ?thesis
  proof (cases "is_upload cfg n f")
    case True
    obtain sf where sf: "rd_spool rd = Some sf" "spooled c sf" using rg True by (auto simp: reading_def)
    have "\<not> int (length (c @ d)) \<le> sl_max_file_bytes cfg"
    proof
      assume "int (length (c @ d)) \<le> sl_max_file_bytes cfg"
      then have "within_limits cfg (ps @ [(n, f, t, c @ d)])" using w True by (simp add: within_limits_snoc)
      then show False using data_upload(2) [OF assms(1) [unfolded s(1)] True s(2) _ assms(3,4)] assms(5) PartData by auto
    qed
    then show ?thesis using assms(5) PartData sf by (simp add: on_data_def write_spool_eq [OF sf(2)] refusals_def)
  next
    case False
    then have "rd_spool rd = None" using rg by (simp add: reading_def)
    then show ?thesis using assms(5) PartData by (auto simp: on_data_def refusals_def Let_def split: if_splits)
  qed
next
  case PartEnd
  then obtain p ps where s: "s = (Some p, ps)" using assms(2) by (cases s) (auto split: if_splits)
  show ?thesis
    using assms PartEnd s end_upload(2) [of decode uuid cfg p ps rd free] end_kept [of decode uuid cfg p ps rd free]
    by (cases "uploaded cfg p") auto
qed (use assms(5) in simp)

lemma events_refused:
  assumes "enough_room free cfg" "inj uuid"
  shows "agrees decode uuid cfg s rd \<Longrightarrow> inside (fst s \<noteq> None) es \<noteq> None \<Longrightarrow> on_events decode uuid free cfg es rd = Inl x \<Longrightarrow> x \<in> refusals"
proof (induction es arbitrary: s rd)
  case (Cons e es)
  obtain b where b: "inside (fst s \<noteq> None) [e] = Some b" "inside b es \<noteq> None" using inside_Cons [OF Cons.prems(2)] Cons.prems(2) by auto
  show ?case
  proof (cases "on_event decode uuid free cfg e rd")
    case (Inl y)
    then show ?thesis using event_refused [OF Cons.prems(1) _ assms Inl] Cons.prems(3) b(1) by simp
  next
    case (Inr rd1)
    then have "agrees decode uuid cfg (assemble e s) rd1" using event_sound [OF Cons.prems(1) _ Inr] b(1) by simp
    then show ?thesis using Cons.IH [of "assemble e s" rd1] Cons.prems(3) Inr b assemble_inside [OF b(1)] by simp
  qed
qed simp

lemma stream_refused:
  assumes "enough_room free cfg" "inj uuid"
  shows "feed_all chunks p = Inr (p', es) \<Longrightarrow> finish p' = Inr () \<Longrightarrow> agrees decode uuid cfg s rd \<Longrightarrow> fst s \<noteq> None \<longleftrightarrow> mp_state p = Content \<Longrightarrow>
     stream_loop decode uuid free cfg chunks n p rd = Inl x \<Longrightarrow> x \<in> refusals"
proof (induction chunks arbitrary: n p rd s es)
  case (Cons c chunks)
  obtain p1 e1 e2 where f: "feed c p = Inr (p1, e1)" "feed_all chunks p1 = Inr (p', e2)" using Cons.prems(1) by auto
  have i: "inside (fst s \<noteq> None) e1 = Some (mp_state p1 = Content)" using feed_inside [OF f(1)] Cons.prems(4) by simp
  show ?case
  proof (cases "int (n + length c) > sl_max_total_bytes cfg")
    case True
    then show ?thesis using Cons.prems(5) by (simp add: refusals_def)
  next
    case le: False
    show ?thesis
    proof (cases "on_events decode uuid free cfg e1 rd")
      case (Inl y)
      then have "y \<in> refusals" using events_refused [OF assms Cons.prems(3) _ Inl] i by simp
      then show ?thesis using Cons.prems(5) Inl le f by simp
    next
      case (Inr rd1)
      have "agrees decode uuid cfg (fold assemble e1 s) rd1" using events_sound [OF Cons.prems(3) _ Inr] i by simp
      moreover have "(fst (fold assemble e1 s) \<noteq> None) = (mp_state p1 = Content)" using fold_inside [OF i] by simp
      ultimately show ?thesis using Cons.IH [OF f(2) Cons.prems(2)] Cons.prems(5) Inr le f by simp
    qed
  qed
qed simp

text \<open>
  C38.  An upload is accepted exactly within the limits.  Where the body is well formed, the disk has
  room for a file above the watermark and file names do not repeat, the reader takes the form if
  and only if the bytes received, the number of files, the size of each file, the number of other
  parts and the text kept are within their limits, each equal to its limit included; otherwise it
  raises one of the four refusals and no other error.
\<close>

theorem upload_accepted_iff:
  assumes "multipart_boundary content_type = Some boundary" "read_events boundary chunks = Inr es" "chunks \<noteq> []"
    and "enough_room free cfg" "inj uuid"
  shows "case stream_multipart decode uuid free cfg content_type chunks of
      Inr rd \<Rightarrow> int (length (concat chunks)) \<le> sl_max_total_bytes cfg \<and> within_limits cfg (parts_of es)
    | Inl e \<Rightarrow> \<not> (int (length (concat chunks)) \<le> sl_max_total_bytes cfg \<and> within_limits cfg (parts_of es)) \<and> e \<in> refusals"
proof -
  obtain p where p: "feed_all chunks (new_parser boundary) = Inr (p, es)" "finish p = Inr ()" using assms(2) by (auto simp: read_events_def)
  note i = read_events_inside [OF p]
  have st: "stream_multipart decode uuid free cfg content_type chunks = stream_loop decode uuid free cfg chunks 0 (new_parser boundary) new_reader"
    using assms(1) by (simp add: stream_multipart_def)
  show ?thesis
  proof (cases "stream_multipart decode uuid free cfg content_type chunks")
    case (Inr rd)
    obtain b es' where s: "multipart_boundary content_type = Some b" "read_events b chunks = Inr es'"
        "agrees decode uuid cfg (None, parts_of es') rd" "chunks = [] \<or> int (length (concat chunks)) \<le> sl_max_total_bytes cfg"
      by (rule stream_parts [OF Inr])
    have "es' = es" using s assms by simp
    then show ?thesis using s assms(3) Inr by (simp add: agrees_def)
  next
    case (Inl e)
    have "\<not> (int (length (concat chunks)) \<le> sl_max_total_bytes cfg \<and> within_limits cfg (parts_of es))"
    proof
      assume l: "int (length (concat chunks)) \<le> sl_max_total_bytes cfg \<and> within_limits cfg (parts_of es)"
      then obtain rd where "on_events decode uuid free cfg es new_reader = Inr rd"
        using events_complete [OF assms(4,5) agrees_new, of es] i by auto
      then have "stream_loop decode uuid free cfg chunks 0 (new_parser boundary) new_reader = Inr rd"
        unfolding stream_loop_iff using p l by auto
      then show False using st Inl by simp
    qed
    moreover have "e \<in> refusals"
    proof (rule stream_refused [OF assms(4,5) p agrees_new])
      show "stream_loop decode uuid free cfg chunks 0 (new_parser boundary) new_reader = Inl e" using st Inl by simp
    qed (simp add: new_parser_def)
    ultimately show ?thesis using Inl by simp
  qed
qed

theorem upload_accepted_iff_witness:
  "(case sample_upload (sample_limits\<lparr>sl_max_file_bytes := 4\<rparr>) [sample_form] of Inr rd \<Rightarrow> True | Inl e \<Rightarrow> False) \<and>
   (case sample_upload (sample_limits\<lparr>sl_max_file_bytes := 3\<rparr>) [sample_form] of Inr rd \<Rightarrow> False | Inl e \<Rightarrow> e \<in> refusals)"
proof -
  have b: "multipart_boundary sample_type = Some ''B''" by code_simp
  let ?es = "[PartStart ''csrf_token'' None ''application/octet-stream'', PartData ''tok'', PartEnd,
      PartStart ''files'' (Some ''a.jpg'') ''image/jpeg'', PartData ''JPEG'', PartEnd, FormEnd]"
  have es: "read_events ''B'' [sample_form] = Inr ?es" by code_simp
  have inj: "inj (\<lambda>n. replicate n (CHR ''u''))" by (rule injI) simp
  have room: "enough_room (\<lambda>_. 0) (sample_limits\<lparr>sl_max_file_bytes := k\<rparr>)" for k by (simp add: enough_room_def sample_limits_def)
  note use = upload_accepted_iff [OF b es _ room inj, where decode = "\<lambda>b. b"]
  have "int (length sample_form) \<le> 1000" by code_simp
  moreover have "within_limits (sample_limits\<lparr>sl_max_file_bytes := 4\<rparr>) (parts_of ?es)" by code_simp
  moreover have "\<not> within_limits (sample_limits\<lparr>sl_max_file_bytes := 3\<rparr>) (parts_of ?es)" by code_simp
  ultimately show ?thesis using use [of 4] use [of 3]
    by (auto simp: sample_limits_def split: sum.splits)
qed

section \<open>The token at the head of the form\<close>

text \<open>The chunks of a body, as its messages carry them.\<close>

fun bodies :: "message list \<Rightarrow> bytes list" where
  "bodies [] = []"
| "bodies (Disconnect # messages) = []"
| "bodies (Body chunk more_body # messages) = chunk # (if more_body then bodies messages else [])"

lemma scan_Verdict [simp]: "fold (scan_event decode) es (Verdict v) = Verdict v"
  by (induction es) simp_all

lemma token_scanned:
  "first_part_loop decode messages p started v = Some tok \<Longrightarrow> feed_all (bodies messages) p = Inr (p', es) \<Longrightarrow>
     fold (scan_event decode) es (More started v) = Verdict (Some tok)"
proof (induction decode messages p started v arbitrary: es rule: first_part_loop.induct)
  case (3 decode chunk more_body messages p started v)
  obtain p1 e1 e2 where f: "feed chunk p = Inr (p1, e1)" "feed_all (if more_body then bodies messages else []) p1 = Inr (p', e2)" "es = e1 @ e2"
    using "3.prems"(2) by auto
  show ?case
  proof (cases "fold (scan_event decode) e1 (More started v)")
    case (More started' v')
    then have "more_body" "first_part_loop decode messages p1 started' v' = Some tok" using "3.prems"(1) f(1) by (auto split: if_splits)
    then show ?thesis using "3.IH" [OF f(1) refl More] f More by simp
  next
    case (Verdict r)
    then show ?thesis using "3.prems"(1) f by simp
  qed
qed simp_all

lemma parts_prefix: "\<exists>rest. snd (fold assemble es (cur, ps)) = ps @ rest"
proof (induction es arbitrary: cur ps)
  case (Cons e es)
  obtain cur' qs where a: "assemble e (cur, ps) = (cur', ps @ qs)" by (cases e; cases cur) simp_all
  then show ?case using Cons [of cur' "ps @ qs"] by auto
qed simp

lemma scan_inside:
  "inside True es \<noteq> None \<Longrightarrow> fold (scan_event decode) es (More True c) = Verdict (Some tok) \<Longrightarrow>
     \<exists>c' rest. tok = decode (slice_to max_field_bytes c') \<and> snd (fold assemble es (Some (n, f, t, c), [])) = (n, f, t, c') # rest"
proof (induction es arbitrary: c)
  case (Cons e es)
  show ?case
  proof (cases e)
    case (PartData d)
    then show ?thesis using Cons.IH [of "c @ d"] Cons.prems by (auto split: if_splits)
  next
    case PartEnd
    then have "tok = decode (slice_to max_field_bytes c)" using Cons.prems(2) by simp
    then show ?thesis using PartEnd parts_prefix [of es None "[(n, f, t, c)]"] by auto
  qed (use Cons.prems in simp_all)
qed simp

text \<open>
  C39.  The token that was checked is the token of the form.  If the middleware found a token at the
  head of a streamed upload, and the route accepts the body it is then handed, the first part of
  that body is the text field of the token, and the token found is its decoded content, cut at the
  limit of a field; no part comes before it and no file takes its name.
\<close>

theorem leading_token_is_field:
  assumes "streamed_first_part_token decode content_type messages = Some tok"
    and "stream_multipart decode uuid free cfg content_type (bodies messages) = Inr rd"
  shows "\<exists>boundary es t c rest. multipart_boundary content_type = Some boundary \<and>
    read_events boundary [concat (bodies messages)] = Inr es \<and>
    parts_of es = (csrf_form_field, None, t, c) # rest \<and> tok = decode (slice_to max_field_bytes c)"
proof -
  obtain boundary es where s: "multipart_boundary content_type = Some boundary" "read_events boundary (bodies messages) = Inr es"
      "inside False es = Some False"
    by (rule stream_parts [OF assms(2)])
  obtain p where p: "feed_all (bodies messages) (new_parser boundary) = Inr (p, es)" using s(2) by (auto simp: read_events_def)
  have "first_part_loop decode messages (new_parser boundary) False [] = Some tok" using assms(1) s(1) by (simp add: streamed_first_part_token_def)
  from token_scanned [OF this p] have sc: "fold (scan_event decode) es (More False []) = Verdict (Some tok)" .
  then obtain e es1 where es: "es = e # es1" by (cases es) simp_all
  obtain t where e: "e = PartStart csrf_form_field None t" "fold (scan_event decode) es1 (More True []) = Verdict (Some tok)"
    using sc s(3) es by (cases e) (auto split: if_splits)
  have "inside True es1 \<noteq> None" using s(3) es e(1) by simp
  from scan_inside [OF this e(2), of csrf_form_field None t]
  have "\<exists>c rest. tok = decode (slice_to max_field_bytes c) \<and> parts_of es = (csrf_form_field, None, t, c) # rest"
    by (simp add: parts_of_def es e(1))
  moreover have "bodies messages \<noteq> []" using s(2) by (auto simp: read_events_def finish_def new_parser_def)
  ultimately show ?thesis using one_piece [OF s(2)] s(1) by metis
qed

definition sample_messages :: "message list" where
  "sample_messages = [Body (take 70 sample_form) True, Body (drop 70 sample_form) False]"

theorem leading_token_is_field_witness:
  "streamed_first_part_token (\<lambda>b. b) sample_type sample_messages = Some ''tok'' \<and>
   (\<exists>boundary es t c rest. multipart_boundary sample_type = Some boundary \<and>
      read_events boundary [concat (bodies sample_messages)] = Inr es \<and>
      parts_of es = (csrf_form_field, None, t, c) # rest \<and> ''tok'' = slice_to max_field_bytes c)"
proof -
  have a: "streamed_first_part_token (\<lambda>b. b) sample_type sample_messages = Some ''tok''" by code_simp
  have "case sample_upload sample_limits (bodies sample_messages) of Inl e \<Rightarrow> False | Inr rd \<Rightarrow> True" by code_simp
  then obtain rd where "sample_upload sample_limits (bodies sample_messages) = Inr rd"
    by (cases "sample_upload sample_limits (bodies sample_messages)") auto
  then show ?thesis using leading_token_is_field [OF a] a by simp
qed

end
