(* ===== verification/Csrf.thy ===== *)
theory Csrf
  imports Multipart "HOL-Library.Word"
begin

text \<open>
  The tokens against cross-site requests (\<open>security/csrf.py\<close>): a token is the session's secret
  under a fresh one-time pad, in base64url without padding, and a presented token is unmasked and
  compared with the secret.  A string is its list of code points, a byte a word of eight bits.
\<close>

unbundle bit_operations_syntax

type_synonym pystr = "nat list"
type_synonym byte = "8 word"

section \<open>UTF-8 and base64\<close>

text \<open>\<open>str.encode\<close> with \<open>surrogatepass\<close>: a lone surrogate is encoded like any other code point.\<close>

definition utf8_char :: "nat \<Rightarrow> nat list" where
  "utf8_char c =
     (if c < 128 then [c]
      else if c < 2048 then [192 + c div 64, 128 + c mod 64]
      else if c < 65536 then [224 + c div 4096, 128 + c div 64 mod 64, 128 + c mod 64]
      else [240 + c div 262144, 128 + c div 4096 mod 64, 128 + c div 64 mod 64, 128 + c mod 64])"

definition secret_bytes :: "pystr \<Rightarrow> byte list" where
  "secret_bytes secret = map word_of_nat (concat (map utf8_char secret))"

definition sextet_char :: "nat \<Rightarrow> nat" where
  "sextet_char n =
     (if n < 26 then 65 + n else if n < 52 then 97 + (n - 26) else if n < 62 then 48 + (n - 52) else if n = 62 then 45 else 95)"

definition masked_char :: "nat \<Rightarrow> bool" where
  "masked_char c \<longleftrightarrow> (65 \<le> c \<and> c \<le> 90) \<or> (97 \<le> c \<and> c \<le> 122) \<or> (48 \<le> c \<and> c \<le> 57) \<or> c = 95 \<or> c = 45"

definition char_sextet :: "nat \<Rightarrow> nat" where
  "char_sextet c =
     (if 65 \<le> c \<and> c \<le> 90 then c - 65 else if 97 \<le> c \<and> c \<le> 122 then c - 71
      else if 48 \<le> c \<and> c \<le> 57 then c + 4 else if c = 45 then 62 else 63)"

text \<open>Bytes as groups of six bits, the last group filled with zeros; and back, the spare bits dropped.\<close>

fun sextets :: "nat list \<Rightarrow> nat list" where
  "sextets [] = []"
| "sextets [a] = [a div 4, a mod 4 * 16]"
| "sextets [a, b] = [a div 4, a mod 4 * 16 + b div 16, b mod 16 * 4]"
| "sextets (a # b # c # bs) = [a div 4, a mod 4 * 16 + b div 16, b mod 16 * 4 + c div 64, c mod 64] @ sextets bs"

fun octets :: "nat list \<Rightarrow> nat list option" where
  "octets [] = Some []"
| "octets [s] = None"
| "octets [s, t] = Some [s * 4 + t div 16]"
| "octets [s, t, u] = Some [s * 4 + t div 16, t mod 16 * 16 + u div 4]"
| "octets (s # t # u # v # ss) =
     map_option (\<lambda>bs. [s * 4 + t div 16, t mod 16 * 16 + u div 4, u mod 4 * 64 + v] @ bs) (octets ss)"

text \<open>
  \<open>urlsafe_b64encode\<close> pads with the sign for equality to a multiple of four; \<open>rstrip\<close> takes the padding off.
  \<open>urlsafe_b64decode\<close> is only given characters of the alphabet followed by padding.
\<close>

definition padding :: "nat \<Rightarrow> pystr" where
  "padding n = replicate ((4 - n mod 4) mod 4) 61"

definition urlsafe_b64encode :: "byte list \<Rightarrow> pystr" where
  "urlsafe_b64encode blob = (let s = map sextet_char (sextets (map unat blob)) in s @ padding (length s))"

definition rstrip_padding :: "pystr \<Rightarrow> pystr" where
  "rstrip_padding s = rev (dropWhile (\<lambda>c. c = 61) (rev s))"

definition urlsafe_b64decode :: "pystr \<Rightarrow> byte list option" where
  "urlsafe_b64decode s =
     (if length s mod 4 \<noteq> 0 then None
      else map_option (map word_of_nat) (octets (map char_sextet (takeWhile (\<lambda>c. c \<noteq> 61) s))))"

section \<open>Tokens\<close>

definition xor_bytes :: "byte list \<Rightarrow> byte list \<Rightarrow> byte list res" where
  "xor_bytes left right =
     (if length left \<noteq> length right then Inl (ValueError ''zip'' ''strict'') else Inr (map2 (\<lambda>a b. a XOR b) left right))"

definition masked_length :: "nat \<Rightarrow> nat" where
  "masked_length secret_length = (4 * 2 * secret_length + 2) div 3"

text \<open>\<open>token_bytes n\<close> stands for \<open>secrets.token_bytes\<close>.\<close>

definition mask_secret :: "(nat \<Rightarrow> byte list) \<Rightarrow> pystr \<Rightarrow> pystr res" where
  "mask_secret token_bytes secret =
     (let raw = secret_bytes secret; pad = token_bytes (length raw)
      in rbind (xor_bytes pad raw) (\<lambda>x. Inr (rstrip_padding (urlsafe_b64encode (pad @ x)))))"

definition unmask :: "pystr \<Rightarrow> nat \<Rightarrow> byte list option res" where
  "unmask presented secret_length =
     (if length presented \<noteq> masked_length secret_length then Inr None
      else if presented = [] \<or> (\<exists>c \<in> set presented. \<not> masked_char c) then Inr None
      else (case urlsafe_b64decode (presented @ padding (length presented)) of
          None \<Rightarrow> Inr None
        | Some blob \<Rightarrow>
            if length blob \<noteq> 2 * secret_length then Inr None
            else rbind (xor_bytes (take secret_length blob) (drop secret_length blob)) (\<lambda>x. Inr (Some x))))"

text \<open>The secret of a session row, or none; or the secret itself.\<close>

definition issue_csrf :: "(nat \<Rightarrow> byte list) \<Rightarrow> pystr option + pystr \<Rightarrow> pystr res" where
  "issue_csrf token_bytes session_or_secret =
     (case session_or_secret of
        Inr secret \<Rightarrow> mask_secret token_bytes secret
      | Inl None \<Rightarrow> Inl (ValueError ''issue_csrf'' ''Session has no CSRF secret to issue a token from.'')
      | Inl (Some secret) \<Rightarrow>
          if secret = [] then Inl (ValueError ''issue_csrf'' ''Session has no CSRF secret to issue a token from.'')
          else mask_secret token_bytes secret)"

definition verify_csrf :: "pystr option \<Rightarrow> pystr option \<Rightarrow> bool res" where
  "verify_csrf expected presented =
     (case (expected, presented) of
        (Some e, Some p) \<Rightarrow>
          if e = [] \<or> p = [] then Inr False
          else rbind (unmask p (length (secret_bytes e))) (\<lambda>candidate.
                 Inr (case candidate of None \<Rightarrow> False | Some c \<Rightarrow> c = secret_bytes e))
      | _ \<Rightarrow> Inr False)"

definition rejected_fetch_sites :: "string list" where
  "rejected_fetch_sites = [''cross-site'', ''same-site'']"

text \<open>The value of the \<open>sec-fetch-site\<close> header, if the request has one.\<close>

definition fetch_site_rejected :: "string option \<Rightarrow> bool" where
  "fetch_site_rejected header =
     (case header of
        None \<Rightarrow> False
      | Some v \<Rightarrow> v \<noteq> [] \<and> py_lower (py_strip v) \<in> set rejected_fetch_sites)"

section \<open>The coding is undone\<close>

lemma char_sextet_char: "n < 64 \<Longrightarrow> char_sextet (sextet_char n) = n \<and> masked_char (sextet_char n) \<and> sextet_char n \<noteq> 61"
  by (auto simp: sextet_char_def char_sextet_def masked_char_def)

lemma masked_char_pad: "masked_char c \<Longrightarrow> c \<noteq> 61"
  by (auto simp: masked_char_def)

lemma group_bounds:
  fixes a b c :: nat
  assumes "a < 256" "b < 256" "c < 256"
  shows "a div 4 < 64" "a mod 4 * 16 + b div 16 < 64" "b mod 16 * 4 + c div 64 < 64" "a mod 4 * 16 < 64" "b mod 16 * 4 < 64" "c mod 64 < 64"
proof -
  have "a div 4 < 64" "b div 16 < 16" "c div 64 < 4" using assms by (simp_all add: less_mult_imp_div_less)
  moreover have "a mod 4 < 4" "b mod 16 < 16" "c mod 64 < 64" by simp_all
  ultimately show "a div 4 < 64" "a mod 4 * 16 + b div 16 < 64" "b mod 16 * 4 + c div 64 < 64" "a mod 4 * 16 < 64" "b mod 16 * 4 < 64"
    "c mod 64 < 64" by linarith+
qed

lemma group_back:
  fixes a b c :: nat
  shows "b < 256 \<Longrightarrow> a div 4 * 4 + (a mod 4 * 16 + b div 16) div 16 = a" "a div 4 * 4 + a mod 4 * 16 div 16 = a"
    "b < 256 \<Longrightarrow> c < 256 \<Longrightarrow> (a mod 4 * 16 + b div 16) mod 16 * 16 + (b mod 16 * 4 + c div 64) div 4 = b"
    "b < 256 \<Longrightarrow> (a mod 4 * 16 + b div 16) mod 16 * 16 + b mod 16 * 4 div 4 = b"
    "c < 256 \<Longrightarrow> (b mod 16 * 4 + c div 64) mod 4 * 64 + c mod 64 = c"
  by (simp_all add: less_mult_imp_div_less)

lemma sextets_bounded: "\<forall>b \<in> set bs. b < 256 \<Longrightarrow> \<forall>s \<in> set (sextets bs). s < 64"
proof (induction bs rule: sextets.induct)
  case (3 a b)
  then show ?case using group_bounds [of a b 0] by simp
next
  case (4 a b c bs)
  then show ?case using group_bounds [of a b c] by simp
qed (simp_all add: less_mult_imp_div_less)

lemma octets_sextets: "\<forall>b \<in> set bs. b < 256 \<Longrightarrow> octets (sextets bs) = Some bs"
proof (induction bs rule: sextets.induct)
  case (3 a b)
  then have "b < 256" by simp
  then show ?case by (simp only: sextets.simps octets.simps group_back)
next
  case (4 a b c bs)
  then have "b < 256" "c < 256" "octets (sextets bs) = Some bs" by simp_all
  then show ?case by (simp only: sextets.simps octets.simps append.simps group_back option.map)
qed simp_all

lemma length_sextets: "length (sextets bs) = (4 * length bs + 2) div 3"
  by (induction bs rule: sextets.induct) auto

lemma takeWhile_padded: "(\<And>c. c \<in> set s \<Longrightarrow> c \<noteq> 61) \<Longrightarrow> takeWhile (\<lambda>c. c \<noteq> 61) (s @ padding n) = s"
  by (simp add: padding_def takeWhile_append2 takeWhile_replicate)

lemma rstrip_padded: "(\<And>c. c \<in> set s \<Longrightarrow> c \<noteq> 61) \<Longrightarrow> rstrip_padding (s @ padding n) = s"
proof -
  assume a: "\<And>c. c \<in> set s \<Longrightarrow> c \<noteq> 61"
  have "dropWhile (\<lambda>c. c = 61) (rev s) = rev s" using a by (cases "rev s") (auto simp: rev_eq_Cons_iff)
  moreover have "dropWhile (\<lambda>c. c = 61) (replicate k 61 @ xs) = dropWhile (\<lambda>c. c = 61) xs" for k and xs :: pystr by (induction k) simp_all
  ultimately show ?thesis by (simp add: rstrip_padding_def padding_def)
qed

lemma padded_length: "length (s @ padding (length s)) mod 4 = 0"
proof -
  have "(n + (4 - n mod 4) mod 4) mod 4 = (n mod 4 + (4 - n mod 4)) mod 4" for n :: nat
    by (simp only: mod_add_left_eq mod_add_right_eq)
  moreover have "n mod 4 + (4 - n mod 4) = 4" for n :: nat using mod_less_divisor [of 4 n] by linarith
  ultimately show ?thesis by (simp add: padding_def)
qed

lemma unat_byte: "unat (b :: byte) < 256"
proof -
  have "unat b < 2 ^ LENGTH(8)" by (rule unsigned_less)
  then show ?thesis by simp
qed

lemma b64_roundtrip:
  defines "enc \<equiv> \<lambda>blob. map sextet_char (sextets (map unat blob))"
  shows "rstrip_padding (urlsafe_b64encode blob) = enc blob"
    and "length (enc blob) = (4 * length blob + 2) div 3"
    and "c \<in> set (enc blob) \<Longrightarrow> masked_char c"
    and "urlsafe_b64decode (enc blob @ padding (length (enc blob))) = Some blob"
proof -
  have b: "\<forall>b \<in> set (map unat blob). b < 256" using unat_byte by auto
  note s = sextets_bounded [OF b]
  have ok: "masked_char c" if "c \<in> set (enc blob)" for c using that s char_sextet_char by (auto simp: enc_def)
  then have pad: "\<And>c. c \<in> set (enc blob) \<Longrightarrow> c \<noteq> 61" using masked_char_pad by blast
  show "c \<in> set (enc blob) \<Longrightarrow> masked_char c" by (rule ok)
  show "rstrip_padding (urlsafe_b64encode blob) = enc blob"
    using rstrip_padded [of "enc blob" "length (enc blob)", OF pad] by (simp add: urlsafe_b64encode_def enc_def)
  show "length (enc blob) = (4 * length blob + 2) div 3" by (simp add: enc_def length_sextets)
  have "map char_sextet (enc blob) = sextets (map unat blob)"
    unfolding enc_def map_map by (rule map_idI) (use s char_sextet_char in auto)
  then show "urlsafe_b64decode (enc blob @ padding (length (enc blob))) = Some blob"
    using takeWhile_padded [of "enc blob" "length (enc blob)", OF pad] octets_sextets [OF b] padded_length [of "enc blob"]
    by (simp add: urlsafe_b64decode_def map_idI comp_def)
qed

lemma xor_back: "length a = length b \<Longrightarrow> map2 (\<lambda>x y. x XOR y) a (map2 (\<lambda>x y. x XOR y) a b) = (b :: byte list)"
proof (induction a b rule: list_induct2)
  case (Cons x xs y ys)
  have "x XOR (x XOR y) = y" by (simp flip: xor.assoc)
  then show ?case using Cons by simp
qed simp

section \<open>The encoding of a secret\<close>

lemma code_point_digits:
  fixes c :: nat
  shows "c div 64 * 64 + c mod 64 = c" "c div 4096 * 4096 + c div 64 mod 64 * 64 + c mod 64 = c"
    "c div 262144 * 262144 + c div 4096 mod 64 * 4096 + c div 64 mod 64 * 64 + c mod 64 = c"
proof -
  have 1: "c div 64 * 64 + c mod 64 = c" by simp
  have "c div 64 div 64 * 64 + c div 64 mod 64 = c div 64" by (rule div_mult_mod_eq)
  moreover have "c div 64 div 64 = c div 4096" by (simp add: div_mult2_eq [symmetric])
  ultimately have 2: "c div 4096 * 64 + c div 64 mod 64 = c div 64" by simp
  have "c div 4096 div 64 * 64 + c div 4096 mod 64 = c div 4096" by (rule div_mult_mod_eq)
  moreover have "c div 4096 div 64 = c div 262144" by (simp add: div_mult2_eq [symmetric])
  ultimately have 3: "c div 262144 * 64 + c div 4096 mod 64 = c div 4096" by simp
  show "c div 64 * 64 + c mod 64 = c" by (rule 1)
  show "c div 4096 * 4096 + c div 64 mod 64 * 64 + c mod 64 = c" using 1 2 by linarith
  show "c div 262144 * 262144 + c div 4096 mod 64 * 4096 + c div 64 mod 64 * 64 + c mod 64 = c" using 1 2 3 by linarith
qed

text \<open>The number of bytes of a code point can be read off the first.\<close>

lemma utf8_char_cases:
  assumes "c < 1114112"
  obtains "c < 128" "utf8_char c = [c]"
  | "192 + c div 64 < 224" "utf8_char c = [192 + c div 64, 128 + c mod 64]"
  | "224 + c div 4096 < 240" "utf8_char c = [224 + c div 4096, 128 + c div 64 mod 64, 128 + c mod 64]"
  | "240 + c div 262144 < 256" "utf8_char c = [240 + c div 262144, 128 + c div 4096 mod 64, 128 + c div 64 mod 64, 128 + c mod 64]"
proof -
  consider "c < 128" | "128 \<le> c" "c < 2048" | "2048 \<le> c" "c < 65536" | "65536 \<le> c" by linarith
  then show thesis
  proof cases
    case 2
    then have "c div 64 < 32" by (simp add: less_mult_imp_div_less)
    then show ?thesis using that(2) 2 by (simp add: utf8_char_def)
  next
    case 3
    then have "c div 4096 < 16" by (simp add: less_mult_imp_div_less)
    then show ?thesis using that(3) 3 by (simp add: utf8_char_def)
  next
    case 4
    then have "c div 262144 < 16" using assms by (simp add: less_mult_imp_div_less)
    then show ?thesis using that(4) 4 by (simp add: utf8_char_def)
  qed (use that(1) in \<open>simp add: utf8_char_def\<close>)
qed

definition utf8_first :: "nat list \<Rightarrow> nat \<times> nat list" where
  "utf8_first bs =
     (let b = bs ! 0; x = bs ! 1 - 128; y = bs ! 2 - 128; z = bs ! 3 - 128
      in if b < 128 then (b, drop 1 bs)
         else if b < 224 then ((b - 192) * 64 + x, drop 2 bs)
         else if b < 240 then ((b - 224) * 4096 + x * 64 + y, drop 3 bs)
         else ((b - 240) * 262144 + x * 4096 + y * 64 + z, drop 4 bs))"

lemma utf8_first_char: "c < 1114112 \<Longrightarrow> utf8_first (utf8_char c @ r) = (c, r)"
proof (erule utf8_char_cases)
  assume "240 + c div 262144 < 256" "utf8_char c = [240 + c div 262144, 128 + c div 4096 mod 64, 128 + c div 64 mod 64, 128 + c mod 64]"
  then show ?thesis using code_point_digits(3) [of c] by (simp add: utf8_first_def Let_def numeral_2_eq_2 numeral_3_eq_3)
next
  assume "224 + c div 4096 < 240" "utf8_char c = [224 + c div 4096, 128 + c div 64 mod 64, 128 + c mod 64]"
  then show ?thesis using code_point_digits(2) [of c] by (simp add: utf8_first_def Let_def numeral_2_eq_2)
next
  assume "192 + c div 64 < 224" "utf8_char c = [192 + c div 64, 128 + c mod 64]"
  then show ?thesis using code_point_digits(1) [of c] by (simp add: utf8_first_def Let_def)
qed (simp add: utf8_first_def)

lemma utf8_char_eq:
  assumes "c < 1114112" "d < 1114112" "utf8_char c @ r = utf8_char d @ r'"
  shows "c = d \<and> r = r'"
proof -
  have "(c, r) = (d, r')"
    by (rule trans [OF utf8_first_char [OF assms(1), of r, symmetric]]) (simp only: assms(3) utf8_first_char [OF assms(2)])
  then show ?thesis by simp
qed

definition valid_str :: "pystr \<Rightarrow> bool" where
  "valid_str s \<longleftrightarrow> (\<forall>c \<in> set s. c < 1114112)"

lemma utf8_char_nonempty: "utf8_char c \<noteq> []"
  by (simp add: utf8_char_def)

lemma utf8_inj: "valid_str s \<Longrightarrow> valid_str t \<Longrightarrow> concat (map utf8_char s) = concat (map utf8_char t) \<Longrightarrow> s = t"
proof (induction s arbitrary: t)
  case Nil
  then show ?case using utf8_char_nonempty by (cases t) auto
next
  case (Cons c s)
  then obtain d t' where t: "t = d # t'" using utf8_char_nonempty by (cases t) auto
  have "c = d \<and> concat (map utf8_char s) = concat (map utf8_char t')"
    using utf8_char_eq [of c d "concat (map utf8_char s)" "concat (map utf8_char t')"] Cons.prems t by (simp add: valid_str_def)
  then show ?case using Cons.IH [of t'] Cons.prems(1,2) t by (simp add: valid_str_def)
qed

lemma utf8_bytes: "valid_str s \<Longrightarrow> \<forall>b \<in> set (concat (map utf8_char s)). b < 256"
proof -
  have m: "x mod 64 < 128" for x :: nat using mod_less_divisor [of 64 x] by linarith
  have "c < 1114112 \<Longrightarrow> b \<in> set (utf8_char c) \<Longrightarrow> b < 256" for b c
    by (erule utf8_char_cases) (auto simp: m)
  then show "valid_str s \<Longrightarrow> ?thesis" by (auto simp: valid_str_def)
qed

lemma secret_bytes_inj:
  assumes "valid_str s" "valid_str t" "secret_bytes s = secret_bytes t"
  shows "s = t"
proof -
  have u: "map unat (secret_bytes s) = concat (map utf8_char s)" if "valid_str s" for s
    unfolding secret_bytes_def map_map by (rule map_idI) (use utf8_bytes [OF that] in \<open>auto simp: unat_of_nat\<close>)
  show ?thesis using utf8_inj [OF assms(1,2)] u [OF assms(1)] u [OF assms(2)] assms(3) by simp
qed

lemma secret_bytes_length: "length s \<le> length (secret_bytes s)"
proof (induction s)
  case (Cons c s)
  have "1 \<le> length (utf8_char c)" by (simp add: utf8_char_def)
  then show ?case using Cons by (simp add: secret_bytes_def)
qed simp

section \<open>What a token proves\<close>

lemma masked_length_mono: "m < n \<Longrightarrow> masked_length m < masked_length n"
proof -
  assume "m < n"
  then have "(4 * 2 * m + 2) + 3 \<le> 4 * 2 * n + 2" by simp
  from div_le_mono [OF this, of 3] show ?thesis by (simp add: masked_length_def)
qed

lemma masked_length_inj: "masked_length m = masked_length n \<Longrightarrow> m = n"
  using masked_length_mono by (metis less_irrefl linorder_neqE_nat)

lemma masked_length_greater: "0 < n \<Longrightarrow> n < masked_length n"
proof -
  assume "0 < n"
  then have "Suc n * 3 \<le> 4 * 2 * n + 2" by simp
  from div_le_mono [OF this, of 3] show ?thesis unfolding masked_length_def by simp
qed

lemma secret_bytes_pos: "secret \<noteq> [] \<Longrightarrow> 0 < length (secret_bytes secret)"
  using secret_bytes_length [of secret] by (cases secret) auto

lemma unmask_total: "\<exists>r. unmask presented n = Inr r"
proof -
  have "rbind (xor_bytes (take n blob) (drop n blob)) (\<lambda>x. Inr (Some x)) = Inr (Some (map2 (\<lambda>a b. a XOR b) (take n blob) (drop n blob)))"
    if "length blob = 2 * n" for blob using that by (simp add: xor_bytes_def)
  then show ?thesis by (auto simp: unmask_def split: option.splits)
qed

text \<open>A malformed value is refused, it never raises.\<close>

lemma verify_csrf_total: "\<exists>b. verify_csrf expected presented = Inr b"
proof -
  have "\<exists>b. rbind (unmask p n) (\<lambda>candidate. Inr (case candidate of None \<Rightarrow> False | Some c \<Rightarrow> c = e)) = Inr b" for p n e
    using unmask_total [of p n] by auto
  then show ?thesis by (auto simp: verify_csrf_def split: option.splits)
qed

lemma unmask_length: "unmask presented n = Inr (Some x) \<Longrightarrow> length presented = masked_length n"
  by (auto simp: unmask_def split: if_splits)

lemma unmask_blob:
  assumes "length presented = masked_length n" "presented \<noteq> []" "\<forall>c \<in> set presented. masked_char c"
    "urlsafe_b64decode (presented @ padding (length presented)) = Some (pad @ x)" "length pad = n" "length x = n"
  shows "unmask presented n = Inr (Some (map2 (\<lambda>a b. a XOR b) pad x))"
  using assms by (simp add: unmask_def xor_bytes_def)

lemma issued_token:
  assumes "length (token_bytes (length (secret_bytes secret))) = length (secret_bytes secret)" "secret \<noteq> []"
  obtains tok where "issue_csrf token_bytes (Inr secret) = Inr tok" "length tok = masked_length (length (secret_bytes secret))"
    "unmask tok (length (secret_bytes secret)) = Inr (Some (secret_bytes secret))"
proof -
  define raw where "raw = secret_bytes secret"
  define pad where "pad = token_bytes (length raw)"
  define x where "x = map2 (\<lambda>a b. a XOR b) pad raw"
  define tok where "tok = map sextet_char (sextets (map unat (pad @ x)))"
  have lp: "length pad = length raw" using assms(1) by (simp add: pad_def raw_def)
  have lx: "length x = length raw" using lp by (simp add: x_def)
  note b = b64_roundtrip [where blob = "pad @ x", folded tok_def]
  have i: "issue_csrf token_bytes (Inr secret) = Inr tok"
    using lp b(1) by (simp add: issue_csrf_def mask_secret_def xor_bytes_def Let_def flip: raw_def pad_def x_def)
  have l: "length tok = masked_length (length raw)" using b(2) lp lx by (simp add: masked_length_def)
  have ne: "tok \<noteq> []" using l masked_length_greater [OF secret_bytes_pos [OF assms(2)]] by (auto simp: raw_def)
  have "unmask tok (length raw) = Inr (Some (map2 (\<lambda>a b. a XOR b) pad x))"
    by (rule unmask_blob [OF l ne _ b(4) lp lx]) (use b(3) in blast)
  also have "map2 (\<lambda>a b. a XOR b) pad x = raw" unfolding x_def by (rule xor_back [OF lp])
  finally show thesis using that i l by (simp add: raw_def)
qed

text \<open>
  C40.  A token proves its own secret and no other.  Whatever the pad drawn, a token can be issued for every
  secret that is not empty; all tokens of a secret have the same length; and the token is accepted for a
  session exactly when the session's secret is the one it was issued for.  The bare secret, presented
  in place of a token, is refused.
\<close>

theorem issued_token_binds:
  assumes "\<And>n. length (token_bytes n) = n" "secret \<noteq> []" "valid_str secret" "valid_str expected"
  shows "\<exists>tok. issue_csrf token_bytes (Inr secret) = Inr tok \<and> length tok = masked_length (length (secret_bytes secret)) \<and>
    verify_csrf (Some expected) (Some tok) = Inr (expected = secret) \<and> verify_csrf (Some secret) (Some secret) = Inr False"
proof -
  let ?n = "\<lambda>s. length (secret_bytes s)"
  obtain tok where tok: "issue_csrf token_bytes (Inr secret) = Inr tok" "length tok = masked_length (?n secret)"
      "unmask tok (?n secret) = Inr (Some (secret_bytes secret))"
    by (rule issued_token [of token_bytes secret]) (use assms(1,2) in auto)
  have pos: "?n secret < masked_length (?n secret)" by (rule masked_length_greater [OF secret_bytes_pos [OF assms(2)]])
  then have ne: "tok \<noteq> []" using tok(2) by auto
  have "verify_csrf (Some expected) (Some tok) = Inr (expected = secret)"
  proof (cases "?n expected = ?n secret")
    case True
    then have "expected \<noteq> []" using secret_bytes_pos [OF assms(2)] by (auto simp: secret_bytes_def)
    moreover have "secret_bytes secret = secret_bytes expected \<longleftrightarrow> expected = secret" using secret_bytes_inj [OF assms(3,4)] by auto
    ultimately show ?thesis using True tok(3) ne by (simp add: verify_csrf_def)
  next
    case False
    then have "length tok \<noteq> masked_length (?n expected)" using masked_length_inj tok(2) by auto
    then have "unmask tok (?n expected) = Inr None" by (simp add: unmask_def)
    then show ?thesis using False by (auto simp: verify_csrf_def)
  qed
  moreover have "length secret \<noteq> masked_length (?n secret)" using pos secret_bytes_length [of secret] by linarith
  then have "verify_csrf (Some secret) (Some secret) = Inr False" by (simp add: verify_csrf_def unmask_def)
  ultimately show ?thesis using tok by blast
qed

text \<open>Two secrets of two code points each, one of them outside ASCII.\<close>

theorem issued_token_binds_witness:
  "\<exists>tok. issue_csrf (\<lambda>n. replicate n 170) (Inr [107, 233]) = Inr tok \<and> length tok = 8 \<and>
    verify_csrf (Some [107, 234]) (Some tok) = Inr False \<and> verify_csrf (Some [107, 233]) (Some [107, 233]) = Inr False"
proof -
  have v: "valid_str [107, 233]" "valid_str [107, 234]" by (simp_all add: valid_str_def)
  have "masked_length (length (secret_bytes [107, 233])) = 8" by (simp add: masked_length_def secret_bytes_def utf8_char_def)
  moreover note issued_token_binds [OF _ _ v, of "\<lambda>n. replicate n 170"]
  ultimately show ?thesis by simp
qed

text \<open>
  The decoder drops the spare bits of the last character, so a token has variants that are accepted
  though they were never issued: with a secret of one byte, the last of three characters has two spare bits.
\<close>

lemma spare_bits_ignored:
  "issue_csrf (\<lambda>n. replicate n 0) (Inr [107]) = Inr [65, 71, 115]"
  "verify_csrf (Some [107]) (Some [65, 71, 115]) = Inr True" "verify_csrf (Some [107]) (Some [65, 71, 116]) = Inr True"
  by code_simp+

end
