(* ===== verification/Spec2Isabelle.thy ===== *)
theory Spec2Isabelle
  imports Gate_Scan Anchor_Fire Next_Due Redaction Event_Log Notification Dispatcher Login_Throttle Attempt_Limiter Idempotency Render_Lifecycle Disk_Monitor Order_Restored Upload_Form Csrf
begin

text \<open>
  Verification of Timelapse Manager, a service that captures images from network cameras on a
  schedule, keeps them as frames of projects, and renders them to videos.  Source paths below
  are relative to \<open>src/src/timelapse_manager/\<close>.

  \<^bold>\<open>The program and how its parts interact.\<close>  A capture loop asks the schedule gate, the exact-time
  anchors and the free-space gate whether and when to capture.  The frame writer puts the image on disk and
  records its row; the frame store edits, hides and deletes frames, and a commit hook keeps each project in
  order of time.  Whatever happens is logged as an event, its secrets redacted first.  A dispatcher
  polls the event table and delivers notifications; alerts are cleared and old events pruned in the
  same table.  A render worker claims jobs and encodes them.  The web layer reads upload forms as a stream,
  checks tokens against cross-site requests, replays repeated mutations, and throttles logins.

  \<^bold>\<open>Conventions.\<close>  A fallible operation returns \<open>py_error + 'a\<close> (\<open>Inl\<close> the exception raised); theory Prelude
  has this type, the Python values of a JSON document and the string functions used.  A database
  table is the list of its rows in id order, a dict an association list, an instant a number of
  microseconds.  An operation of a class is a function on the record of its fields.  Code that is not in
  the repository is an argument: the zone database and the sun positions (record \<open>world\<close>), \<open>uuid4\<close>, SHA-256,
  \<open>realpath\<close> and \<open>stat\<close>, the free space of the disk, the outcome of a send or of an encode, the order in
  which SQLite updates rows.  Concurrent code is a step relation whose steps are the stretches between two
  awaits or the single transactions; the invariants hold after any sequence of steps.

  \<^bold>\<open>Theories, sources and what is shown.\<close>

  \<^item> Zone_Time: the conversions of \<open>datetime\<close> and \<open>zoneinfo\<close> between UTC and wall time (PEP 495).
  \<^item> Schedule_Gate and Gate_Scan (\<open>capture/schedule.py\<close>): \<open>parse_schedule\<close>, the gate at an instant,
    \<open>next_transition\<close>, \<open>open_stretches\<close>.  Parsed schedules are well formed; the window test is the documented one;
    both scans are exact where the zone keeps one offset.  The locale \<open>piecewise_gate\<close> is the contract between a
    gate and its candidate edges.  A lemma shows the behaviour in a daylight-saving gap.
  \<^item> Geo (\<open>capture/geo.py\<close>): coordinates of a camera and the zone they lie in.
  \<^item> Anchors and Anchor_Fire (\<open>capture/anchors.py\<close>): the stored list survives a round trip; due decisions and
    the next wake-up are exact.
  \<^item> Next_Due (\<open>capture/next_due.py\<close>, \<open>capture/cadence.py\<close>): the next capture lies in the campaign, the missed-anchor
    signal and the planned captures per day are exact.
  \<^item> Redaction (\<open>logging.py\<close>): no secret is left in free text or structured values, for the patterns the code has.
  \<^item> Event_Log (\<open>monitoring/events.py\<close>, \<open>alerts.py\<close>, \<open>event_retention.py\<close>, \<open>db/batched_delete.py\<close>): retention keeps what
    is protected; paging of the audit log is complete.
  \<^item> Notification and Dispatcher (\<open>monitoring/routing.py\<close>, \<open>monitoring/dispatcher.py\<close>): retries are bounded,
    debounced sends are spaced, every event is dispatched at least once across crashes, polling makes progress, and
    auto-clear does not depend on the order of a batch.
  \<^item> Sliding_Budget, Login_Throttle and Attempt_Limiter (\<open>security/throttle.py\<close>, \<open>security/attempt_limiter.py\<close>): the
    locale \<open>sliding_budget\<close> bounds the attempts granted in a window; both limiters interpret it.
  \<^item> Idempotency (\<open>web/idempotency.py\<close>): a completed request is replayed, a mutation runs at most once per lifetime of its key.
  \<^item> Render_Queue and Render_Lifecycle (\<open>render/queue.py\<close>, \<open>run_with_write_retry\<close> of \<open>db/engine.py\<close>): the life cycle of a job
    under crashes and restarts, the accounting of slots, the orphan sweep, the settle loop.
  \<^item> Storage_Paths and Disk_Monitor (\<open>storage/paths.py\<close>, \<open>storage/monitor.py\<close>): containment of paths; the free-space
    gate refines a hysteresis specification.
  \<^item> Frame_Store and Frame_Lifecycle (\<open>storage/frames.py\<close>, \<open>capture/frame_writer.py\<close>, \<open>services/frames.py\<close>): the invariant of the
    frame table, and that nothing but a permanent delete loses a row or a file.
  \<^item> Frame_Order, Frame_Renumber, Renumber_Steps and Order_Restored (\<open>storage/frames.py\<close>): the renumber in one transaction and in
    chunks restores the order; other transactions may come between the chunks; the commit hook keeps every project in order.
  \<^item> Multipart and Multipart_Chunks (\<open>web/multipart.py\<close>): the incremental parser; where a body is accepted in chunks, it is
    accepted in one piece with the same parts, and the bytes held between chunks are bounded.
  \<^item> Multipart_Form, Form_Stream and Upload_Form (\<open>web/multipart.py\<close>, \<open>_streamed_first_part_token\<close> of \<open>web/middleware.py\<close>): the streamed form
    is the form of the body, it is accepted exactly within its limits, and the token checked first is the token of the form.
  \<^item> Csrf (\<open>security/csrf.py\<close>): a masked token is accepted for its own secret and no other.

  \<^bold>\<open>Bounds, fuel and termination.\<close>  Loops are structural recursion or functions with a termination proof.
  The scan of a text in Redaction takes the length of the text as fuel, and every token consumes a character.
  Two loops are partial functions, \<open>settle_loop\<close> and \<open>run_to_end\<close>: the first is shown to return exactly when a write lands or
  the worker stops, the second always to return in the equivalence with the single transaction.  The daily scans have the
  horizon of the code.  Sizes compared with a constant limit of the code are integers, so that they can be evaluated.

  \<^bold>\<open>Approximations.\<close>  Rates and percentages are exact rationals where the code has floats.  Strings are Latin-1 except in
  Csrf, where they are code points.  The timing of a constant-time comparison, log output and message texts are left out.
  Theorems about the daily scans and anchors assume one offset of the zone over the horizon where they say so.

  \<^bold>\<open>Not modelled.\<close>  The capture supervisor and the executors, whose order is that of the event loop and the network; the
  camera protocols, whose behaviour is the device's; the encoder and the other work of FFmpeg; LDAP, password
  hashing, encryption at rest and sessions; the SSRF address policy; the rest of the middleware (the form
  readers other than the streamed one, body limits, allowed hosts); the pages and API handlers, which translate
  requests into calls of the services; the settings, the migrations, the command line and the problem reports.  Of the modelled
  files: listings, upload and import of frames, the image header reader, the creation and ownership of the spool
  directory, the log formatters.  None of these is in the way of a model in principle; those whose effect is not that of
  a device, a library or a framework (the SSRF policy, frame selection, import) are left for later work.
\<close>

end
